(* ===== verification/Prelude.thy ===== *)
theory Prelude
  imports Main Complex_Main "HOL-Library.AList" "HOL-Library.List_Lexorder" "HOL-Library.Char_ord"
begin

text \<open>
  What the component theories share: the exceptions of Python as values, results that carry the
  state reached when an exception is raised, and the parts of Python's lists, dictionaries and
  sets that the modelled programs use.

  \<^item> A Python \<open>list\<close> is a HOL list in the same order: \<open>append\<close> adds at the end and \<open>pop()\<close>
    takes the last element.
  \<^item> A Python \<open>dict\<close> whose iteration order is observable is an association list with distinct
    keys in insertion order (\<open>AList.update\<close> keeps the place of an existing key and appends a
    new one, as \<open>d[k] = v\<close> does); otherwise it is a map.
  \<^item> A Python \<open>set\<close> that the program iterates over is a duplicate-free list (some iteration
    order); theorems speak of its elements only.
  \<^item> An integer is an \<open>int\<close>; time stamps and ratios are reals.
\<close>

section \<open>Collections of rewrite rules\<close>

named_theorems pylist \<open>facts on Python list operations\<close>
named_theorems pydict \<open>facts on Python dictionary operations\<close>
named_theorems pyset \<open>facts on Python set operations\<close>

section \<open>Exceptions and results\<close>

datatype py_error =
    KeyError
  | IndexError
  | ValueError
  | RuntimeError
  | ZeroDivisionError

text \<open>
  A method that may raise returns the exception or its value, and the state it leaves behind:
  Python does not roll back the assignments made before a \<open>raise\<close>.
\<close>

type_synonym ('e, 'a, 's) outcome = "('e + 'a) \<times> 's"

abbreviation result_of :: "('e, 'a, 's) outcome \<Rightarrow> 'e + 'a" where
  "result_of r \<equiv> fst r"

abbreviation state_of :: "('e, 'a, 's) outcome \<Rightarrow> 's" where
  "state_of r \<equiv> snd r"

definition and_then :: "('e, 'a, 's) outcome \<Rightarrow> ('a \<Rightarrow> 's \<Rightarrow> ('e, 'b, 's) outcome) \<Rightarrow> ('e, 'b, 's) outcome" where
  "and_then r f = (case r of (Inl e, s) \<Rightarrow> (Inl e, s) | (Inr a, s) \<Rightarrow> f a s)"

lemma and_then_Inl [simp]: "and_then (Inl e, s) f = (Inl e, s)"
  by (simp add: and_then_def)

lemma and_then_Inr [simp]: "and_then (Inr a, s) f = f a s"
  by (simp add: and_then_def)

lemma and_then_state_inv:
  assumes "P (state_of r)"
    and "\<And>a. result_of r = Inr a \<Longrightarrow> P (state_of r) \<Longrightarrow> P (state_of (f a (state_of r)))"
  shows "P (state_of (and_then r f))"
proof (cases r)
  case (Pair v s)
  with assms show ?thesis by (cases v) auto
qed

lemma and_then_eq_Inr:
  "and_then r f = (Inr b, t) \<longleftrightarrow> (\<exists>a s. r = (Inr a, s) \<and> f a s = (Inr b, t))"
  by (auto simp: and_then_def split: prod.splits sum.splits)

text \<open>A \<open>for\<close> statement whose body may raise.\<close>

fun for_each :: "('a \<Rightarrow> 's \<Rightarrow> ('e, unit, 's) outcome) \<Rightarrow> 'a list \<Rightarrow> 's \<Rightarrow> ('e, unit, 's) outcome" where
  "for_each f [] s = (Inr (), s)"
| "for_each f (x # xs) s = and_then (f x s) (\<lambda>_ t. for_each f xs t)"

lemma for_each_inv:
  assumes "P s" and "\<And>x t. x \<in> set xs \<Longrightarrow> P t \<Longrightarrow> P (state_of (f x t))"
  shows "P (state_of (for_each f xs s))"
  using assms
proof (induction xs arbitrary: s)
  case (Cons x xs)
  have x: "P (state_of (f x s))" using Cons.prems by simp
  have "P (state_of (for_each f xs (state_of (f x s))))"
    using Cons.IH [OF x] Cons.prems(2) by simp
  then show ?case
    using x by (cases "f x s") (auto simp: and_then_def split: sum.splits)
qed simp

section \<open>Lists: removal of the first match, popping the last element\<close>

text \<open>The loop \<open>for i, x in enumerate(xs): if p(x): xs.pop(i); break\<close>.\<close>

fun remove_first :: "('a \<Rightarrow> bool) \<Rightarrow> 'a list \<Rightarrow> 'a list" where
  "remove_first p [] = []"
| "remove_first p (x # xs) = (if p x then xs else x # remove_first p xs)"

lemma remove_first_no_match [simp]: "\<forall>x\<in>set xs. \<not> p x \<Longrightarrow> remove_first p xs = xs"
  by (induction xs) auto

lemma remove_first_append:
  "remove_first p (xs @ ys) =
     (if \<exists>x\<in>set xs. p x then remove_first p xs @ ys else xs @ remove_first p ys)"
  by (induction xs) auto

lemma set_remove_first_subset [pylist]: "set (remove_first p xs) \<subseteq> set xs"
  by (induction xs) auto

lemma map_remove_first: "map f (remove_first (\<lambda>x. q (f x)) xs) = remove_first q (map f xs)"
  by (induction xs) auto

lemma remove_first_eq_remove1: "remove_first (\<lambda>x. x = a) xs = remove1 a xs"
  by (induction xs) auto

lemma map_remove_first_key:
  "map f (remove_first (\<lambda>x. f x = a) xs) = remove1 a (map f xs)"
  by (induction xs) auto

lemma find_None_iff_set: "find p xs = None \<longleftrightarrow> (\<forall>x\<in>set xs. \<not> p x)"
  by (auto simp: find_None_iff)

lemma case_option_None_iff [simp]:
  "(case x of None \<Rightarrow> None | Some y \<Rightarrow> Some (f y)) = None \<longleftrightarrow> x = None"
  by (cases x) auto

lemma find_SomeD: "find p xs = Some x \<Longrightarrow> p x \<and> x \<in> set xs"
  by (auto simp: find_Some_iff)

lemma distinct_butlast_last: "xs \<noteq> [] \<Longrightarrow> distinct xs \<Longrightarrow> last xs \<notin> set (butlast xs)"
  by (cases xs rule: rev_cases) auto

lemma set_butlast_last: "xs \<noteq> [] \<Longrightarrow> set xs = insert (last xs) (set (butlast xs))"
  by (cases xs rule: rev_cases) auto

text \<open>
  The index of a sequence of length \<open>n\<close> that \<open>xs[i]\<close> denotes: a negative index counts from the end,
  and an index out of range raises \<open>IndexError\<close> (here \<^term>\<open>None\<close>).
\<close>

definition py_index :: "nat \<Rightarrow> int \<Rightarrow> nat option" where
  "py_index n i =
     (if 0 \<le> i \<and> i < int n then Some (nat i)
      else if - int n \<le> i \<and> i < 0 then Some (nat (i + int n)) else None)"

lemma py_index_nat [simp, pylist]: "py_index n (int i) = (if i < n then Some i else None)"
  by (simp add: py_index_def)

lemma py_index_less [pylist]: "py_index n i = Some j \<Longrightarrow> j < n"
  by (auto simp: py_index_def split: if_splits)

text \<open>The slice \<open>xs[:n]\<close>: a negative \<open>n\<close> drops elements at the end.\<close>

definition py_take :: "int \<Rightarrow> 'a list \<Rightarrow> 'a list" where
  "py_take n xs = (if 0 \<le> n then take (nat n) xs else take (length xs - nat (- n)) xs)"

lemma py_take_nat [simp, pylist]: "py_take (int n) xs = take n xs"
  by (simp add: py_take_def)

section \<open>Sums over the values of a finite map\<close>

definition map_total :: "('v \<Rightarrow> int) \<Rightarrow> ('k \<rightharpoonup> 'v) \<Rightarrow> int" where
  "map_total f m = (\<Sum>k\<in>dom m. f (the (m k)))"

lemma map_total_empty [simp]: "map_total f Map.empty = 0"
  by (simp add: map_total_def)

lemma map_total_upd:
  assumes "finite (dom m)" and "m k = None"
  shows "map_total f (m(k \<mapsto> v)) = map_total f m + f v"
proof -
  have "k \<notin> dom m" using assms(2) by auto
  moreover have "(\<Sum>x\<in>dom m. f (the ((m(k \<mapsto> v)) x))) = (\<Sum>x\<in>dom m. f (the (m x)))"
    using \<open>k \<notin> dom m\<close> by (intro sum.cong) auto
  ultimately show ?thesis using assms(1) by (simp add: map_total_def)
qed

lemma map_total_del:
  assumes "finite (dom m)" and "m k = Some v"
  shows "map_total f (m(k := None)) = map_total f m - f v"
proof -
  have "(m(k := None))(k \<mapsto> v) = m" using assms(2) by auto
  moreover have "finite (dom (m(k := None)))" using assms(1) by simp
  ultimately show ?thesis
    using map_total_upd [of "m(k := None)" k f v] by simp
qed

lemma map_total_nonneg: "(\<And>k v. m k = Some v \<Longrightarrow> 0 \<le> f v) \<Longrightarrow> 0 \<le> map_total f m"
  unfolding map_total_def by (rule sum_nonneg) auto

section \<open>Sets and dictionaries of the programs\<close>

text \<open>
  A Python set that is iterated is a duplicate-free list: \<open>set_add\<close> and \<open>set_discard\<close> are its
  methods \<open>add\<close> and \<open>discard\<close>. A dict is an association list with distinct keys, in insertion
  order: \<open>AList.update\<close> is assignment, \<open>AList.delete\<close> removal, \<open>dict_get\<close> is \<open>get\<close> with a default.
\<close>

definition set_add :: "'a \<Rightarrow> 'a list \<Rightarrow> 'a list" where
  "set_add x xs = (if x \<in> set xs then xs else xs @ [x])"

definition set_discard :: "'a \<Rightarrow> 'a list \<Rightarrow> 'a list" where
  "set_discard x xs = filter (\<lambda>y. y \<noteq> x) xs"

definition dict_get :: "('k \<times> 'v) list \<Rightarrow> 'k \<Rightarrow> 'v \<Rightarrow> 'v" where
  "dict_get d k v = (case map_of d k of Some x \<Rightarrow> x | None \<Rightarrow> v)"

definition keys_of :: "('k \<times> 'v) list \<Rightarrow> 'k set" where
  "keys_of d = fst ` set d"

lemma keys_of_simps [simp, pydict]:
  "keys_of [] = {}"
  "keys_of ((k, v) # d) = insert k (keys_of d)"
  "keys_of (d @ e) = keys_of d \<union> keys_of e"
  "finite (keys_of d)"
  by (auto simp: keys_of_def)

lemma keys_of_eq_empty [simp]: "keys_of d = {} \<longleftrightarrow> d = []"
  by (simp add: keys_of_def)

lemma map_of_eq_None_keys: "map_of d k = None \<longleftrightarrow> k \<notin> keys_of d"
  by (simp add: keys_of_def map_of_eq_None_iff)

lemma set_set_add [simp, pyset]: "set (set_add x xs) = insert x (set xs)"
  by (auto simp: set_add_def)

lemma distinct_set_add [simp, pyset]: "distinct (set_add x xs) = distinct xs"
  by (auto simp: set_add_def)

lemma set_set_discard [simp, pyset]: "set (set_discard x xs) = set xs - {x}"
  by (auto simp: set_discard_def)

lemma distinct_set_discard [simp, pyset]: "distinct xs \<Longrightarrow> distinct (set_discard x xs)"
  by (simp add: set_discard_def)

lemma set_discard_notin [simp]: "x \<notin> set xs \<Longrightarrow> set_discard x xs = xs"
  by (induction xs) (auto simp: set_discard_def)

lemma keys_of_update [simp, pydict]: "keys_of (AList.update k v d) = insert k (keys_of d)"
  by (simp add: keys_of_def dom_update)

lemma keys_of_delete [simp, pydict]: "keys_of (AList.delete k d) = keys_of d - {k}"
  unfolding keys_of_def by (metis delete_keys list.set_map set_removeAll)

lemma update_new_key: "k \<notin> keys_of d \<Longrightarrow> AList.update k v d = d @ [(k, v)]"
  by (induction d) auto

lemma map_of_update [simp, pydict]:
  "map_of (AList.update k v d) k' = (if k' = k then Some v else map_of d k')"
  by (simp add: update_conv)

lemma map_of_delete [simp, pydict]:
  "map_of (AList.delete k d) k' = (if k' = k then None else map_of d k')"
  by (simp add: delete_conv)

lemma map_of_map_entry [simp, pydict]:
  "map_of (AList.map_entry k f d) k' = (if k' = k then map_option f (map_of d k) else map_of d k')"
  by (induction d) auto

lemma map_fst_map_entry [simp]: "map fst (AList.map_entry k f d) = map fst d"
  by (induction d) auto

lemma keys_of_map_entry [simp, pydict]: "keys_of (AList.map_entry k f d) = keys_of d"
  unfolding keys_of_def list.set_map [symmetric] by simp

lemma distinct_keys_delete [simp, pydict]:
  "distinct (map fst d) \<Longrightarrow> distinct (map fst (AList.delete k d))"
  by (rule distinct_delete)

lemma distinct_keys_update [simp, pydict]:
  "distinct (map fst d) \<Longrightarrow> distinct (map fst (AList.update k v d))"
  by (rule distinct_update)

lemma keys_of_iff [pydict]: "k \<in> keys_of d \<longleftrightarrow> (\<exists>v. map_of d k = Some v)"
  by (metis map_of_eq_None_keys not_None_eq)

end
