(* ===== verification/Memory_Types.thy ===== *)
theory Memory_Types
  imports Prelude
begin

text \<open>
  The data of the GPU memory manager (\<open>39-gpu-memory-manager/src/gpumem/core/memory.py\<close>):
  devices, configuration, statistics and blocks, and the contract of the abstract class
  \<open>Allocator\<close> (\<open>allocator/allocator.py\<close>) as a locale.
\<close>

datatype device_type = CPU | CUDA | ROCM | METAL | VULKAN

record memory_config =
  device_type :: device_type
  device_id :: int
  max_memory :: int
  min_split_size :: int
  max_split_size :: int
  garbage_collection_threshold :: real
  expandable_segments :: bool
  release_threshold :: real
  alignment :: int
  round_up_power2 :: bool

definition default_config :: memory_config where
  "default_config = \<lparr>device_type = CPU, device_id = 0, max_memory = 0, min_split_size = 512,
     max_split_size = 200 * 1024 * 1024, garbage_collection_threshold = 8 / 10,
     expandable_segments = True, release_threshold = 95 / 100, alignment = 512,
     round_up_power2 = True\<rparr>"

record memory_stats =
  st_allocated :: int
  st_reserved :: int
  st_active :: int
  st_inactive :: int
  st_freed :: int
  num_allocs :: int
  num_frees :: int
  num_ooms :: int
  peak_allocated :: int
  peak_reserved :: int

definition zero_stats :: memory_stats where
  "zero_stats = \<lparr>st_allocated = 0, st_reserved = 0, st_active = 0, st_inactive = 0, st_freed = 0,
     num_allocs = 0, num_frees = 0, num_ooms = 0, peak_allocated = 0, peak_reserved = 0\<rparr>"

text \<open>\<open>_update_stats_alloc\<close> and \<open>_update_stats_free\<close>; the pool and slab allocators do the same inline.\<close>

definition update_stats_alloc :: "int \<Rightarrow> memory_stats \<Rightarrow> memory_stats" where
  "update_stats_alloc n st = st
     \<lparr>st_allocated := st_allocated st + n, st_active := st_active st + n,
      num_allocs := num_allocs st + 1,
      peak_allocated := max (peak_allocated st) (st_allocated st + n)\<rparr>"

definition update_stats_free :: "int \<Rightarrow> memory_stats \<Rightarrow> memory_stats" where
  "update_stats_free n st = st
     \<lparr>st_allocated := st_allocated st - n, st_active := st_active st - n,
      st_inactive := st_inactive st + n, num_frees := num_frees st + 1\<rparr>"

text \<open>The two lines that count newly reserved bytes and their high-water mark.\<close>

definition update_stats_reserve :: "int \<Rightarrow> memory_stats \<Rightarrow> memory_stats" where
  "update_stats_reserve n st = st
     \<lparr>st_reserved := st_reserved st + n,
      peak_reserved := max (peak_reserved st) (st_reserved st + n)\<rparr>"

lemma update_stats_simps [simp]:
  "st_allocated (update_stats_alloc n st) = st_allocated st + n"
  "st_reserved (update_stats_alloc n st) = st_reserved st"
  "st_active (update_stats_alloc n st) = st_active st + n"
  "st_inactive (update_stats_alloc n st) = st_inactive st"
  "num_allocs (update_stats_alloc n st) = num_allocs st + 1"
  "num_frees (update_stats_alloc n st) = num_frees st"
  "peak_allocated (update_stats_alloc n st) = max (peak_allocated st) (st_allocated st + n)"
  "peak_reserved (update_stats_alloc n st) = peak_reserved st"
  "st_allocated (update_stats_free n st) = st_allocated st - n"
  "st_reserved (update_stats_free n st) = st_reserved st"
  "st_active (update_stats_free n st) = st_active st - n"
  "st_inactive (update_stats_free n st) = st_inactive st + n"
  "num_allocs (update_stats_free n st) = num_allocs st"
  "num_frees (update_stats_free n st) = num_frees st + 1"
  "peak_allocated (update_stats_free n st) = peak_allocated st"
  "peak_reserved (update_stats_free n st) = peak_reserved st"
  "st_allocated (update_stats_reserve n st) = st_allocated st"
  "st_reserved (update_stats_reserve n st) = st_reserved st + n"
  "st_active (update_stats_reserve n st) = st_active st"
  "num_allocs (update_stats_reserve n st) = num_allocs st"
  "num_frees (update_stats_reserve n st) = num_frees st"
  "peak_allocated (update_stats_reserve n st) = peak_allocated st"
  by (simp_all add: update_stats_alloc_def update_stats_free_def update_stats_reserve_def)

record memory_block =
  mb_ptr :: int
  mb_size :: int
  mb_device :: device_type
  mb_device_id :: int
  mb_allocated :: bool
  mb_stream :: int
  mb_timestamp :: real
  mb_prev :: "nat option"
  mb_next :: "nat option"
  mb_pool :: "nat option"
  mb_tag :: string
  mb_stacktrace :: string

text \<open>
  \<open>MemoryBlock(ptr=..., size=..., device=..., device_id=..., stream=...)\<close> with the default
  values of the other fields; \<open>now\<close> is the value of \<open>time.time()\<close>.
\<close>

definition new_block :: "int \<Rightarrow> int \<Rightarrow> memory_config \<Rightarrow> int \<Rightarrow> real \<Rightarrow> memory_block" where
  "new_block p n cfg stream now =
     \<lparr>mb_ptr = p, mb_size = n, mb_device = device_type cfg, mb_device_id = device_id cfg,
      mb_allocated = True, mb_stream = stream, mb_timestamp = now, mb_prev = None,
      mb_next = None, mb_pool = None, mb_tag = [], mb_stacktrace = []\<rparr>"

lemma new_block_simps [simp]:
  "mb_ptr (new_block p n cfg st now) = p"
  "mb_size (new_block p n cfg st now) = n"
  "mb_stream (new_block p n cfg st now) = st"
  "mb_allocated (new_block p n cfg st now)"
  by (simp_all add: new_block_def)

section \<open>Address ranges\<close>

definition region :: "int \<times> int \<Rightarrow> int set" where
  "region r = {fst r..<fst r + snd r}"

definition disjoint_regions :: "(int \<times> int) set \<Rightarrow> bool" where
  "disjoint_regions R \<longleftrightarrow> (\<forall>r\<in>R. \<forall>r'\<in>R. r \<noteq> r' \<longrightarrow> region r \<inter> region r' = {})"

lemma disjoint_regionsD:
  "disjoint_regions R \<Longrightarrow> r \<in> R \<Longrightarrow> r' \<in> R \<Longrightarrow> r \<noteq> r' \<Longrightarrow> region r \<inter> region r' = {}"
  by (auto simp: disjoint_regions_def)

lemma disjoint_regions_insert:
  "disjoint_regions (insert r R) \<longleftrightarrow>
     disjoint_regions R \<and> (\<forall>r'\<in>R. r \<noteq> r' \<longrightarrow> region r \<inter> region r' = {})"
  unfolding disjoint_regions_def by (metis Int_commute insert_iff)

lemma disjoint_regions_subset: "disjoint_regions R \<Longrightarrow> S \<subseteq> R \<Longrightarrow> disjoint_regions S"
  unfolding disjoint_regions_def by blast

section \<open>The contract of an allocator\<close>

text \<open>
  The client's side of \<open>Allocator\<close>: it calls \<open>allocate\<close>, keeps the blocks it is given, and
  passes one of them to \<open>free\<close> when it is done with it. A call that raises leaves the state it
  reached and the client goes on.
\<close>

datatype alloc_op = Allocate int int real | Release nat

type_synonym 's alloc_fun = "'s \<Rightarrow> int \<Rightarrow> int \<Rightarrow> real \<Rightarrow> (py_error, memory_block option, 's) outcome"
type_synonym 's free_fun = "'s \<Rightarrow> memory_block \<Rightarrow> 's"

fun client_step ::
  "'s alloc_fun \<Rightarrow> 's free_fun \<Rightarrow> 's \<times> memory_block list \<Rightarrow> alloc_op \<Rightarrow> 's \<times> memory_block list" where
  "client_step al fr (s, held) (Allocate n st now) =
     (case al s n st now of
        (Inr (Some b), t) \<Rightarrow> (t, held @ [b])
      | (_, t) \<Rightarrow> (t, held))"
| "client_step al fr (s, held) (Release i) =
     (if i < length held then (fr s (held ! i), take i held @ drop (Suc i) held) else (s, held))"

definition client_run ::
  "'s alloc_fun \<Rightarrow> 's free_fun \<Rightarrow> 's \<Rightarrow> alloc_op list \<Rightarrow> 's \<times> memory_block list" where
  "client_run al fr s ops = foldl (client_step al fr) (s, []) ops"

lemma client_run_const:
  assumes "\<And>s n st now. f (state_of (al s n st now)) = f s" and "\<And>s b. f (fr s b) = f s"
  shows "f (fst (client_run al fr s ops)) = f s"
proof -
  have step: "f (fst (client_step al fr c x)) = f (fst c)" for c x
  proof (cases x)
    case (Allocate n st now)
    obtain s held where c: "c = (s, held)" by (cases c)
    obtain v t where vt: "al s n st now = (v, t)" by force
    then have "f t = f s" using assms(1) [of s n st now] by simp
    then show ?thesis using Allocate c vt by (auto split: sum.splits option.splits)
  qed (use assms(2) in \<open>cases c; simp\<close>)
  have "f (fst (foldl (client_step al fr) c ops)) = f (fst c)" for c
    by (induction ops arbitrary: c) (simp_all add: step)
  then show ?thesis by (simp add: client_run_def)
qed

definition block_region :: "memory_block \<Rightarrow> int \<times> int" where
  "block_region b = (mb_ptr b, mb_size b)"

lemma block_region_sel [simp]: "fst (block_region b) = mb_ptr b" "snd (block_region b) = mb_size b"
  by (simp_all add: block_region_def)

definition non_overlapping :: "memory_block list \<Rightarrow> bool" where
  "non_overlapping bs \<longleftrightarrow> (\<forall>i < length bs. \<forall>j < length bs. i \<noteq> j \<longrightarrow>
     region (block_region (bs ! i)) \<inter> region (block_region (bs ! j)) = {})"

lemma non_overlappingI:
  assumes "distinct (map block_region bs)" and "disjoint_regions (set (map block_region bs))"
  shows "non_overlapping bs"
  unfolding non_overlapping_def
proof (intro allI impI)
  fix i j
  assume ij: "i < length bs" "j < length bs" "i \<noteq> j"
  then have "block_region (bs ! i) \<noteq> block_region (bs ! j)"
    using assms(1) nth_eq_iff_index_eq [of "map block_region bs" i j] by auto
  then show "region (block_region (bs ! i)) \<inter> region (block_region (bs ! j)) = {}"
    using ij by (intro disjoint_regionsD [OF assms(2)]) auto
qed

lemma remove_nth:
  assumes "distinct xs" and "i < length xs"
  shows "distinct (take i xs @ drop (Suc i) xs)"
    and "set (take i xs @ drop (Suc i) xs) = set xs - {xs ! i}"
proof -
  have "xs = take i xs @ xs ! i # drop (Suc i) xs" using assms(2) by (rule id_take_nth_drop)
  then have d: "distinct (take i xs @ xs ! i # drop (Suc i) xs)"
    and s: "set xs = set (take i xs @ xs ! i # drop (Suc i) xs)" using assms(1) by auto
  then show "distinct (take i xs @ drop (Suc i) xs)"
    and "set (take i xs @ drop (Suc i) xs) = set xs - {xs ! i}" by auto
qed

text \<open>
  What every allocator promises: an invariant that all operations keep, and a set of live
  blocks (address and length) that never overlap, to which an allocation adds a new block, from
  which a release takes the released block, and which the release of an unknown address leaves
  alone.
\<close>

locale block_allocator =
  fixes al :: "'s alloc_fun"
    and fr :: "'s free_fun"
    and inv :: "'s \<Rightarrow> bool"
    and live :: "'s \<Rightarrow> (int \<times> int) set"
  assumes alloc_inv: "inv s \<Longrightarrow> inv (state_of (al s n st now))"
    and free_inv: "inv s \<Longrightarrow> block_region b \<in> live s \<Longrightarrow> inv (fr s b)"
    and live_disjoint: "inv s \<Longrightarrow> disjoint_regions (live s)"
    and alloc_live: "inv s \<Longrightarrow> result_of (al s n st now) = Inr (Some b) \<Longrightarrow>
      block_region b \<notin> live s \<and> live (state_of (al s n st now)) = insert (block_region b) (live s)"
    and alloc_fail_live: "inv s \<Longrightarrow> (\<nexists>b. result_of (al s n st now) = Inr (Some b)) \<Longrightarrow>
      live (state_of (al s n st now)) = live s"
    and free_live: "inv s \<Longrightarrow> block_region b \<in> live s \<Longrightarrow>
      live (fr s b) = live s - {block_region b}"
    and free_unknown: "inv s \<Longrightarrow> mb_ptr b \<notin> fst ` live s \<Longrightarrow> fr s b = s"
begin

lemma alloc_fresh:
  assumes "inv s" and "result_of (al s n st now) = Inr (Some b)" and "r \<in> live s"
  shows "region (block_region b) \<inter> region r = {}"
proof -
  have "block_region b \<notin> live s"
    and eq: "live (state_of (al s n st now)) = insert (block_region b) (live s)"
    using alloc_live [OF assms(1,2)] by auto
  moreover have "disjoint_regions (live (state_of (al s n st now)))"
    using assms(1) by (intro live_disjoint alloc_inv)
  ultimately show ?thesis
    using assms(3) by (intro disjoint_regionsD [of "live (state_of (al s n st now))"]) auto
qed

text \<open>The client's blocks are exactly the live ones, at every moment.\<close>

definition in_step :: "'s \<times> memory_block list \<Rightarrow> bool" where
  "in_step c \<longleftrightarrow> inv (fst c) \<and> distinct (map block_region (snd c)) \<and>
     set (map block_region (snd c)) = live (fst c)"

lemma client_step_in_step:
  assumes "in_step (s, held)"
  shows "in_step (client_step al fr (s, held) x)"
proof (cases x)
  case (Allocate n st now)
  show ?thesis
  proof (cases "\<exists>b. result_of (al s n st now) = Inr (Some b)")
    case True
    then obtain b t where r: "al s n st now = (Inr (Some b), t)"
      by (cases "al s n st now") auto
    then have "inv t" "block_region b \<notin> live s" "live t = insert (block_region b) (live s)"
      using assms alloc_inv [of s n st now] alloc_live [of s n st now b]
      by (auto simp: in_step_def)
    then show ?thesis using assms Allocate r by (simp add: in_step_def)
  next
    case False
    then show ?thesis
      using assms Allocate alloc_inv [of s n st now] alloc_fail_live [of s n st now]
      by (cases "al s n st now") (auto simp: in_step_def split: sum.splits option.splits)
  qed
next
  case (Release i)
  show ?thesis
  proof (cases "i < length held")
    case True
    let ?f = block_region
    have "?f (held ! i) \<in> live s" using assms True by (auto simp: in_step_def)
    moreover have "distinct (map ?f (take i held @ drop (Suc i) held))"
      and "set (map ?f (take i held @ drop (Suc i) held)) = live s - {?f (held ! i)}"
      using assms True remove_nth [of "map ?f held" i]
      by (auto simp: in_step_def take_map drop_map)
    ultimately show ?thesis
      using assms Release True by (simp add: in_step_def free_inv free_live)
  next
    case False
    then show ?thesis using assms Release by simp
  qed
qed

lemma client_run_in_step:
  assumes "inv s" and "live s = {}"
  shows "in_step (client_run al fr s ops)"
proof -
  have "in_step (foldl (client_step al fr) c ops)" if "in_step c" for c
    using that
  proof (induction ops arbitrary: c)
    case (Cons x ops)
    from Cons.prems have "in_step (client_step al fr c x)"
      using client_step_in_step [of "fst c" "snd c" x] by simp
    then show ?case using Cons.IH by simp
  qed simp
  then show ?thesis using assms by (simp add: client_run_def in_step_def)
qed

lemma run_inv: "inv s \<Longrightarrow> live s = {} \<Longrightarrow> inv (fst (client_run al fr s ops))"
  using client_run_in_step [of s ops] by (simp add: in_step_def)

lemma run_live:
  assumes "inv s" and "live s = {}" and "client_run al fr s ops = (t, held)"
  shows "distinct (map block_region held)" "block_region ` set held = live t"
    "(\<Sum>r\<in>live t. snd r) = sum_list (map mb_size held)"
proof -
  show d: "distinct (map block_region held)" and l: "block_region ` set held = live t"
    using client_run_in_step [OF assms(1,2), of ops] assms(3) by (simp_all add: in_step_def)
  have "sum_list (map snd (map block_region held)) = (\<Sum>r\<in>set (map block_region held). snd r)"
    using d by (rule sum_list_distinct_conv_sum_set)
  then show "(\<Sum>r\<in>live t. snd r) = sum_list (map mb_size held)" using l by (simp add: comp_def)
qed

lemma run_non_overlapping:
  assumes "inv s" and "live s = {}"
  shows "non_overlapping (snd (client_run al fr s ops))"
  using client_run_in_step [OF assms, of ops] live_disjoint
  by (auto simp: in_step_def intro!: non_overlappingI)

end

text \<open>An allocator that also honours the requested length, where the request fits.\<close>

locale sized_allocator = block_allocator al fr inv live
  for al :: "'s alloc_fun" and fr :: "'s free_fun"
    and inv :: "'s \<Rightarrow> bool" and live :: "'s \<Rightarrow> (int \<times> int) set" +
  fixes fits :: "'s \<Rightarrow> int \<Rightarrow> bool"
  assumes alloc_size: "inv s \<Longrightarrow> fits s n \<Longrightarrow>
      result_of (al s n st now) = Inr (Some b) \<Longrightarrow> n \<le> mb_size b"
begin

text \<open>The client may use every one of the bytes it asked for without touching a live block.\<close>

lemma alloc_usable:
  assumes "inv s" and "fits s n" and "result_of (al s n st now) = Inr (Some b)" and "r \<in> live s"
  shows "{mb_ptr b..<mb_ptr b + n} \<inter> region r = {}"
proof -
  have "{mb_ptr b..<mb_ptr b + n} \<subseteq> region (block_region b)"
    using alloc_size [OF assms(1-3)] by (auto simp: region_def block_region_def)
  then show ?thesis using alloc_fresh [OF assms(1,3,4)] by blast
qed

end

end
