(* ===== verification/Buddy.thy ===== *)
theory Buddy
  imports Memory_Types
begin

unbundle bit_operations_syntax

text \<open>
  \<open>BuddyAllocator\<close> of \<open>39-gpu-memory-manager/src/gpumem/allocator/allocator.py\<close>: free lists per
  order (a block of order \<open>n\<close> has \<open>2^n\<close> bytes), splitting on allocation and merging with the
  buddy on release. The dictionary \<open>_free_lists\<close> has the keys 9 to 30 from the start and every
  access uses a key in that range (lemma \<open>get_order_bounds\<close>), so it is a function of the order.

  The invariant says that free and allocated blocks tile the arena, and that no two free blocks
  are buddies. It gives non-overlap, exact accounting, and that a fully released arena is one
  block again.
\<close>

section \<open>State and operations\<close>

type_synonym free_lists = "nat \<Rightarrow> (int \<times> int) list"

record buddy =
  bd_config :: memory_config
  bd_total_size :: int
  bd_free_lists :: free_lists
  bd_allocated :: "int \<rightharpoonup> int \<times> nat"
  bd_stats :: memory_stats

definition min_order :: nat where
  "min_order = 9"

definition max_order :: nat where
  "max_order = 30"

text \<open>\<open>_get_order\<close>: the loop, then the cap at the largest order.\<close>

function order_loop :: "nat \<Rightarrow> int \<Rightarrow> nat" where
  "order_loop n sz = (if 2 ^ n < sz then order_loop (n + 1) sz else n)"
  by pat_completeness auto
termination
  by (relation "measure (\<lambda>(n, sz). nat (sz - 2 ^ n))") auto

declare order_loop.simps [simp del]

definition get_order :: "int \<Rightarrow> nat" where
  "get_order sz = min (order_loop min_order sz) max_order"

definition buddy_init :: "memory_config \<Rightarrow> int \<Rightarrow> buddy" where
  "buddy_init cfg total_size =
     \<lparr>bd_config = cfg, bd_total_size = total_size,
      bd_free_lists = (\<lambda>_. [])(get_order total_size := [(0, total_size)]),
      bd_allocated = Map.empty,
      bd_stats = zero_stats\<lparr>st_reserved := total_size, peak_reserved := total_size\<rparr>\<rparr>"

text \<open>The \<open>while\<close> loop of \<open>_split_block\<close>.\<close>

fun split_loop :: "nat \<Rightarrow> nat \<Rightarrow> int \<Rightarrow> free_lists \<Rightarrow> free_lists" where
  "split_loop 0 to p fl = fl"
| "split_loop (Suc n) to p fl =
     (if Suc n > to then split_loop n to p (fl(n := fl n @ [(p + 2 ^ n, 2 ^ n)])) else fl)"

definition split_block :: "free_lists \<Rightarrow> nat \<Rightarrow> nat \<Rightarrow> int \<times> free_lists" where
  "split_block fl from_order to_order =
     (let p = fst (last (fl from_order));
          fl' = fl(from_order := butlast (fl from_order))
      in (p, split_loop from_order to_order p fl'))"

definition find_block :: "free_lists \<Rightarrow> nat \<Rightarrow> (int \<times> free_lists) option" where
  "find_block fl n =
     (if fl n \<noteq> [] then Some (fst (last (fl n)), fl(n := butlast (fl n)))
      else case find (\<lambda>larger. fl larger \<noteq> []) [n + 1..<max_order + 1] of
        Some larger \<Rightarrow> Some (split_block fl larger n)
      | None \<Rightarrow> None)"

definition buddy_allocate :: "buddy alloc_fun" where
  "buddy_allocate s sz stream now =
     (let n = get_order sz; block_size = 2 ^ n
      in case find_block (bd_free_lists s) n of
           None \<Rightarrow> (Inr None, s\<lparr>bd_stats := (bd_stats s)\<lparr>num_ooms := num_ooms (bd_stats s) + 1\<rparr>\<rparr>)
         | Some (p, fl) \<Rightarrow>
             (Inr (Some (new_block p block_size (bd_config s) stream now)),
              s\<lparr>bd_free_lists := fl,
                bd_allocated := (bd_allocated s)(p \<mapsto> (block_size, n)),
                bd_stats := (bd_stats s)
                  \<lparr>st_allocated := st_allocated (bd_stats s) + block_size,
                   st_active := st_active (bd_stats s) + block_size,
                   num_allocs := num_allocs (bd_stats s) + 1,
                   peak_allocated :=
                     max (peak_allocated (bd_stats s)) (st_allocated (bd_stats s) + block_size)\<rparr>\<rparr>))"

text \<open>\<open>_coalesce\<close>: \<open>p XOR 2^n\<close> is the buddy; stop at the largest order or without a free buddy.\<close>

function coalesce :: "int \<Rightarrow> nat \<Rightarrow> free_lists \<Rightarrow> free_lists" where
  "coalesce p n fl =
     (let buddy_ptr = p XOR 2 ^ n
      in if n < max_order \<and> buddy_ptr \<in> fst ` set (fl n)
         then coalesce (min p buddy_ptr) (n + 1)
                (fl(n := remove_first (\<lambda>e. fst e = buddy_ptr) (fl n)))
         else fl(n := fl n @ [(p, 2 ^ n)]))"
  by pat_completeness auto
termination
  by (relation "measure (\<lambda>(p, n, fl). max_order - n)") auto

declare coalesce.simps [simp del]

definition buddy_free :: "buddy free_fun" where
  "buddy_free s b =
     (case bd_allocated s (mb_ptr b) of
        None \<Rightarrow> s
      | Some (sz, n) \<Rightarrow>
          s\<lparr>bd_allocated := (bd_allocated s)(mb_ptr b := None),
            bd_free_lists := coalesce (mb_ptr b) n (bd_free_lists s),
            bd_stats := (bd_stats s)
              \<lparr>st_allocated := st_allocated (bd_stats s) - sz,
               st_active := st_active (bd_stats s) - sz,
               st_inactive := st_inactive (bd_stats s) + sz,
               num_frees := num_frees (bd_stats s) + 1\<rparr>\<rparr>)"

definition buddy_empty_cache :: "buddy \<Rightarrow> buddy" where
  "buddy_empty_cache s = s"

section \<open>Orders\<close>

lemma order_loop_ge: "n \<le> order_loop n sz"
proof (induction n sz rule: order_loop.induct)
  case (1 n sz)
  then show ?case by (subst order_loop.simps) auto
qed

lemma order_loop_size: "sz \<le> 2 ^ order_loop n sz"
proof (induction n sz rule: order_loop.induct)
  case (1 n sz)
  then show ?case by (subst order_loop.simps) auto
qed

lemma order_loop_least: "n \<le> m \<Longrightarrow> sz \<le> 2 ^ m \<Longrightarrow> order_loop n sz \<le> m"
proof (induction n sz rule: order_loop.induct)
  case (1 n sz)
  show ?case
  proof (cases "2 ^ n < sz")
    case True
    with 1 have "n \<noteq> m" by auto
    with 1 True show ?thesis by (subst order_loop.simps) auto
  next
    case False
    with 1 show ?thesis by (subst order_loop.simps) auto
  qed
qed

lemma get_order_bounds: "min_order \<le> get_order sz" "get_order sz \<le> max_order"
  using order_loop_ge [of min_order sz] by (auto simp: get_order_def min_order_def max_order_def)

lemma get_order_size: "sz \<le> 2 ^ max_order \<Longrightarrow> sz \<le> 2 ^ get_order sz"
  using order_loop_size [of sz min_order] by (auto simp: get_order_def min_def)

lemma get_order_least: "min_order \<le> m \<Longrightarrow> sz \<le> 2 ^ m \<Longrightarrow> get_order sz \<le> m"
  using order_loop_least [of min_order m sz] by (auto simp: get_order_def)

lemma get_order_power: "min_order \<le> k \<Longrightarrow> k \<le> max_order \<Longrightarrow> get_order (2 ^ k) = k"
proof (rule antisym)
  assume "min_order \<le> k" "k \<le> max_order"
  then show "get_order (2 ^ k) \<le> k" by (auto intro: get_order_least)
  have "(2::int) ^ k \<le> 2 ^ max_order" using \<open>k \<le> max_order\<close> by (rule power_increasing) simp
  then have "(2::int) ^ k \<le> 2 ^ get_order (2 ^ k)" by (rule get_order_size)
  then show "k \<le> get_order (2 ^ k)" by simp
qed

section \<open>The buddy of a block\<close>

lemma xor_power_eq:
  fixes p :: int
  shows "p XOR 2 ^ n = (if bit p n then p - 2 ^ n else p + 2 ^ n)"
proof -
  have "p XOR 2 ^ n = flip_bit n p" by (simp add: flip_bit_eq_xor)
  then show ?thesis by (simp add: flip_bit_eq_if set_bit_eq unset_bit_eq)
qed

lemma aligned_bit_iff:
  fixes p :: int
  assumes "2 ^ n dvd p"
  shows "bit p n \<longleftrightarrow> \<not> 2 ^ Suc n dvd p"
proof -
  obtain q where q: "p = 2 ^ n * q" using assms by blast
  then have "bit p n \<longleftrightarrow> odd q" by (simp add: bit_iff_odd)
  moreover have "2 ^ Suc n dvd p \<longleftrightarrow> even q" using q by simp
  ultimately show ?thesis by simp
qed

lemma buddy_cases:
  fixes p :: int
  assumes "2 ^ n dvd p"
  obtains (left) "2 ^ Suc n dvd p" "p XOR 2 ^ n = p + 2 ^ n"
        | (right) "2 ^ Suc n dvd p - 2 ^ n" "p XOR 2 ^ n = p - 2 ^ n"
proof (cases "2 ^ Suc n dvd p")
  case True
  then show ?thesis using assms aligned_bit_iff [OF assms] left by (simp add: xor_power_eq)
next
  case False
  obtain q where q: "p = 2 ^ n * q" using assms by blast
  then have "odd q" using False by simp
  then obtain r where "q = 2 * r + 1" by (elim oddE)
  then have "p - 2 ^ n = 2 ^ Suc n * r" using q by (simp add: algebra_simps)
  then have "2 ^ Suc n dvd p - 2 ^ n" by simp
  then show ?thesis using False aligned_bit_iff [OF assms] right by (simp add: xor_power_eq)
qed

section \<open>Tilings of the arena by aligned blocks\<close>

definition extent :: "int \<times> nat \<Rightarrow> int set" where
  "extent r = {fst r..<fst r + 2 ^ snd r}"

definition placed :: "nat \<Rightarrow> int \<times> nat \<Rightarrow> bool" where
  "placed k r \<longleftrightarrow> min_order \<le> snd r \<and> snd r \<le> k \<and> 2 ^ snd r dvd fst r \<and>
     0 \<le> fst r \<and> fst r + 2 ^ snd r \<le> 2 ^ k"

definition tiling :: "nat \<Rightarrow> (int \<times> nat) set \<Rightarrow> bool" where
  "tiling k R \<longleftrightarrow> (\<forall>r\<in>R. placed k r) \<and>
     (\<forall>r\<in>R. \<forall>r'\<in>R. r \<noteq> r' \<longrightarrow> extent r \<inter> extent r' = {}) \<and> \<Union> (extent ` R) = {0..<2 ^ k}"

lemma extent_nonempty: "fst r \<in> extent r"
  by (simp add: extent_def)

lemma tiling_placed: "tiling k R \<Longrightarrow> r \<in> R \<Longrightarrow> placed k r"
  by (simp add: tiling_def)

lemma tiling_disjoint:
  "tiling k R \<Longrightarrow> r \<in> R \<Longrightarrow> r' \<in> R \<Longrightarrow> x \<in> extent r \<Longrightarrow> x \<in> extent r' \<Longrightarrow> r = r'"
  unfolding tiling_def by (metis IntI empty_iff)

lemma tiling_cover: "tiling k R \<Longrightarrow> 0 \<le> x \<Longrightarrow> x < 2 ^ k \<Longrightarrow> \<exists>r\<in>R. x \<in> extent r"
  unfolding tiling_def by (metis UN_E atLeastLessThan_iff)

text \<open>Replacing one block by blocks that tile it.\<close>

lemma tiling_replace:
  assumes t: "tiling k (insert r R)" and r: "r \<notin> R"
    and S: "\<Union> (extent ` S) = extent r" "\<forall>s\<in>S. placed k s"
      "\<forall>s\<in>S. \<forall>s'\<in>S. s \<noteq> s' \<longrightarrow> extent s \<inter> extent s' = {}"
  shows "tiling k (S \<union> R)" and "S \<inter> R = {}"
proof -
  have away: "extent s \<inter> extent r' = {}" if "s \<in> S" "r' \<in> R" for s r'
  proof -
    have "extent s \<subseteq> extent r" using S(1) that(1) by blast
    moreover have "extent r \<inter> extent r' = {}"
      using t r that(2) unfolding tiling_def by (metis insert_iff)
    ultimately show ?thesis by blast
  qed
  then show "S \<inter> R = {}" using extent_nonempty by blast
  have "\<Union> (extent ` (S \<union> R)) = \<Union> (extent ` insert r R)" using S(1) by auto
  moreover have "\<forall>r\<in>S \<union> R. \<forall>r'\<in>S \<union> R. r \<noteq> r' \<longrightarrow> extent r \<inter> extent r' = {}"
    using S(3) t away unfolding tiling_def by (metis Int_commute Un_iff insert_iff)
  ultimately show "tiling k (S \<union> R)"
    using t S(2) unfolding tiling_def by auto
qed

text \<open>The converse: blocks that tile one block can be replaced by it.\<close>

lemma tiling_collapse:
  assumes t: "tiling k (S \<union> R)" and SR: "S \<inter> R = {}"
    and S: "\<Union> (extent ` S) = extent r" "placed k r"
  shows "tiling k (insert r R)" and "r \<notin> R"
proof -
  have away: "extent r \<inter> extent r' = {}" if "r' \<in> R" for r'
  proof -
    have "extent s \<inter> extent r' = {}" if "s \<in> S" for s
      using t SR that \<open>r' \<in> R\<close> unfolding tiling_def by (metis IntI Un_iff empty_iff)
    then show ?thesis using S(1) by blast
  qed
  then show "r \<notin> R" using extent_nonempty by blast
  have "\<Union> (extent ` (S \<union> R)) = \<Union> (extent ` insert r R)" using S(1) by auto
  moreover have "\<forall>q\<in>insert r R. \<forall>r'\<in>insert r R. q \<noteq> r' \<longrightarrow> extent q \<inter> extent r' = {}"
    using t away unfolding tiling_def by (metis Int_commute UnI2 insert_iff)
  ultimately show "tiling k (insert r R)"
    using t S(2) unfolding tiling_def by auto
qed

lemma extent_halves: "extent (p, Suc n) = extent (p, n) \<union> extent (p + 2 ^ n, n)"
  by (auto simp: extent_def)

lemma halves_disjoint: "extent (p, n) \<inter> extent (p + 2 ^ n, n) = {}"
  by (auto simp: extent_def)

lemma placed_halves:
  assumes "placed k (p, Suc n)" and "min_order \<le> n"
  shows "placed k (p, n)" and "placed k (p + 2 ^ n, n)"
proof -
  have d: "2 ^ Suc n dvd p" using assms by (simp add: placed_def)
  have "(2::int) ^ n dvd 2 ^ Suc n" by (rule le_imp_power_dvd) simp
  then have "2 ^ n dvd p" using d by (rule dvd_trans)
  moreover have "(0::int) < 2 ^ n" by simp
  ultimately show "placed k (p, n)" "placed k (p + 2 ^ n, n)"
    using assms by (auto simp: placed_def dvd_add simp del: zero_less_power)
qed

lemma tiling_split:
  assumes "tiling k (insert (p, Suc n) R)" and "(p, Suc n) \<notin> R" and "min_order \<le> n"
  shows "tiling k (insert (p, n) (insert (p + 2 ^ n, n) R))"
    and "(p, n) \<notin> insert (p + 2 ^ n, n) R" and "(p + 2 ^ n, n) \<notin> R"
proof -
  let ?S = "{(p, n), (p + 2 ^ n, n)}"
  have pl: "placed k (p, Suc n)" using assms(1) by (simp add: tiling_placed)
  have h: "\<Union> (extent ` ?S) = extent (p, Suc n)" "\<forall>s\<in>?S. placed k s"
    "\<forall>s\<in>?S. \<forall>s'\<in>?S. s \<noteq> s' \<longrightarrow> extent s \<inter> extent s' = {}"
    using extent_halves placed_halves [OF pl assms(3)] halves_disjoint
    by (auto simp: Int_commute)
  have "tiling k (?S \<union> R)" "?S \<inter> R = {}"
    using tiling_replace [OF assms(1,2) h] by auto
  then show "tiling k (insert (p, n) (insert (p + 2 ^ n, n) R))"
    and "(p, n) \<notin> insert (p + 2 ^ n, n) R" and "(p + 2 ^ n, n) \<notin> R"
    by auto
qed

lemma tiling_join:
  assumes "tiling k (insert (p, n) (insert (p + 2 ^ n, n) R))" and "2 ^ Suc n dvd p"
    and "(p, n) \<notin> R" and "(p + 2 ^ n, n) \<notin> R"
  shows "tiling k (insert (p, Suc n) R)" and "(p, Suc n) \<notin> R"
proof -
  let ?S = "{(p, n), (p + 2 ^ n, n)}"
  have pl: "placed k (p, n)" "placed k (p + 2 ^ n, n)"
    using assms(1) by (simp_all add: tiling_placed)
  then have "p + 2 ^ Suc n \<le> 2 ^ k" by (simp add: placed_def)
  moreover have "0 \<le> p" using pl by (simp add: placed_def)
  ultimately have "(2::int) ^ Suc n \<le> 2 ^ k" by linarith
  then have "Suc n \<le> k" by (rule power_le_imp_le_exp [rotated]) simp
  then have d: "placed k (p, Suc n)" using pl assms(2) by (auto simp: placed_def)
  have c: "\<Union> (extent ` ?S) = extent (p, Suc n)" using extent_halves by auto
  have a: "tiling k (?S \<union> R)" using assms(1) by simp
  have b: "?S \<inter> R = {}" using assms(3,4) by auto
  show "tiling k (insert (p, Suc n) R)" and "(p, Suc n) \<notin> R"
    by (rule tiling_collapse [OF a b c d])+
qed

text \<open>Merging a block with its buddy, whichever side it is on.\<close>

lemma tiling_merge:
  assumes t: "tiling k (insert (p, n) (insert (p XOR 2 ^ n, n) R))"
    and nin: "(p, n) \<notin> R" "(p XOR 2 ^ n, n) \<notin> R"
  shows "tiling k (insert (min p (p XOR 2 ^ n), Suc n) R)"
    and "(min p (p XOR 2 ^ n), Suc n) \<notin> R"
proof -
  have "2 ^ n dvd p" using t tiling_placed [of k _ "(p, n)"] by (simp add: placed_def)
  then have "tiling k (insert (min p (p XOR 2 ^ n), Suc n) R) \<and>
      (min p (p XOR 2 ^ n), Suc n) \<notin> R"
  proof (cases rule: buddy_cases)
    case left
    then show ?thesis using t nin tiling_join [of k p n R] by (simp add: min_def)
  next
    case right
    then show ?thesis
      using t nin tiling_join [of k "p - 2 ^ n" n R] by (simp add: min_def insert_commute)
  qed
  then show "tiling k (insert (min p (p XOR 2 ^ n), Suc n) R)"
    and "(min p (p XOR 2 ^ n), Suc n) \<notin> R" by auto
qed

section \<open>The arena: free lists, taken blocks and at most one block in hand\<close>

definition frees :: "free_lists \<Rightarrow> (int \<times> nat) set" where
  "frees fl = {(p, n). p \<in> fst ` set (fl n)}"

definition taken :: "(int \<rightharpoonup> int \<times> nat) \<Rightarrow> (int \<times> nat) set" where
  "taken m = {(p, n). \<exists>sz. m p = Some (sz, n)}"

definition lists_ok :: "free_lists \<Rightarrow> bool" where
  "lists_ok fl \<longleftrightarrow> (\<forall>n. distinct (map fst (fl n)) \<and> (\<forall>e\<in>set (fl n). snd e = 2 ^ n))"

definition no_buddies :: "(int \<times> nat) set \<Rightarrow> bool" where
  "no_buddies F \<longleftrightarrow> (\<forall>p n. (p, n) \<in> F \<longrightarrow> (p XOR 2 ^ n, n) \<notin> F)"

definition arena :: "nat \<Rightarrow> free_lists \<Rightarrow> (int \<times> nat) set \<Rightarrow> (int \<times> nat) set \<Rightarrow> bool" where
  "arena k fl H A \<longleftrightarrow> lists_ok fl \<and> tiling k (H \<union> (frees fl \<union> A)) \<and> H \<inter> (frees fl \<union> A) = {} \<and>
     frees fl \<inter> A = {} \<and> no_buddies (frees fl)"

lemma frees_append:
  "frees (fl(n := fl n @ [(p, sz)])) = insert (p, n) (frees fl)"
  by (auto simp: frees_def split: if_splits)

lemma lists_ok_append:
  "lists_ok fl \<Longrightarrow> (p, n) \<notin> frees fl \<Longrightarrow> lists_ok (fl(n := fl n @ [(p, 2 ^ n)]))"
  by (auto simp: lists_ok_def frees_def)

lemma frees_butlast:
  assumes "lists_ok fl" and "fl n \<noteq> []"
  shows "frees (fl(n := butlast (fl n))) = frees fl - {(fst (last (fl n)), n)}"
    and "(fst (last (fl n)), n) \<in> frees fl"
proof -
  obtain xs x where x: "fl n = xs @ [x]" using assms(2) by (cases "fl n" rule: rev_cases) auto
  moreover have "distinct (map fst (fl n))" using assms(1) by (simp add: lists_ok_def)
  ultimately show "frees (fl(n := butlast (fl n))) = frees fl - {(fst (last (fl n)), n)}"
    and "(fst (last (fl n)), n) \<in> frees fl"
    by (force simp: frees_def split: if_splits)+
qed

lemma lists_ok_butlast: "lists_ok fl \<Longrightarrow> lists_ok (fl(n := butlast (fl n)))"
  by (auto simp: lists_ok_def map_butlast distinct_butlast dest: in_set_butlastD)

lemma frees_remove:
  assumes "lists_ok fl"
  shows "frees (fl(n := remove_first (\<lambda>e. fst e = p) (fl n))) = frees fl - {(p, n)}"
proof -
  have d: "distinct (map fst (fl n))" using assms by (simp add: lists_ok_def)
  have "fst ` set (remove_first (\<lambda>e. fst e = p) (fl n)) = fst ` set (fl n) - {p}"
    using d map_remove_first_key [of fst p "fl n"]
    by (metis list.set_map set_remove1_eq)
  then show ?thesis by (auto simp: frees_def split: if_splits)
qed

lemma lists_ok_remove:
  "lists_ok fl \<Longrightarrow> lists_ok (fl(n := remove_first (\<lambda>e. fst e = p) (fl n)))"
  using set_remove_first_subset [of "\<lambda>e. fst e = p" "fl n"]
  by (auto simp: lists_ok_def map_remove_first_key distinct_remove1)

lemma no_buddies_subset: "no_buddies F \<Longrightarrow> G \<subseteq> F \<Longrightarrow> no_buddies G"
  by (auto simp: no_buddies_def)

lemma no_buddies_insert:
  assumes "no_buddies F" and "(p XOR 2 ^ n, n) \<notin> F"
  shows "no_buddies (insert (p, n) F)"
proof -
  have "q XOR 2 ^ n = p \<longleftrightarrow> q = p XOR 2 ^ n" for q :: int
    by (auto simp: xor.assoc)
  moreover have "(p XOR 2 ^ n) \<noteq> p" by (simp add: xor_power_eq)
  ultimately show ?thesis using assms by (auto simp: no_buddies_def xor.assoc)
qed

text \<open>Popping a free block takes it in hand.\<close>

lemma arena_pop:
  assumes "arena k fl {} A" and "fl n \<noteq> []"
  shows "arena k (fl(n := butlast (fl n))) {(fst (last (fl n)), n)} A"
proof -
  have ok: "lists_ok fl" using assms(1) by (simp add: arena_def)
  note f = frees_butlast [OF ok assms(2)]
  have "{(fst (last (fl n)), n)} \<union> (frees (fl(n := butlast (fl n))) \<union> A) = frees fl \<union> A"
    using f by auto
  then show ?thesis
    using assms(1) f lists_ok_butlast [OF ok, of n] no_buddies_subset [of "frees fl"]
    unfolding arena_def by (auto simp del: fun_upd_apply)
qed

text \<open>Halving the block in hand puts its right half on the free list.\<close>

lemma arena_halve:
  assumes a: "arena k fl {(p, Suc n)} A" and "min_order \<le> n"
  shows "arena k (fl(n := fl n @ [(p + 2 ^ n, 2 ^ n)])) {(p, n)} A"
proof -
  let ?R = "frees fl \<union> A" and ?q = "p + 2 ^ n"
  have t: "tiling k (insert (p, Suc n) ?R)" "(p, Suc n) \<notin> ?R"
    using a by (auto simp: arena_def)
  note s = tiling_split [OF t assms(2)]
  have "2 ^ Suc n dvd p" using t(1) tiling_placed [of k _ "(p, Suc n)"] by (simp add: placed_def)
  then have "\<not> bit p n" using aligned_bit_iff [of n p] dvd_trans [of "2 ^ n" "2 ^ Suc n" p]
    by (auto simp: le_imp_power_dvd)
  then have "p XOR 2 ^ n = ?q" by (simp add: xor_power_eq)
  then have "?q XOR 2 ^ n = p" by (metis xor.assoc xor.right_neutral xor_self_eq)
  then have "no_buddies (insert (?q, n) (frees fl))"
    using a s by (intro no_buddies_insert) (auto simp: arena_def)
  moreover have "lists_ok (fl(n := fl n @ [(?q, 2 ^ n)]))"
    using a s by (intro lists_ok_append) (auto simp: arena_def)
  moreover have "{(p, n)} \<union> (insert (?q, n) (frees fl) \<union> A) = insert (p, n) (insert (?q, n) ?R)"
    by auto
  ultimately show ?thesis
    using a s unfolding arena_def by (auto simp: frees_append simp del: fun_upd_apply)
qed

lemma arena_split_loop:
  assumes "arena k fl {(p, n)} A" and "min_order \<le> m" and "m \<le> n"
  shows "arena k (split_loop n m p fl) {(p, m)} A"
  using assms
proof (induction n arbitrary: fl)
  case 0
  then show ?case by simp
next
  case (Suc n)
  show ?case
  proof (cases "m = Suc n")
    case True
    with Suc.prems show ?thesis by simp
  next
    case False
    then have "arena k (fl(n := fl n @ [(p + 2 ^ n, 2 ^ n)])) {(p, n)} A"
      using Suc.prems by (intro arena_halve) auto
    with False Suc show ?thesis by simp
  qed
qed

text \<open>Merging the block in hand with its free buddy, and putting it back.\<close>

lemma arena_merge:
  assumes a: "arena k fl {(p, n)} A" and b: "(p XOR 2 ^ n, n) \<in> frees fl"
  shows "arena k (fl(n := remove_first (\<lambda>e. fst e = p XOR 2 ^ n) (fl n)))
           {(min p (p XOR 2 ^ n), Suc n)} A"
proof -
  let ?q = "p XOR 2 ^ n" and ?fl = "fl(n := remove_first (\<lambda>e. fst e = p XOR 2 ^ n) (fl n))"
  have ok: "lists_ok fl" using a by (simp add: arena_def)
  have f: "frees ?fl = frees fl - {(?q, n)}" by (rule frees_remove [OF ok])
  have t: "tiling k (insert (p, n) (insert (?q, n) (frees ?fl \<union> A)))"
  proof -
    have "insert (p, n) (insert (?q, n) (frees ?fl \<union> A)) = {(p, n)} \<union> (frees fl \<union> A)"
      using f b by auto
    then show ?thesis using a by (simp add: arena_def)
  qed
  have "(p, n) \<notin> frees ?fl \<union> A" "(?q, n) \<notin> frees ?fl \<union> A"
    using a b f by (auto simp: arena_def)
  note m = tiling_merge [OF t this]
  have "no_buddies (frees ?fl)" using a f by (auto simp: arena_def intro: no_buddies_subset)
  then show ?thesis
    using a f m lists_ok_remove [OF ok, of n ?q] unfolding arena_def
    by (auto simp del: fun_upd_apply)
qed

lemma arena_put:
  assumes a: "arena k fl {(p, n)} A" and b: "(p XOR 2 ^ n, n) \<notin> frees fl"
  shows "arena k (fl(n := fl n @ [(p, 2 ^ n)])) {} A"
proof -
  have "(p, n) \<notin> frees fl" using a by (auto simp: arena_def)
  then have "lists_ok (fl(n := fl n @ [(p, 2 ^ n)]))"
    using a by (intro lists_ok_append) (auto simp: arena_def)
  moreover have "no_buddies (insert (p, n) (frees fl))"
    using a b by (intro no_buddies_insert) (auto simp: arena_def)
  ultimately show ?thesis
    using a unfolding arena_def by (auto simp: frees_append simp del: fun_upd_apply)
qed

lemma frees_iff: "p \<in> fst ` set (fl n) \<longleftrightarrow> (p, n) \<in> frees fl"
  by (simp add: frees_def)

lemma arena_coalesce:
  "arena k fl {(p, n)} A \<Longrightarrow> k \<le> max_order \<Longrightarrow> arena k (coalesce p n fl) {} A"
proof (induction p n fl rule: coalesce.induct)
  case (1 p n fl)
  let ?q = "p XOR 2 ^ n"
  show ?case
  proof (cases "n < max_order \<and> ?q \<in> fst ` set (fl n)")
    case True
    then have "arena k (fl(n := remove_first (\<lambda>e. fst e = ?q) (fl n))) {(min p ?q, n + 1)} A"
      using arena_merge [OF "1.prems"(1)] by (simp add: frees_iff)
    then have "arena k (coalesce (min p ?q) (n + 1)
        (fl(n := remove_first (\<lambda>e. fst e = ?q) (fl n)))) {} A"
      by (rule "1.IH" [OF refl True]) (rule "1.prems"(2))
    then show ?thesis using True by (simp add: coalesce.simps [of p n fl] Let_def)
  next
    case False
    have "(?q, n) \<notin> frees fl"
    proof
      assume q: "(?q, n) \<in> frees fl"
      then have "max_order \<le> n" using False by (auto simp: frees_iff)
      moreover have "placed k (p, n)" "placed k (?q, n)"
        using 1 q by (auto simp: arena_def tiling_placed)
      ultimately have "n = k" using "1.prems"(2) by (auto simp: placed_def)
      then have "p = 0" "?q = 0" using \<open>placed k (p, n)\<close> \<open>placed k (?q, n)\<close>
        by (auto simp: placed_def)
      then show False by simp
    qed
    then show ?thesis
      using False "1.prems" arena_put by (auto simp: coalesce.simps [of p n fl] Let_def)
  qed
qed

section \<open>The invariant of the allocator\<close>

definition buddy_inv :: "buddy \<Rightarrow> bool" where
  "buddy_inv s \<longleftrightarrow>
     (\<exists>k. min_order \<le> k \<and> k \<le> max_order \<and> bd_total_size s = 2 ^ k \<and>
        arena k (bd_free_lists s) {} (taken (bd_allocated s))) \<and>
     (\<forall>p sz n. bd_allocated s p = Some (sz, n) \<longrightarrow> sz = 2 ^ n) \<and>
     finite (dom (bd_allocated s)) \<and>
     st_allocated (bd_stats s) = map_total fst (bd_allocated s) \<and>
     st_active (bd_stats s) = st_allocated (bd_stats s) \<and>
     st_allocated (bd_stats s) \<le> peak_allocated (bd_stats s) \<and>
     st_reserved (bd_stats s) = bd_total_size s"

definition buddy_live :: "buddy \<Rightarrow> (int \<times> int) set" where
  "buddy_live s = {(p, sz). \<exists>n. bd_allocated s p = Some (sz, n)}"

lemma buddy_invI:
  assumes "min_order \<le> k" "k \<le> max_order" "bd_total_size s = 2 ^ k"
    "arena k (bd_free_lists s) {} (taken (bd_allocated s))"
    "\<And>p sz n. bd_allocated s p = Some (sz, n) \<Longrightarrow> sz = 2 ^ n"
    "finite (dom (bd_allocated s))"
    "st_allocated (bd_stats s) = map_total fst (bd_allocated s)"
    "st_active (bd_stats s) = st_allocated (bd_stats s)"
    "st_allocated (bd_stats s) \<le> peak_allocated (bd_stats s)"
    "st_reserved (bd_stats s) = bd_total_size s"
  shows "buddy_inv s"
  using assms unfolding buddy_inv_def by blast

lemma buddy_invE:
  assumes "buddy_inv s"
  obtains k where "min_order \<le> k" "k \<le> max_order" "bd_total_size s = 2 ^ k"
    "arena k (bd_free_lists s) {} (taken (bd_allocated s))"
  using assms unfolding buddy_inv_def by blast

lemma buddy_invD:
  assumes "buddy_inv s"
  shows "bd_allocated s p = Some (sz, n) \<Longrightarrow> sz = 2 ^ n"
    and "finite (dom (bd_allocated s))"
    and "st_allocated (bd_stats s) = map_total fst (bd_allocated s)"
    and "st_active (bd_stats s) = map_total fst (bd_allocated s)"
    and "map_total fst (bd_allocated s) \<le> peak_allocated (bd_stats s)"
    and "st_reserved (bd_stats s) = bd_total_size s"
  using assms by (simp_all add: buddy_inv_def)

lemma taken_upd: "m p = None \<Longrightarrow> taken (m(p \<mapsto> (sz, n))) = insert (p, n) (taken m)"
  by (auto simp: taken_def split: if_splits)

lemma taken_del:
  assumes "m p = Some (sz, n)"
  shows "taken m = insert (p, n) (taken (m(p := None)))"
proof -
  have "m = (m(p := None))(p \<mapsto> (sz, n))" using assms by auto
  then show ?thesis using taken_upd [of "m(p := None)" p sz n] by simp
qed

lemma arena_hand_free:
  assumes "arena k fl {(p, n)} (taken m)"
  shows "m p = None"
proof (rule ccontr)
  assume "m p \<noteq> None"
  then obtain sz n' where "m p = Some (sz, n')" by auto
  then have "(p, n') \<in> taken m" by (auto simp: taken_def)
  moreover have "tiling k ({(p, n)} \<union> (frees fl \<union> taken m))" using assms by (simp add: arena_def)
  ultimately have "(p, n) = (p, n')"
    by (elim tiling_disjoint [where x = p]) (auto simp: extent_def)
  with \<open>(p, n') \<in> taken m\<close> assms show False by (auto simp: arena_def)
qed

lemma arena_commit:
  assumes "arena k fl {(p, n)} (taken m)"
  shows "arena k fl {} (taken (m(p \<mapsto> (sz, n))))"
proof -
  have "taken (m(p \<mapsto> (sz, n))) = insert (p, n) (taken m)"
    using arena_hand_free [OF assms] by (rule taken_upd)
  then show ?thesis using assms unfolding arena_def by auto
qed

lemma arena_release:
  assumes "arena k fl {} (taken m)" and "m p = Some (sz, n)"
  shows "arena k fl {(p, n)} (taken (m(p := None)))"
proof -
  have eq: "taken m = insert (p, n) (taken (m(p := None)))" using assms(2) by (rule taken_del)
  have "(p, n) \<notin> taken (m(p := None))" by (simp add: taken_def)
  then show ?thesis using assms(1) eq unfolding arena_def by auto
qed

text \<open>\<open>_find_block\<close> takes a block of the wanted order in hand, or there is none to split.\<close>

lemma find_block_Some:
  assumes "arena k fl {} A" and "min_order \<le> n" and "find_block fl n = Some (p, fl')"
  shows "arena k fl' {(p, n)} A"
proof (cases "fl n \<noteq> []")
  case True
  then show ?thesis using assms arena_pop by (auto simp: find_block_def)
next
  case False
  then obtain l where l: "find (\<lambda>l. fl l \<noteq> []) [n + 1..<max_order + 1] = Some l"
    and sp: "split_block fl l n = (p, fl')"
    using assms(3) by (auto simp: find_block_def split: option.splits)
  have "fl l \<noteq> []" "n < l" using find_SomeD [OF l] by auto
  then have "arena k (fl(l := butlast (fl l))) {(fst (last (fl l)), l)} A"
    using assms(1) by (intro arena_pop)
  then show ?thesis
    using sp \<open>n < l\<close> assms(2) by (auto simp: split_block_def Let_def intro: arena_split_loop)
qed

lemma find_block_None_iff:
  assumes "n \<le> max_order"
  shows "find_block fl n = None \<longleftrightarrow> (\<forall>l. n \<le> l \<and> l \<le> max_order \<longrightarrow> fl l = [])"
proof -
  have "find_block fl n = None \<longleftrightarrow> (\<forall>l\<in>insert n (set [n + 1..<max_order + 1]). fl l = [])"
    by (simp add: find_block_def find_None_iff_set del: upt_Suc)
  also have "insert n (set [n + 1..<max_order + 1]) = {l. n \<le> l \<and> l \<le> max_order}"
    using assms by (auto simp del: upt_Suc)
  finally show ?thesis by simp
qed

lemma buddy_inv_init:
  assumes "min_order \<le> k" and "k \<le> max_order"
  shows "buddy_inv (buddy_init cfg (2 ^ k))"
proof -
  let ?fl = "(\<lambda>_. [])(k := [(0, 2 ^ k)]) :: free_lists"
  have "frees ?fl = {(0, k)}" by (auto simp: frees_def split: if_splits)
  moreover have "tiling k {(0, k)}"
    using assms by (auto simp: tiling_def placed_def extent_def)
  moreover have "no_buddies {(0, k)}" by (auto simp: no_buddies_def)
  moreover have "lists_ok ?fl" by (auto simp: lists_ok_def)
  ultimately have "arena k ?fl {} (taken Map.empty)" by (simp add: arena_def taken_def)
  then show ?thesis
    using assms get_order_power [OF assms]
    by (auto simp: buddy_inv_def buddy_init_def zero_stats_def intro!: exI [of _ k])
qed

lemma buddy_inv_allocate:
  assumes "buddy_inv s"
  shows "buddy_inv (state_of (buddy_allocate s sz stream now))"
proof (cases "find_block (bd_free_lists s) (get_order sz)")
  case None
  then show ?thesis using assms by (simp add: buddy_allocate_def buddy_inv_def)
next
  case (Some r)
  then obtain p fl where r: "find_block (bd_free_lists s) (get_order sz) = Some (p, fl)"
    by (cases r) auto
  let ?n = "get_order sz" and ?m = "bd_allocated s"
  obtain k where k: "min_order \<le> k" "k \<le> max_order" "bd_total_size s = 2 ^ k"
    and a: "arena k (bd_free_lists s) {} (taken ?m)"
    using assms by (rule buddy_invE)
  have h: "arena k fl {(p, ?n)} (taken ?m)"
    by (rule find_block_Some [OF a get_order_bounds(1) r])
  have "?m p = None" by (rule arena_hand_free [OF h])
  then have "map_total fst (?m(p \<mapsto> (2 ^ ?n, ?n))) = map_total fst ?m + 2 ^ ?n"
    using buddy_invD(2) [OF assms] by (simp add: map_total_upd)
  moreover have "arena k fl {} (taken (?m(p \<mapsto> (2 ^ ?n, ?n))))" by (rule arena_commit [OF h])
  ultimately show ?thesis
    using r k buddy_invD [OF assms]
    by (intro buddy_invI [of k]) (auto simp: buddy_allocate_def Let_def split: if_splits)
qed

lemma buddy_inv_free:
  assumes "buddy_inv s"
  shows "buddy_inv (buddy_free s b)"
proof (cases "bd_allocated s (mb_ptr b)")
  case None
  then show ?thesis using assms by (simp add: buddy_free_def)
next
  case (Some e)
  then obtain sz n where e: "bd_allocated s (mb_ptr b) = Some (sz, n)" by (cases e) auto
  let ?m = "bd_allocated s"
  obtain k where k: "min_order \<le> k" "k \<le> max_order" "bd_total_size s = 2 ^ k"
    and a: "arena k (bd_free_lists s) {} (taken ?m)"
    using assms by (rule buddy_invE)
  have "arena k (coalesce (mb_ptr b) n (bd_free_lists s)) {} (taken (?m(mb_ptr b := None)))"
    by (rule arena_coalesce [OF arena_release [OF a e] k(2)])
  moreover have "map_total fst (?m(mb_ptr b := None)) = map_total fst ?m - sz"
    using buddy_invD(2) [OF assms] e by (simp add: map_total_del)
  moreover have "0 \<le> sz" using buddy_invD(1) [OF assms e] by simp
  ultimately show ?thesis
    using e k buddy_invD(2-) [OF assms] buddy_invD(1) [OF assms]
    by (intro buddy_invI [of k]) (simp_all add: buddy_free_def split: if_splits)
qed

lemma buddy_live_disjoint:
  assumes "buddy_inv s"
  shows "disjoint_regions (buddy_live s)"
proof -
  have sz: "n' = 2 ^ n" if "bd_allocated s p = Some (n', n)" for p n' n
    using assms that by (auto simp: buddy_inv_def)
  obtain k where t: "tiling k (frees (bd_free_lists s) \<union> taken (bd_allocated s))"
    using assms by (auto simp: buddy_inv_def arena_def)
  show ?thesis
    unfolding disjoint_regions_def
  proof (intro ballI impI)
    fix r r'
    assume "r \<in> buddy_live s" and "r' \<in> buddy_live s" and "r \<noteq> r'"
    from \<open>r \<in> buddy_live s\<close> \<open>r' \<in> buddy_live s\<close> obtain n n'
      where n: "bd_allocated s (fst r) = Some (snd r, n)"
        "bd_allocated s (fst r') = Some (snd r', n')"
      by (auto simp: buddy_live_def block_region_def)
    then have "(fst r, n) \<noteq> (fst r', n')" using \<open>r \<noteq> r'\<close> by (auto simp: prod_eq_iff)
    moreover have "(fst r, n) \<in> taken (bd_allocated s)" "(fst r', n') \<in> taken (bd_allocated s)"
      using n by (auto simp: taken_def)
    ultimately have "extent (fst r, n) \<inter> extent (fst r', n') = {}"
      using t unfolding tiling_def by blast
    moreover have "region r = extent (fst r, n)" "region r' = extent (fst r', n')"
      using n sz by (auto simp: region_def extent_def)
    ultimately show "region r \<inter> region r' = {}" by simp
  qed
qed

lemma buddy_init_live: "buddy_live (buddy_init cfg n) = {}"
  by (simp add: buddy_live_def buddy_init_def)

lemma buddy_allocate_live:
  assumes "buddy_inv s" and "result_of (buddy_allocate s sz stream now) = Inr (Some b)"
  shows "block_region b \<notin> buddy_live s"
    and "buddy_live (state_of (buddy_allocate s sz stream now)) =
      insert (block_region b) (buddy_live s)"
    and "mb_size b = 2 ^ get_order sz"
proof -
  obtain p fl where r: "find_block (bd_free_lists s) (get_order sz) = Some (p, fl)"
    and b: "b = new_block p (2 ^ get_order sz) (bd_config s) stream now"
    using assms(2) by (auto simp: buddy_allocate_def Let_def split: option.splits prod.splits)
  obtain k where "arena k (bd_free_lists s) {} (taken (bd_allocated s))"
    using assms by (auto simp: buddy_inv_def)
  then have "arena k fl {(p, get_order sz)} (taken (bd_allocated s))"
    using get_order_bounds(1) r by (rule find_block_Some)
  then have "bd_allocated s p = None" by (rule arena_hand_free)
  then show "block_region b \<notin> buddy_live s"
    and "buddy_live (state_of (buddy_allocate s sz stream now)) =
      insert (block_region b) (buddy_live s)"
    and "mb_size b = 2 ^ get_order sz"
    using r b by (auto simp: block_region_def buddy_live_def buddy_allocate_def Let_def split: if_splits)
qed

lemma buddy_allocate_fail_live:
  "\<nexists>b. result_of (buddy_allocate s sz stream now) = Inr (Some b) \<Longrightarrow>
   buddy_live (state_of (buddy_allocate s sz stream now)) = buddy_live s"
  by (auto simp: buddy_allocate_def Let_def buddy_live_def split: option.splits prod.splits)

lemma buddy_free_live:
  "block_region b \<in> buddy_live s \<Longrightarrow> buddy_live (buddy_free s b) = buddy_live s - {block_region b}"
  by (auto simp: block_region_def buddy_free_def buddy_live_def split: option.splits prod.splits if_splits)

lemma buddy_free_unknown: "mb_ptr b \<notin> fst ` buddy_live s \<Longrightarrow> buddy_free s b = s"
  by (force simp: buddy_free_def buddy_live_def split: option.splits)

interpretation buddy_alloc: sized_allocator buddy_allocate buddy_free buddy_inv buddy_live
  "\<lambda>s n. n \<le> 2 ^ max_order"
proof unfold_locales
  fix s n st now b
  assume "buddy_inv s" "n \<le> 2 ^ max_order"
    and "result_of (buddy_allocate s n st now) = Inr (Some b)"
  then show "n \<le> mb_size b"
    using buddy_allocate_live(3) [of s n st now b] get_order_size [of n] by simp
qed (rule buddy_inv_allocate buddy_inv_free buddy_live_disjoint
      conjI [OF buddy_allocate_live(1,2)] buddy_allocate_fail_live buddy_free_live
      buddy_free_unknown; assumption)+

section \<open>A fully released arena is one block\<close>

lemma multiple_gap: "D dvd a \<Longrightarrow> D dvd b \<Longrightarrow> a < b \<Longrightarrow> 0 < D \<Longrightarrow> a + D \<le> (b::int)"
proof -
  assume "D dvd a" "D dvd b" "a < b"
  then have "D \<le> b - a" by (intro zdvd_imp_le dvd_diff) auto
  then show "a + D \<le> b" by simp
qed

text \<open>The pair of a block and its buddy is an aligned block of the next order inside the arena.\<close>

lemma buddy_pair:
  assumes "placed k (p, n)" and "n < k"
  obtains b where "2 ^ Suc n dvd b" "0 \<le> b" "b + 2 ^ Suc n \<le> 2 ^ k"
    "p = b \<or> p = b + 2 ^ n" "p XOR 2 ^ n = b \<or> p XOR 2 ^ n = b + 2 ^ n"
proof -
  have D: "(2::int) ^ Suc n dvd 2 ^ k" by (rule le_imp_power_dvd) (use assms(2) in simp)
  have p: "0 \<le> p" "p + 2 ^ n \<le> 2 ^ k" "2 ^ n dvd p" using assms(1) by (simp_all add: placed_def)
  from p(3) show thesis
  proof (cases rule: buddy_cases)
    case left
    have "(0::int) < 2 ^ n" by simp
    then have "p < 2 ^ k" using p(2) by linarith
    then have "p + 2 ^ Suc n \<le> 2 ^ k" using left(1) D by (intro multiple_gap) auto
    then show ?thesis using left p by (intro that [of p]) auto
  next
    case right
    have "- (2 ^ Suc n) < p - 2 ^ n"
      using p(1) zero_less_power [of "2::int" n] by (simp del: zero_less_power)
    then have "- (2 ^ Suc n) + 2 ^ Suc n \<le> p - 2 ^ n"
      using right(1) by (intro multiple_gap) auto
    moreover have "p - 2 ^ n < 2 ^ k" using p(2) zero_less_power [of "2::int" n]
      by (simp del: zero_less_power)
    then have "p - 2 ^ n + 2 ^ Suc n \<le> 2 ^ k" using right(1) D by (intro multiple_gap) auto
    ultimately show ?thesis using right by (intro that [of "p - 2 ^ n"]) auto
  qed
qed

text \<open>A block of a larger order that reaches into the pair contains all of it.\<close>

lemma placed_contains:
  assumes "placed k (r, m)" and "n < m" and "2 ^ Suc n dvd b"
    and "x \<in> extent (r, m)" "x \<in> extent (b, Suc n)"
  shows "extent (b, Suc n) \<subseteq> extent (r, m)"
proof -
  have D: "(2::int) ^ Suc n dvd 2 ^ m" by (rule le_imp_power_dvd) (use assms(2) in simp)
  have r: "2 ^ Suc n dvd r" using D assms(1) by (auto simp: placed_def intro: dvd_trans)
  have "r < b + 2 ^ Suc n" using assms(4,5) by (simp add: extent_def)
  then have "r + 2 ^ Suc n \<le> b + 2 ^ Suc n" using r assms(3) by (intro multiple_gap) auto
  moreover have "b < r + 2 ^ m" using assms(4,5) by (simp add: extent_def)
  then have "b + 2 ^ Suc n \<le> r + 2 ^ m" using r D assms(3) by (intro multiple_gap) auto
  ultimately show ?thesis by (auto simp: extent_def)
qed

lemma tiling_no_buddies_whole:
  assumes t: "tiling k F" and nb: "no_buddies F"
  shows "F = {(0, k)}"
proof -
  obtain r0 where r0: "r0 \<in> F" using tiling_cover [OF t, of 0] by auto
  define n where "n = (LEAST n. \<exists>p. (p, n) \<in> F)"
  have "\<exists>p. (p, snd r0) \<in> F" using r0 by (metis prod.collapse)
  then have "\<exists>p. (p, n) \<in> F" unfolding n_def by (rule LeastI)
  then obtain p where p: "(p, n) \<in> F" by blast
  have least: "n \<le> m" if "(q, m) \<in> F" for q m unfolding n_def using that by (auto intro: Least_le)
  have "n = k"
  proof (rule ccontr)
    assume "n \<noteq> k"
    then have "n < k" using tiling_placed [OF t p] by (simp add: placed_def)
    with tiling_placed [OF t p] obtain b where b: "2 ^ Suc n dvd b" "0 \<le> b" "b + 2 ^ Suc n \<le> 2 ^ k"
      "p = b \<or> p = b + 2 ^ n" "p XOR 2 ^ n = b \<or> p XOR 2 ^ n = b + 2 ^ n"
      by (rule buddy_pair)
    let ?q = "p XOR 2 ^ n"
    have pq: "p \<in> extent (b, Suc n)" "?q \<in> extent (b, Suc n)" using b(4,5) by (auto simp: extent_def)
    then have "0 \<le> ?q" "?q < 2 ^ k" using b(2,3) by (auto simp: extent_def)
    then obtain r where r: "r \<in> F" "?q \<in> extent r" using tiling_cover [OF t] by blast
    obtain a m where am: "r = (a, m)" by (cases r)
    have "n \<le> m" using least r(1) am by simp
    have neq: "r \<noteq> (p, n)"
      using r(2) pq b(4,5) by (auto simp: extent_def am xor_power_eq split: if_splits)
    show False
    proof (cases "m = n")
      case True
      have "2 ^ n dvd ?q" using b(1,5) by (auto intro: dvd_add dvd_trans [OF le_imp_power_dvd])
      moreover have "2 ^ n dvd a" using tiling_placed [OF t r(1)] am True by (simp add: placed_def)
      ultimately have "\<not> a < ?q" using multiple_gap [of "2 ^ n" a ?q] r(2) am True
        by (auto simp: extent_def)
      then have "r = (?q, n)" using r(2) am True by (auto simp: extent_def)
      then show False using nb p r(1) by (auto simp: no_buddies_def)
    next
      case False
      then have "extent (b, Suc n) \<subseteq> extent r"
        using \<open>n \<le> m\<close> placed_contains [of k a m n b ?q] tiling_placed [OF t r(1)] b(1) r(2) pq(2) am
        by simp
      then have "p \<in> extent r" using pq(1) by blast
      then show False using tiling_disjoint [OF t r(1) p, of p] neq by (simp add: extent_def)
    qed
  qed
  have all: "r = (0, k)" if "r \<in> F" for r
  proof -
    have "snd r = k" using that least [of "fst r" "snd r"] tiling_placed [OF t that] \<open>n = k\<close>
      by (simp add: placed_def)
    then show ?thesis using tiling_placed [OF t that] by (cases r) (auto simp: placed_def)
  qed
  then show ?thesis using r0 by blast
qed

section \<open>Accounting\<close>

definition free_bytes :: "free_lists \<Rightarrow> int" where
  "free_bytes fl = (\<Sum>n = min_order..max_order. sum_list (map snd (fl n)))"

lemma tiling_finite: "tiling k R \<Longrightarrow> finite R"
proof (rule finite_subset)
  assume t: "tiling k R"
  show "R \<subseteq> {0..2 ^ k} \<times> {..k}"
  proof
    fix r assume "r \<in> R"
    then have "placed k r" by (rule tiling_placed [OF t])
    moreover have "(0::int) < 2 ^ snd r" by simp
    ultimately show "r \<in> {0..2 ^ k} \<times> {..k}"
      by (cases r) (auto simp: placed_def simp del: zero_less_power)
  qed
qed simp

lemma tiling_sum:
  assumes "tiling k R"
  shows "(\<Sum>r\<in>R. 2 ^ snd r) = (2 ^ k :: int)"
proof -
  have "card (\<Union>r\<in>R. extent r) = (\<Sum>r\<in>R. card (extent r))"
    using assms tiling_finite [OF assms]
    by (intro card_UN_disjoint) (auto simp: tiling_def extent_def)
  moreover have "card (extent r) = 2 ^ snd r" for r
    by (simp add: extent_def nat_power_eq)
  moreover have "card (\<Union>r\<in>R. extent r) = 2 ^ k"
    using assms by (simp add: tiling_def nat_power_eq)
  ultimately have "(\<Sum>r\<in>R. 2 ^ snd r) = (2 ^ k :: nat)" by simp
  then show ?thesis by (metis (mono_tags, lifting) of_nat_numeral of_nat_power of_nat_sum sum.cong)
qed

lemma frees_sum:
  assumes "lists_ok fl" and "\<And>r. r \<in> frees fl \<Longrightarrow> min_order \<le> snd r \<and> snd r \<le> max_order"
  shows "(\<Sum>r\<in>frees fl. 2 ^ snd r) = free_bytes fl"
proof -
  let ?I = "{min_order..max_order}" and ?G = "\<lambda>n. (\<lambda>p. (p, n)) ` fst ` set (fl n)"
  have "frees fl = (\<Union>n\<in>?I. ?G n)" using assms(2) by (force simp: frees_def)
  moreover have "(\<Sum>r\<in>(\<Union>n\<in>?I. ?G n). 2 ^ snd r) = (\<Sum>n\<in>?I. \<Sum>r\<in>?G n. (2::int) ^ snd r)"
    by (rule sum.UNION_disjoint) auto
  moreover have "(\<Sum>r\<in>?G n. 2 ^ snd r) = sum_list (map snd (fl n))" for n
  proof -
    have d: "distinct (map fst (fl n))" and e: "\<forall>e\<in>set (fl n). snd e = 2 ^ n"
      using assms(1) by (auto simp: lists_ok_def)
    have "(\<Sum>r\<in>?G n. (2::int) ^ snd r) = of_nat (card (fst ` set (fl n))) * 2 ^ n"
      by (subst sum.reindex) (auto simp: inj_on_def)
    also have "card (fst ` set (fl n)) = length (fl n)" using distinct_card [OF d] by simp
    also have "of_nat (length (fl n)) * 2 ^ n = sum_list (map (\<lambda>_. 2 ^ n) (fl n))"
      by (simp add: sum_list_triv)
    also have "map (\<lambda>_. 2 ^ n) (fl n) = map snd (fl n)" using e by simp
    finally show ?thesis .
  qed
  ultimately show ?thesis by (simp add: free_bytes_def)
qed

lemma taken_sum:
  assumes "\<And>p sz n. m p = Some (sz, n) \<Longrightarrow> sz = 2 ^ n"
  shows "(\<Sum>r\<in>taken m. 2 ^ snd r) = map_total fst m"
proof -
  let ?g = "\<lambda>p. (p, snd (the (m p)))"
  have "taken m = ?g ` dom m" by (force simp: taken_def)
  moreover have "(\<Sum>r\<in>?g ` dom m. 2 ^ snd r) = (\<Sum>p\<in>dom m. (2::int) ^ snd (the (m p)))"
    by (subst sum.reindex) (auto simp: inj_on_def)
  moreover have "(\<Sum>p\<in>dom m. 2 ^ snd (the (m p))) = (\<Sum>p\<in>dom m. fst (the (m p)))"
    using assms by (intro sum.cong) auto
  ultimately show ?thesis by (simp add: map_total_def)
qed

text \<open>Where an allocated block lies.\<close>

lemma buddy_allocate_place:
  assumes "buddy_inv s" and "sz \<le> 2 ^ max_order"
    and "result_of (buddy_allocate s sz stream now) = Inr (Some b)"
  shows "sz \<le> mb_size b \<and> mb_size b dvd mb_ptr b \<and> 0 \<le> mb_ptr b \<and>
    mb_ptr b + mb_size b \<le> bd_total_size s \<and>
    (\<forall>r\<in>buddy_live s. region (block_region b) \<inter> region r = {})"
proof -
  let ?t = "state_of (buddy_allocate s sz stream now)"
  have "buddy_inv ?t" by (rule buddy_inv_allocate [OF assms(1)])
  then obtain k where k: "bd_total_size ?t = 2 ^ k"
    "arena k (bd_free_lists ?t) {} (taken (bd_allocated ?t))"
    by (rule buddy_invE)
  have "block_region b \<in> buddy_live ?t"
    using buddy_allocate_live(2) [OF assms(1,3)] by simp
  then obtain n where n: "bd_allocated ?t (mb_ptr b) = Some (mb_size b, n)"
    by (auto simp: buddy_live_def block_region_def)
  then have "mb_size b = 2 ^ n" using buddy_invD(1) [OF \<open>buddy_inv ?t\<close>] by simp
  moreover have "placed k (mb_ptr b, n)"
    using k(2) n by (auto simp: arena_def taken_def intro: tiling_placed)
  moreover have "bd_total_size ?t = bd_total_size s"
    by (simp add: buddy_allocate_def Let_def split: option.splits prod.splits)
  ultimately have "mb_size b dvd mb_ptr b" "0 \<le> mb_ptr b" "mb_ptr b + mb_size b \<le> bd_total_size s"
    using k(1) by (auto simp: placed_def)
  moreover have "sz \<le> mb_size b" by (rule buddy_alloc.alloc_size [OF assms])
  moreover have "\<forall>r\<in>buddy_live s. region (block_region b) \<inter> region r = {}"
    using buddy_alloc.alloc_fresh [OF assms(1,3)] by blast
  ultimately show ?thesis by blast
qed

text \<open>With nothing handed out, the free lists are those of a fresh arena.\<close>

lemma buddy_free_lists_empty:
  assumes "buddy_inv s" and "bd_allocated s = Map.empty"
  shows "bd_free_lists s = bd_free_lists (buddy_init (bd_config s) (bd_total_size s))"
proof -
  obtain k where k: "min_order \<le> k" "k \<le> max_order" "bd_total_size s = 2 ^ k"
    and a: "arena k (bd_free_lists s) {} (taken (bd_allocated s))"
    using assms(1) by (rule buddy_invE)
  have "frees (bd_free_lists s) = {(0, k)}"
    using a assms(2) by (intro tiling_no_buddies_whole) (auto simp: arena_def taken_def)
  then have f: "fst ` set (bd_free_lists s n) = (if n = k then {0} else {})" for n
    by (auto simp: frees_def set_eq_iff)
  have ok: "distinct (map fst (bd_free_lists s n))" "\<forall>e\<in>set (bd_free_lists s n). snd e = 2 ^ n" for n
    using a by (auto simp: arena_def lists_ok_def)
  have "bd_free_lists s n = (if n = k then [(0, 2 ^ k)] else [])" for n
  proof (cases "n = k")
    case True
    have "length (bd_free_lists s n) = 1" using distinct_card [OF ok(1), of n] f [of n] True by simp
    then obtain e where "bd_free_lists s n = [e]" by (auto simp: length_Suc_conv)
    then show ?thesis using f [of n] ok(2) [of n] True by (cases e) auto
  next
    case False
    then show ?thesis using f [of n] by simp
  qed
  then show ?thesis using k get_order_power [OF k(1,2)] by (auto simp: buddy_init_def fun_eq_iff)
qed

lemma buddy_bytes:
  assumes "buddy_inv s"
  shows "st_allocated (bd_stats s) + free_bytes (bd_free_lists s) = bd_total_size s \<and>
    st_allocated (bd_stats s) = map_total fst (bd_allocated s)"
proof -
  obtain k where k: "min_order \<le> k" "k \<le> max_order" "bd_total_size s = 2 ^ k"
    and a: "arena k (bd_free_lists s) {} (taken (bd_allocated s))"
    using assms(1) by (rule buddy_invE)
  let ?F = "frees (bd_free_lists s)" and ?A = "taken (bd_allocated s)"
  have t: "tiling k (?F \<union> ?A)" and d: "?F \<inter> ?A = {}" using a by (auto simp: arena_def)
  have "(\<Sum>r\<in>?F \<union> ?A. (2::int) ^ snd r) = (\<Sum>r\<in>?F. 2 ^ snd r) + (\<Sum>r\<in>?A. 2 ^ snd r)"
    using tiling_finite [OF t] d by (intro sum.union_disjoint) auto
  moreover have "(\<Sum>r\<in>?F. 2 ^ snd r) = free_bytes (bd_free_lists s)"
    using a t k(2) by (intro frees_sum) (auto simp: arena_def placed_def dest!: tiling_placed)
  moreover have "(\<Sum>r\<in>?A. 2 ^ snd r) = map_total fst (bd_allocated s)"
    by (rule taken_sum) (rule buddy_invD(1) [OF assms])
  ultimately show ?thesis
    using tiling_sum [OF t] k(3) buddy_invD(3) [OF assms] by simp
qed

lemma buddy_live_bytes: "map_total fst (bd_allocated s) = (\<Sum>r\<in>buddy_live s. snd r)"
proof -
  let ?g = "\<lambda>p. (p, fst (the (bd_allocated s p)))"
  have "buddy_live s = ?g ` dom (bd_allocated s)" by (force simp: buddy_live_def)
  moreover have "inj_on ?g (dom (bd_allocated s))" by (simp add: inj_on_def)
  ultimately show ?thesis by (simp add: map_total_def sum.reindex)
qed

lemma buddy_run_facts:
  assumes "min_order \<le> k" "k \<le> max_order"
    and "client_run buddy_allocate buddy_free (buddy_init cfg (2 ^ k)) ops = (s, held)"
  shows "buddy_inv s" "bd_total_size s = 2 ^ k" "block_region ` set held = buddy_live s"
    "(\<Sum>r\<in>buddy_live s. snd r) = sum_list (map mb_size held)"
proof -
  note i = buddy_inv_init [OF assms(1,2), of cfg] buddy_init_live [of cfg "2 ^ k"]
  show "buddy_inv s" using buddy_alloc.run_inv [OF i, of ops] assms(3) by simp
  show "block_region ` set held = buddy_live s"
    "(\<Sum>r\<in>buddy_live s. snd r) = sum_list (map mb_size held)"
    using buddy_alloc.run_live(2,3) [OF i assms(3)] by simp_all
  have "bd_total_size (fst (client_run buddy_allocate buddy_free (buddy_init cfg (2 ^ k)) ops)) =
      bd_total_size (buddy_init cfg (2 ^ k))"
    by (rule client_run_const)
      (auto simp: buddy_allocate_def buddy_free_def Let_def split: option.splits prod.splits)
  then show "bd_total_size s = 2 ^ k" using assms(3) by (simp add: buddy_init_def)
qed

section \<open>Properties\<close>

text \<open>
  C8: however a client interleaves allocations and releases, starting from a fresh arena of a
  power of two bytes, no two blocks that it holds at the same time overlap.
\<close>

theorem buddy_run_disjoint:
  assumes "min_order \<le> k" and "k \<le> max_order"
  shows "non_overlapping (snd (client_run buddy_allocate buddy_free (buddy_init cfg (2 ^ k)) ops))"
  using assms by (intro buddy_alloc.run_non_overlapping buddy_inv_init buddy_init_live)

theorem buddy_run_disjoint_witness:
  "map block_region (snd (client_run buddy_allocate buddy_free (buddy_init default_config (2 ^ 10))
     [Allocate 512 0 0, Allocate 100 0 1])) = [(0, 512), (512, 512)] \<and>
   non_overlapping (snd (client_run buddy_allocate buddy_free (buddy_init default_config (2 ^ 10))
     [Allocate 512 0 0, Allocate 100 0 1]))"
proof
  show "map block_region (snd (client_run buddy_allocate buddy_free (buddy_init default_config (2 ^ 10))
      [Allocate 512 0 0, Allocate 100 0 1])) = [(0, 512), (512, 512)]"
    by code_simp
qed (rule buddy_run_disjoint; simp add: min_order_def max_order_def)

text \<open>
  C19: from an arena of \<open>2^k\<close> bytes, \<open>k\<close> between 9 and 30, and after whatever a client has done, a
  successful allocation of at most \<open>2^30\<close> bytes returns a block of the requested order (its length
  is the least power of two from 512 bytes on that holds the request), aligned to its own length,
  inside the arena, and disjoint from every block the client holds.
\<close>

theorem buddy_allocate_sound:
  assumes "min_order \<le> k" "k \<le> max_order" "sz \<le> 2 ^ max_order"
    and "client_run buddy_allocate buddy_free (buddy_init cfg (2 ^ k)) ops = (s, held)"
    and "result_of (buddy_allocate s sz stream now) = Inr (Some b)"
  shows "(\<exists>n. mb_size b = 2 ^ n \<and> min_order \<le> n \<and> sz \<le> 2 ^ n \<and>
      (\<forall>m. min_order \<le> m \<and> sz \<le> 2 ^ m \<longrightarrow> n \<le> m)) \<and>
    mb_size b dvd mb_ptr b \<and> 0 \<le> mb_ptr b \<and> mb_ptr b + mb_size b \<le> 2 ^ k \<and>
    (\<forall>h\<in>set held. region (block_region b) \<inter> region (block_region h) = {})"
proof -
  note run = buddy_run_facts [OF assms(1,2,4)]
  note b = buddy_allocate_place [OF run(1) assms(3,5)]
  have "mb_size b = 2 ^ get_order sz" by (rule buddy_allocate_live(3) [OF run(1) assms(5)])
  then have "\<exists>n. mb_size b = 2 ^ n \<and> min_order \<le> n \<and> sz \<le> 2 ^ n \<and>
      (\<forall>m. min_order \<le> m \<and> sz \<le> 2 ^ m \<longrightarrow> n \<le> m)"
    using get_order_bounds(1) get_order_size [OF assms(3)] get_order_least by blast
  moreover have "region (block_region b) \<inter> region (block_region h) = {}" if "h \<in> set held" for h
    using b run(3) that by blast
  ultimately show ?thesis using b unfolding run(2) by blast
qed

theorem buddy_allocate_sound_witness:
  "\<exists>s held b. client_run buddy_allocate buddy_free (buddy_init default_config (2 ^ 10)) [Allocate 100 0 0] =
       (s, held) \<and>
     result_of (buddy_allocate s 300 0 1) = Inr (Some b) \<and> (\<exists>n. mb_size b = 2 ^ n \<and> 300 \<le> mb_size b) \<and>
     mb_size b dvd mb_ptr b \<and> mb_ptr b + mb_size b \<le> 2 ^ 10"
proof -
  let ?run = "client_run buddy_allocate buddy_free (buddy_init default_config (2 ^ 10)) [Allocate 100 0 0]"
  let ?b = "new_block 512 512 default_config 0 1"
  obtain s held where run: "?run = (s, held)" by force
  have "result_of (buddy_allocate (fst ?run) 300 0 1) = Inr (Some ?b)" by code_simp
  then have r: "result_of (buddy_allocate s 300 0 1) = Inr (Some ?b)" using run by simp
  have k: "min_order \<le> 10" "10 \<le> max_order" "(300::int) \<le> 2 ^ max_order" by code_simp+
  show ?thesis using buddy_allocate_sound [OF k run r] run r by metis
qed

text \<open>
  C20: \<open>allocate\<close> reports out of memory exactly when no free block of a sufficient order
  exists, and then changes nothing but the counter of failed requests.
\<close>

theorem buddy_oom_iff:
  "(result_of (buddy_allocate s sz stream now) = Inr None \<longleftrightarrow>
      (\<forall>n. get_order sz \<le> n \<and> n \<le> max_order \<longrightarrow> bd_free_lists s n = [])) \<and>
   (result_of (buddy_allocate s sz stream now) = Inr None \<longrightarrow>
      state_of (buddy_allocate s sz stream now) =
        s\<lparr>bd_stats := (bd_stats s)\<lparr>num_ooms := num_ooms (bd_stats s) + 1\<rparr>\<rparr>)"
  using find_block_None_iff [OF get_order_bounds(2), of "bd_free_lists s" sz]
  by (auto simp: buddy_allocate_def Let_def split: option.splits)

theorem buddy_oom_iff_witness:
  "result_of (buddy_allocate (buddy_init default_config (2 ^ 10)) 2048 0 0) = Inr None \<and>
   num_ooms (bd_stats (state_of (buddy_allocate (buddy_init default_config (2 ^ 10)) 2048 0 0))) = 1"
proof -
  let ?s = "buddy_init default_config (2 ^ 10)"
  have "get_order 2048 = 11" "get_order 1024 = 10" "num_ooms (bd_stats ?s) = 0" by code_simp+
  then show ?thesis
    using buddy_oom_iff [of ?s 2048 0 0] by (simp add: buddy_init_def)
qed

text \<open>
  C21: after any sequence of allocations and releases on an arena of \<open>2^k\<close> bytes that leaves the
  client with no block, in whatever order the blocks were released, the free lists are those of the
  fresh arena: the buddies have been merged back into the single block of the whole arena.
\<close>

theorem buddy_full_coalesce:
  assumes "min_order \<le> k" "k \<le> max_order"
    and "client_run buddy_allocate buddy_free (buddy_init cfg (2 ^ k)) ops = (s, [])"
  shows "bd_free_lists s = bd_free_lists (buddy_init cfg (2 ^ k)) \<and> bd_allocated s = Map.empty"
proof -
  note run = buddy_run_facts [OF assms]
  have "bd_allocated s p = None" for p
    using run(3) by (cases "bd_allocated s p") (auto simp: buddy_live_def)
  then have e: "bd_allocated s = Map.empty" by auto
  from buddy_free_lists_empty [OF run(1) this] show ?thesis
    using e run(2) by (simp add: buddy_init_def)
qed

theorem buddy_full_coalesce_witness:
  "bd_free_lists (fst (client_run buddy_allocate buddy_free (buddy_init default_config (2 ^ 11))
     [Allocate 512 0 0, Allocate 512 0 0, Allocate 1024 0 0, Release 1, Release 1, Release 0])) =
   bd_free_lists (buddy_init default_config (2 ^ 11))"
proof -
  let ?run = "client_run buddy_allocate buddy_free (buddy_init default_config (2 ^ 11))
    [Allocate 512 0 0, Allocate 512 0 0, Allocate 1024 0 0, Release 1, Release 1, Release 0]"
  have "snd ?run = []" by code_simp
  then have r: "?run = (fst ?run, [])" by (metis prod.collapse)
  have k: "min_order \<le> 11" "11 \<le> max_order" by code_simp+
  show ?thesis using buddy_full_coalesce [OF k r] by blast
qed

text \<open>
  C22: accounting is exact after any sequence of allocations and releases on an arena of \<open>2^k\<close>
  bytes: the bytes of the blocks the client holds and the bytes on the free lists add up to the
  arena, and the statistics report the former as allocated and active and the arena as reserved.
\<close>

theorem buddy_accounting:
  assumes "min_order \<le> k" "k \<le> max_order"
    and "client_run buddy_allocate buddy_free (buddy_init cfg (2 ^ k)) ops = (s, held)"
  shows "sum_list (map mb_size held) + free_bytes (bd_free_lists s) = 2 ^ k \<and>
    st_allocated (bd_stats s) = sum_list (map mb_size held) \<and>
    st_active (bd_stats s) = sum_list (map mb_size held) \<and> st_reserved (bd_stats s) = 2 ^ k"
proof -
  note run = buddy_run_facts [OF assms]
  have "map_total fst (bd_allocated s) = sum_list (map mb_size held)"
    using buddy_live_bytes [of s] run(4) by simp
  then show ?thesis
    using buddy_bytes [OF run(1)] buddy_invD(3,4,6) [OF run(1)] run(2) by simp
qed

theorem buddy_accounting_witness:
  "\<exists>s held. client_run buddy_allocate buddy_free (buddy_init default_config (2 ^ 11))
       [Allocate 100 0 0, Allocate 600 0 0, Release 0] = (s, held) \<and>
     sum_list (map mb_size held) = 1024 \<and> free_bytes (bd_free_lists s) = 1024 \<and>
     st_allocated (bd_stats s) = 1024"
proof -
  let ?run = "client_run buddy_allocate buddy_free (buddy_init default_config (2 ^ 11))
    [Allocate 100 0 0, Allocate 600 0 0, Release 0]"
  obtain s held where run: "?run = (s, held)" by force
  have "sum_list (map mb_size (snd ?run)) = 1024" by code_simp
  then have h: "sum_list (map mb_size held) = 1024" using run by simp
  have k: "min_order \<le> 11" "11 \<le> max_order" by code_simp+
  show ?thesis using buddy_accounting [OF k run] run h by auto
qed

text \<open>
  C27: the cap at order 30 is silent: a request above \<open>2^30\<close> bytes that is served at all is
  served with a block that is too short for it.
\<close>

theorem buddy_oversized_request:
  assumes "2 ^ max_order < sz" and "result_of (buddy_allocate s sz stream now) = Inr (Some b)"
  shows "mb_size b = 2 ^ max_order \<and> mb_size b < sz"
proof -
  have "sz \<le> 2 ^ order_loop min_order sz" by (rule order_loop_size)
  with assms(1) have "(2::int) ^ max_order < 2 ^ order_loop min_order sz" by linarith
  then have "max_order < order_loop min_order sz" by (rule power_less_imp_less_exp [rotated]) simp
  then have "get_order sz = max_order" by (simp add: get_order_def)
  moreover have "mb_size b = 2 ^ get_order sz"
    using assms(2) by (auto simp: buddy_allocate_def Let_def split: option.splits prod.splits)
  ultimately show ?thesis using assms(1) by simp
qed

theorem buddy_oversized_request_witness:
  "result_of (buddy_allocate (buddy_init default_config (2 ^ 30)) (2 ^ 31) 0 0) =
     Inr (Some (new_block 0 (2 ^ 30) default_config 0 0)) \<and>
   mb_size (new_block 0 (2 ^ 30) default_config 0 0) < (2 ^ 31 :: int)"
proof -
  have r: "result_of (buddy_allocate (buddy_init default_config (2 ^ 30)) (2 ^ 31) 0 0) =
      Inr (Some (new_block 0 (2 ^ 30) default_config 0 0))" by code_simp
  have "2 ^ max_order < (2 ^ 31 :: int)" by (simp add: max_order_def)
  from buddy_oversized_request [OF this r] r show ?thesis by blast
qed

text \<open>
  An arena whose size is not a power of two is treated as if it were rounded up: with 768
  bytes the first 1024-byte request is granted although it runs past the end of the arena.
\<close>

theorem buddy_rounds_arena_up:
  "let s = buddy_init default_config 768
   in bd_total_size s = 768 \<and>
      result_of (buddy_allocate s 1024 0 0) = Inr (Some (new_block 0 1024 default_config 0 0))"
  by code_simp

end
