(* ===== verification/Slab.thy ===== *)
theory Slab
  imports Memory_Types
begin

text \<open>
  \<open>SlabAllocator\<close> of \<open>39-gpu-memory-manager/src/gpumem/allocator/allocator.py\<close>: objects of one
  size, carved out of 64 KiB slabs; each slab has a list of its free objects, and slab indices
  move between a list of partial and a list of full slabs.

  The invariant says that the free and the allocated objects of a slab are exactly the slab's
  object grid. It holds from the start when a slab has room for at least two objects; the two
  remaining cases (one object, or none) are covered by error theorems.
\<close>

section \<open>State and operations\<close>

record slab =
  sl_config :: memory_config
  sl_object_size :: int
  sl_slab_size :: int
  sl_objects_per_slab :: int
  sl_slabs :: "int list list"
  sl_partial :: "nat list"
  sl_full :: "nat list"
  sl_allocated :: "int \<rightharpoonup> nat"
  sl_stats :: memory_stats
  sl_next_ptr :: int

definition slab_init :: "memory_config \<Rightarrow> int \<Rightarrow> py_error + slab" where
  "slab_init cfg object_size =
     (if object_size = 0 then Inl ZeroDivisionError
      else Inr \<lparr>sl_config = cfg, sl_object_size = object_size, sl_slab_size = 64 * 1024,
             sl_objects_per_slab = (64 * 1024) div object_size, sl_slabs = [], sl_partial = [],
             sl_full = [], sl_allocated = Map.empty, sl_stats = zero_stats,
             sl_next_ptr = 0x300000\<rparr>)"

definition allocate_slab :: "slab \<Rightarrow> nat \<times> slab" where
  "allocate_slab s =
     (let slab_idx = length (sl_slabs s); base_ptr = sl_next_ptr s;
          objects = map (\<lambda>i. base_ptr + int i * sl_object_size s) [0..<nat (sl_objects_per_slab s)]
      in (slab_idx,
          s\<lparr>sl_slabs := sl_slabs s @ [objects], sl_partial := sl_partial s @ [slab_idx],
            sl_next_ptr := sl_next_ptr s + sl_slab_size s,
            sl_stats := update_stats_reserve (sl_slab_size s) (sl_stats s)\<rparr>))"

text \<open>The common tail of \<open>allocate\<close>: the block, the record of it and the statistics.\<close>

definition slab_finish ::
  "slab \<Rightarrow> int \<Rightarrow> nat \<Rightarrow> int \<Rightarrow> real \<Rightarrow> (py_error, memory_block option, slab) outcome" where
  "slab_finish s p slab_idx stream now =
     (Inr (Some (new_block p (sl_object_size s) (sl_config s) stream now)),
      s\<lparr>sl_allocated := (sl_allocated s)(p \<mapsto> slab_idx),
        sl_stats := update_stats_alloc (sl_object_size s) (sl_stats s)\<rparr>)"

definition slab_allocate :: "slab alloc_fun" where
  "slab_allocate s sz stream now =
     (case sl_partial s of
        slab_idx # _ \<Rightarrow>
          if slab_idx < length (sl_slabs s) \<and> sl_slabs s ! slab_idx \<noteq> [] then
            let free = sl_slabs s ! slab_idx; p = last free; rest = butlast free;
                s1 = s\<lparr>sl_slabs := (sl_slabs s)[slab_idx := rest]\<rparr>;
                s2 = (if rest = []
                      then s1\<lparr>sl_partial := remove1 slab_idx (sl_partial s), sl_full := sl_full s @ [slab_idx]\<rparr>
                      else s1)
            in slab_finish s2 p slab_idx stream now
          else (Inl IndexError, s)
      | [] \<Rightarrow>
          let (slab_idx, s1) = allocate_slab s; free = sl_slabs s1 ! slab_idx
          in if free = [] then (Inl IndexError, s1)
             else slab_finish (s1\<lparr>sl_slabs := (sl_slabs s1)[slab_idx := butlast free]\<rparr>)
                    (last free) slab_idx stream now)"

definition slab_free :: "slab free_fun" where
  "slab_free s b =
     (case sl_allocated s (mb_ptr b) of
        None \<Rightarrow> s
      | Some slab_idx \<Rightarrow>
          let was_full = slab_idx \<in> set (sl_full s);
              s1 = s\<lparr>sl_allocated := (sl_allocated s)(mb_ptr b := None),
                     sl_slabs := (sl_slabs s)[slab_idx := sl_slabs s ! slab_idx @ [mb_ptr b]]\<rparr>;
              s2 = (if was_full
                    then s1\<lparr>sl_full := remove1 slab_idx (sl_full s), sl_partial := sl_partial s @ [slab_idx]\<rparr>
                    else s1)
          in s2\<lparr>sl_stats := update_stats_free (sl_object_size s) (sl_stats s)\<rparr>)"

definition slab_empty_cache :: "slab \<Rightarrow> slab" where
  "slab_empty_cache s = s"

section \<open>The object grid\<close>

definition slab_base :: "nat \<Rightarrow> int" where
  "slab_base i = 0x300000 + int i * (64 * 1024)"

definition per_slab :: "int \<Rightarrow> nat" where
  "per_slab z = nat ((64 * 1024) div z)"

definition grid :: "int \<Rightarrow> nat \<Rightarrow> int list" where
  "grid z i = map (\<lambda>j. slab_base i + int j * z) [0..<per_slab z]"

lemma length_grid [simp]: "length (grid z i) = per_slab z"
  by (simp add: grid_def)

lemma distinct_grid: "0 < z \<Longrightarrow> distinct (grid z i)"
  by (auto simp: grid_def distinct_map inj_on_def)

lemma per_slab_fits: "0 < z \<Longrightarrow> int (per_slab z) * z \<le> 64 * 1024"
proof -
  assume "0 < z"
  then have "0 \<le> (64 * 1024) div z" by (simp add: pos_imp_zdiv_nonneg_iff)
  then have "int (per_slab z) * z = (64 * 1024) div z * z" by (simp add: per_slab_def)
  also have "\<dots> = 64 * 1024 - (64 * 1024) mod z" by (simp add: minus_mod_eq_div_mult)
  also have "\<dots> \<le> 64 * 1024" using \<open>0 < z\<close> by simp
  finally show ?thesis .
qed

lemma grid_mem_bounds:
  assumes "0 < z" and "p \<in> set (grid z i)"
  shows "slab_base i \<le> p" and "p + z \<le> slab_base (Suc i)"
proof -
  obtain j where j: "j < per_slab z" "p = slab_base i + int j * z"
    using assms(2) by (auto simp: grid_def)
  then show "slab_base i \<le> p" using assms(1) by simp
  have "(int j + 1) * z \<le> int (per_slab z) * z"
    using j(1) assms(1) by (intro mult_right_mono) auto
  also have "\<dots> \<le> 64 * 1024" using assms(1) by (rule per_slab_fits)
  finally show "p + z \<le> slab_base (Suc i)" using j(2) by (simp add: slab_base_def algebra_simps)
qed

lemma slab_base_mono: "i < j \<Longrightarrow> slab_base (Suc i) \<le> slab_base j"
  by (simp add: slab_base_def)

lemma grid_gap:
  assumes "0 < z" and "p \<in> set (grid z i)" and "q \<in> set (grid z j)" and "p < q"
  shows "p + z \<le> q"
proof (cases i j rule: linorder_cases)
  case less
  then show ?thesis
    using grid_mem_bounds [OF assms(1,2)] grid_mem_bounds [OF assms(1,3)] slab_base_mono [OF less]
    by linarith
next
  case equal
  then obtain a b where ab: "p = slab_base i + int a * z" "q = slab_base i + int b * z"
    using assms(2,3) by (auto simp: grid_def)
  then have "int a * z < int b * z" using assms(4) by simp
  then have "a < b" using assms(1) by (simp add: mult_less_cancel_right)
  then have "(int a + 1) * z \<le> int b * z" using assms(1) by (intro mult_right_mono) auto
  then show ?thesis using ab by (simp add: algebra_simps)
next
  case greater
  then show ?thesis
    using grid_mem_bounds [OF assms(1,2)] grid_mem_bounds [OF assms(1,3)] slab_base_mono [OF greater]
      assms(1,4) by linarith
qed

lemma grid_unique:
  assumes "0 < z" and "p \<in> set (grid z i)" and "p \<in> set (grid z j)"
  shows "i = j"
proof (cases i j rule: linorder_cases)
  case less
  then show ?thesis
    using grid_mem_bounds [OF assms(1,2)] grid_mem_bounds [OF assms(1,3)] slab_base_mono [OF less]
      assms(1) by linarith
next
  case greater
  then show ?thesis
    using grid_mem_bounds [OF assms(1,2)] grid_mem_bounds [OF assms(1,3)] slab_base_mono [OF greater]
      assms(1) by linarith
qed

section \<open>Invariant\<close>

definition held_in :: "(int \<rightharpoonup> nat) \<Rightarrow> nat \<Rightarrow> int set" where
  "held_in m i = {p. m p = Some i}"

definition slabs_ok :: "int \<Rightarrow> int list list \<Rightarrow> (int \<rightharpoonup> nat) \<Rightarrow> bool" where
  "slabs_ok z ss m \<longleftrightarrow>
     (\<forall>i < length ss. distinct (ss ! i) \<and> set (ss ! i) \<inter> held_in m i = {} \<and>
        set (ss ! i) \<union> held_in m i = set (grid z i)) \<and>
     (\<forall>p i. m p = Some i \<longrightarrow> i < length ss)"

definition index_ok :: "int list list \<Rightarrow> nat list \<Rightarrow> nat list \<Rightarrow> bool" where
  "index_ok ss part ful \<longleftrightarrow> distinct part \<and> distinct ful \<and> set part \<inter> set ful = {} \<and>
     set part \<union> set ful = {..<length ss} \<and>
     (\<forall>i\<in>set part. ss ! i \<noteq> []) \<and> (\<forall>i\<in>set ful. ss ! i = [])"

definition slab_inv :: "slab \<Rightarrow> bool" where
  "slab_inv s \<longleftrightarrow> 0 < sl_object_size s \<and> 2 \<le> per_slab (sl_object_size s) \<and>
     sl_slab_size s = 64 * 1024 \<and> sl_objects_per_slab s = (64 * 1024) div sl_object_size s \<and>
     sl_next_ptr s = slab_base (length (sl_slabs s)) \<and>
     slabs_ok (sl_object_size s) (sl_slabs s) (sl_allocated s) \<and>
     index_ok (sl_slabs s) (sl_partial s) (sl_full s) \<and>
     finite (dom (sl_allocated s)) \<and>
     st_allocated (sl_stats s) = map_total (\<lambda>_. sl_object_size s) (sl_allocated s) \<and>
     st_reserved (sl_stats s) = 64 * 1024 * int (length (sl_slabs s))"

definition slab_live :: "slab \<Rightarrow> (int \<times> int) set" where
  "slab_live s = {(p, n). n = sl_object_size s \<and> p \<in> dom (sl_allocated s)}"

lemma held_in_upd: "m p = None \<Longrightarrow> held_in (m(p \<mapsto> i)) j = (if j = i then insert p (held_in m i) else held_in m j)"
  by (auto simp: held_in_def)

lemma held_in_del: "held_in (m(p := None)) j = held_in m j - {p}"
  by (auto simp: held_in_def)

lemma slabs_okD:
  assumes "slabs_ok z ss m" and "i < length ss"
  shows "distinct (ss ! i)" "set (ss ! i) \<inter> held_in m i = {}"
    "set (ss ! i) \<union> held_in m i = set (grid z i)"
  using assms by (auto simp: slabs_ok_def)

lemma slabs_ok_mem:
  assumes "slabs_ok z ss m" and "m p = Some i"
  shows "i < length ss" "p \<in> set (grid z i)"
proof -
  show i: "i < length ss" using assms by (auto simp: slabs_ok_def)
  have "p \<in> held_in m i" using assms(2) by (simp add: held_in_def)
  then show "p \<in> set (grid z i)" using slabs_okD(3) [OF assms(1) i] by blast
qed

lemma slabs_ok_unallocated:
  assumes "0 < z" and "slabs_ok z ss m" and "i < length ss" and "p \<in> set (ss ! i)"
  shows "m p = None"
proof (cases "m p")
  case (Some j)
  have "p \<in> set (grid z i)" using slabs_okD(3) [OF assms(2,3)] assms(4) by blast
  then have "j = i" using grid_unique [OF assms(1)] slabs_ok_mem(2) [OF assms(2) Some] by blast
  then have "p \<in> held_in m i" using Some by (simp add: held_in_def)
  then show ?thesis using slabs_okD(2) [OF assms(2,3)] assms(4) by blast
qed

lemma slabs_ok_take:
  assumes "0 < z" and ok: "slabs_ok z ss m" and i: "i < length ss" and ne: "ss ! i \<noteq> []"
  shows "slabs_ok z (ss[i := butlast (ss ! i)]) (m(last (ss ! i) \<mapsto> i))"
proof -
  let ?p = "last (ss ! i)"
  have n: "m ?p = None" by (rule slabs_ok_unallocated [OF assms(1-3)]) (simp add: ne)
  have d: "distinct (ss ! i)" by (rule slabs_okD [OF ok i])
  have s: "set (ss ! i) = insert ?p (set (butlast (ss ! i)))" "?p \<notin> set (butlast (ss ! i))"
    using set_butlast_last [OF ne] distinct_butlast_last [OF ne d] by auto
  show ?thesis
    unfolding slabs_ok_def
  proof (intro conjI allI impI)
    fix j assume "j < length (ss[i := butlast (ss ! i)])"
    then have j: "j < length ss" by simp
    note js = slabs_okD [OF ok j]
    show "distinct (ss[i := butlast (ss ! i)] ! j)"
      and "set (ss[i := butlast (ss ! i)] ! j) \<inter> held_in (m(?p \<mapsto> i)) j = {}"
      and "set (ss[i := butlast (ss ! i)] ! j) \<union> held_in (m(?p \<mapsto> i)) j = set (grid z j)"
      using js s i by (auto simp: held_in_upd [of m, OF n] nth_list_update distinct_butlast)
  next
    fix p j assume "(m(?p \<mapsto> i)) p = Some j"
    then show "j < length (ss[i := butlast (ss ! i)])"
      using i ok by (auto simp: slabs_ok_def split: if_splits)
  qed
qed

lemma slabs_ok_put:
  assumes ok: "slabs_ok z ss m" and p: "m p = Some i"
  shows "slabs_ok z (ss[i := ss ! i @ [p]]) (m(p := None))"
proof -
  note i = slabs_ok_mem [OF ok p]
  have h: "p \<in> held_in m i" using p by (simp add: held_in_def)
  show ?thesis
    unfolding slabs_ok_def
  proof (intro conjI allI impI)
    fix j assume "j < length (ss[i := ss ! i @ [p]])"
    then have j: "j < length ss" by simp
    have o: "j \<noteq> i \<Longrightarrow> p \<notin> held_in m j" using p by (simp add: held_in_def)
    show "distinct (ss[i := ss ! i @ [p]] ! j)"
      and "set (ss[i := ss ! i @ [p]] ! j) \<inter> held_in (m(p := None)) j = {}"
      and "set (ss[i := ss ! i @ [p]] ! j) \<union> held_in (m(p := None)) j = set (grid z j)"
      using slabs_okD [OF ok j] h i(1) o by (auto simp: held_in_del nth_list_update)
  next
    fix q j assume "(m(p := None)) q = Some j"
    then show "j < length (ss[i := ss ! i @ [p]])"
      using ok by (auto simp: slabs_ok_def split: if_splits)
  qed
qed

lemma slabs_ok_new:
  assumes "0 < z" and ok: "slabs_ok z ss m"
  shows "slabs_ok z (ss @ [grid z (length ss)]) m"
proof -
  have e: "held_in m (length ss) = {}" using ok by (auto simp: slabs_ok_def held_in_def)
  show ?thesis
    unfolding slabs_ok_def
  proof (intro conjI allI impI)
    fix j assume "j < length (ss @ [grid z (length ss)])"
    then consider "j < length ss" | "j = length ss" by fastforce
    then show "distinct ((ss @ [grid z (length ss)]) ! j)"
      and "set ((ss @ [grid z (length ss)]) ! j) \<inter> held_in m j = {}"
      and "set ((ss @ [grid z (length ss)]) ! j) \<union> held_in m j = set (grid z j)"
      using slabs_okD [OF ok, of j] e distinct_grid [OF assms(1)] by (cases; simp add: nth_append)+
  next
    fix p j assume "m p = Some j"
    then show "j < length (ss @ [grid z (length ss)])"
      using slabs_ok_mem(1) [OF ok] by (simp add: less_Suc_eq)
  qed
qed

text \<open>Moving an index when the last free object is taken, and back when one returns.\<close>

lemma index_ok_take:
  assumes "index_ok ss (i # part) ful"
  shows "butlast (ss ! i) \<noteq> [] \<Longrightarrow> index_ok (ss[i := butlast (ss ! i)]) (i # part) ful"
    and "butlast (ss ! i) = [] \<Longrightarrow> index_ok (ss[i := butlast (ss ! i)]) part (ful @ [i])"
proof -
  have i: "i < length ss" using assms by (auto simp: index_ok_def)
  have away: "ss[i := butlast (ss ! i)] ! j = ss ! j" if "j \<noteq> i" for j using that by simp
  show "butlast (ss ! i) \<noteq> [] \<Longrightarrow> index_ok (ss[i := butlast (ss ! i)]) (i # part) ful"
    and "butlast (ss ! i) = [] \<Longrightarrow> index_ok (ss[i := butlast (ss ! i)]) part (ful @ [i])"
    using assms i away unfolding index_ok_def by (auto simp: nth_list_update)
qed

lemma index_ok_put:
  assumes "index_ok ss part ful" and i: "i < length ss"
  shows "i \<notin> set ful \<Longrightarrow> index_ok (ss[i := ss ! i @ [p]]) part ful"
    and "i \<in> set ful \<Longrightarrow> index_ok (ss[i := ss ! i @ [p]]) (part @ [i]) (remove1 i ful)"
  using assms unfolding index_ok_def by (auto simp: nth_list_update)

lemma index_ok_new:
  "index_ok ss part ful \<Longrightarrow> xs \<noteq> [] \<Longrightarrow> index_ok (ss @ [xs]) (part @ [length ss]) ful"
  unfolding index_ok_def by (auto simp: nth_append lessThan_Suc)

lemma slab_invD:
  assumes "slab_inv s"
  shows "0 < sl_object_size s" "2 \<le> per_slab (sl_object_size s)" "sl_slab_size s = 64 * 1024"
    "sl_objects_per_slab s = (64 * 1024) div sl_object_size s"
    "sl_next_ptr s = slab_base (length (sl_slabs s))"
    "slabs_ok (sl_object_size s) (sl_slabs s) (sl_allocated s)"
    "index_ok (sl_slabs s) (sl_partial s) (sl_full s)"
    "finite (dom (sl_allocated s))"
    "st_allocated (sl_stats s) = map_total (\<lambda>_. sl_object_size s) (sl_allocated s)"
    "st_reserved (sl_stats s) = 64 * 1024 * int (length (sl_slabs s))"
  using assms by (simp_all add: slab_inv_def)

lemma slab_base_Suc: "slab_base i + 64 * 1024 = slab_base (Suc i)"
  by (simp add: slab_base_def)

lemma allocate_slab_inv:
  assumes "slab_inv s"
  shows "slab_inv (snd (allocate_slab s))"
    and "sl_slabs (snd (allocate_slab s)) =
      sl_slabs s @ [grid (sl_object_size s) (length (sl_slabs s))]"
proof -
  note d = slab_invD [OF assms]
  have g: "grid (sl_object_size s) (length (sl_slabs s)) \<noteq> []"
    using d(2) length_grid [of "sl_object_size s"] by (metis list.size(3) not_numeral_le_zero)
  show eq: "sl_slabs (snd (allocate_slab s)) =
      sl_slabs s @ [grid (sl_object_size s) (length (sl_slabs s))]"
    using d(4,5) by (simp add: allocate_slab_def Let_def grid_def per_slab_def)
  show "slab_inv (snd (allocate_slab s))"
    unfolding slab_inv_def eq
    using d slabs_ok_new [OF d(1,6)] index_ok_new [OF d(7) g] slab_base_Suc [of "length (sl_slabs s)"]
    by (simp add: allocate_slab_def Let_def)
qed

text \<open>Taking the last free object of the slab at the head of the partial list.\<close>

lemma slab_take_inv:
  assumes inv: "slab_inv s" and part: "sl_partial s = i # part"
    and s': "sl_slabs s' = (sl_slabs s)[i := butlast (sl_slabs s ! i)]"
      "sl_allocated s' = (sl_allocated s)(last (sl_slabs s ! i) \<mapsto> i)"
      "sl_stats s' = update_stats_alloc (sl_object_size s) (sl_stats s)"
      "sl_object_size s' = sl_object_size s" "sl_slab_size s' = sl_slab_size s"
      "sl_objects_per_slab s' = sl_objects_per_slab s" "sl_next_ptr s' = sl_next_ptr s"
    and idx: "if butlast (sl_slabs s ! i) = []
      then sl_partial s' = part \<and> sl_full s' = sl_full s @ [i]
      else sl_partial s' = i # part \<and> sl_full s' = sl_full s"
  shows "slab_inv s'" and "sl_allocated s (last (sl_slabs s ! i)) = None"
proof -
  note d = slab_invD [OF inv]
  have i: "i < length (sl_slabs s)" "sl_slabs s ! i \<noteq> []"
    using d(7) part by (auto simp: index_ok_def)
  show n: "sl_allocated s (last (sl_slabs s ! i)) = None"
    using slabs_ok_unallocated [OF d(1,6) i(1)] i(2) by simp
  have "index_ok (sl_slabs s') (sl_partial s') (sl_full s')"
    using idx index_ok_take [of "sl_slabs s" i part "sl_full s"] d(7) part
    by (simp add: s' split: if_splits)
  then show "slab_inv s'"
    unfolding slab_inv_def s'
    using d slabs_ok_take [OF d(1,6) i] n by (simp add: map_total_upd)
qed

lemma slab_allocate_reuse:
  assumes inv: "slab_inv s" and part: "sl_partial s = i # part"
  shows "\<exists>p t. slab_allocate s sz stream now =
      (Inr (Some (new_block p (sl_object_size s) (sl_config s) stream now)), t) \<and>
    slab_inv t \<and> sl_allocated s p = None \<and> sl_allocated t = (sl_allocated s)(p \<mapsto> i) \<and>
    sl_object_size t = sl_object_size s \<and> length (sl_slabs t) = length (sl_slabs s)"
proof -
  let ?p = "last (sl_slabs s ! i)" and ?t = "state_of (slab_allocate s sz stream now)"
  have i: "i < length (sl_slabs s)" "sl_slabs s ! i \<noteq> []"
    using slab_invD(7) [OF inv] part by (auto simp: index_ok_def)
  have f: "sl_slabs ?t = (sl_slabs s)[i := butlast (sl_slabs s ! i)]"
      "sl_allocated ?t = (sl_allocated s)(?p \<mapsto> i)"
      "sl_stats ?t = update_stats_alloc (sl_object_size s) (sl_stats s)"
      "sl_object_size ?t = sl_object_size s" "sl_slab_size ?t = sl_slab_size s"
      "sl_objects_per_slab ?t = sl_objects_per_slab s" "sl_next_ptr ?t = sl_next_ptr s"
      "if butlast (sl_slabs s ! i) = []
       then sl_partial ?t = part \<and> sl_full ?t = sl_full s @ [i]
       else sl_partial ?t = i # part \<and> sl_full ?t = sl_full s"
    using i part by (simp_all add: slab_allocate_def slab_finish_def Let_def)
  have "slab_inv ?t" and "sl_allocated s ?p = None"
    by (rule slab_take_inv [OF inv part f])+
  then show ?thesis
    using i part
    by (intro exI [of _ ?p] exI [of _ ?t]) (simp add: slab_allocate_def slab_finish_def Let_def)
qed

lemma slab_allocate_grow:
  assumes inv: "slab_inv s" and part: "sl_partial s = []"
  shows "\<exists>p t. slab_allocate s sz stream now =
      (Inr (Some (new_block p (sl_object_size s) (sl_config s) stream now)), t) \<and>
    slab_inv t \<and> sl_allocated s p = None \<and> sl_allocated t = (sl_allocated s)(p \<mapsto> length (sl_slabs s)) \<and>
    sl_object_size t = sl_object_size s \<and> length (sl_slabs t) = Suc (length (sl_slabs s))"
proof -
  let ?i = "length (sl_slabs s)" and ?t = "state_of (slab_allocate s sz stream now)"
  obtain s1 where a: "allocate_slab s = (?i, s1)" by (simp add: allocate_slab_def Let_def)
  have inv1: "slab_inv s1" and slabs: "sl_slabs s1 = sl_slabs s @ [grid (sl_object_size s) ?i]"
    using allocate_slab_inv [OF inv] by (simp_all add: a)
  have s1: "sl_partial s1 = [?i]" "sl_allocated s1 = sl_allocated s" "sl_config s1 = sl_config s"
    "sl_object_size s1 = sl_object_size s"
    using a part by (auto simp: allocate_slab_def Let_def)
  let ?g = "grid (sl_object_size s) ?i"
  have "2 \<le> length ?g" using slab_invD(2) [OF inv] by simp
  then have g: "?g \<noteq> []" "butlast ?g \<noteq> []"
    by (cases ?g; cases "tl ?g"; simp)+
  have t: "slab_allocate s sz stream now =
      slab_finish (s1\<lparr>sl_slabs := (sl_slabs s1)[?i := butlast ?g]\<rparr>) (last ?g) ?i stream now"
    using g part slabs by (simp add: slab_allocate_def a Let_def)
  have "slab_inv ?t" and "sl_allocated s1 (last ?g) = None"
    using slab_take_inv [OF inv1 s1(1), of ?t] g slabs s1 by (simp_all add: t slab_finish_def)
  then show ?thesis
    using s1 slabs by (intro exI [of _ "last ?g"] exI [of _ ?t]) (simp add: t slab_finish_def)
qed

text \<open>The allocator never fails, and grows by one slab only when no slab has a free object.\<close>

lemma slab_allocate_ok:
  assumes "slab_inv s"
  shows "\<exists>p i t. slab_allocate s sz stream now =
      (Inr (Some (new_block p (sl_object_size s) (sl_config s) stream now)), t) \<and>
    slab_inv t \<and> sl_allocated s p = None \<and> sl_allocated t = (sl_allocated s)(p \<mapsto> i) \<and>
    sl_object_size t = sl_object_size s \<and>
    length (sl_slabs t) = (if sl_partial s = [] then Suc (length (sl_slabs s)) else length (sl_slabs s))"
proof (cases "sl_partial s")
  case Nil
  then show ?thesis using slab_allocate_grow [OF assms Nil, of sz stream now] by auto
next
  case (Cons i part)
  then show ?thesis using slab_allocate_reuse [OF assms Cons, of sz stream now] by auto
qed

lemma slab_free_inv:
  assumes "slab_inv s"
  shows "slab_inv (slab_free s b)"
proof (cases "sl_allocated s (mb_ptr b)")
  case None
  then show ?thesis using assms by (simp add: slab_free_def)
next
  case (Some i)
  let ?t = "slab_free s b"
  note d = slab_invD [OF assms]
  have i: "i < length (sl_slabs s)" by (rule slabs_ok_mem [OF d(6) Some])
  have slabs: "sl_slabs ?t = (sl_slabs s)[i := sl_slabs s ! i @ [mb_ptr b]]"
    using Some by (simp add: slab_free_def Let_def)
  have "index_ok (sl_slabs ?t) (sl_partial ?t) (sl_full ?t)"
    using index_ok_put [OF d(7) i, of "mb_ptr b"] Some
    by (simp add: slab_free_def Let_def)
  then show ?thesis
    unfolding slab_inv_def using d Some i slabs_ok_put [OF d(6) Some]
    by (simp add: slab_free_def Let_def map_total_del)
qed

section \<open>The allocator contract\<close>

lemma slab_live_disjoint:
  assumes "slab_inv s"
  shows "disjoint_regions (slab_live s)"
  unfolding disjoint_regions_def
proof (intro ballI impI)
  fix r r'
  let ?z = "sl_object_size s"
  note d = slab_invD [OF assms]
  assume "r \<in> slab_live s" and "r' \<in> slab_live s" and "r \<noteq> r'"
  then obtain p q i j where pq: "r = (p, ?z)" "r' = (q, ?z)"
      "sl_allocated s p = Some i" "sl_allocated s q = Some j" "p \<noteq> q"
    by (auto simp: slab_live_def)
  then have "p \<in> set (grid ?z i)" "q \<in> set (grid ?z j)"
    using slabs_ok_mem(2) [OF d(6)] by auto
  then have "p + ?z \<le> q \<or> q + ?z \<le> p"
    using grid_gap [OF d(1)] pq(5) by (metis linorder_neqE)
  then show "region r \<inter> region r' = {}" using pq by (auto simp: region_def)
qed

lemma slab_allocate_live:
  assumes "slab_inv s" and "result_of (slab_allocate s sz stream now) = Inr (Some b)"
  shows "block_region b \<notin> slab_live s"
    and "slab_live (state_of (slab_allocate s sz stream now)) = insert (block_region b) (slab_live s)"
    and "mb_size b = sl_object_size s"
  using slab_allocate_ok [OF assms(1), of sz stream now] assms(2)
  by (auto simp: slab_live_def block_region_def)

lemma slab_inv_allocate: "slab_inv s \<Longrightarrow> slab_inv (state_of (slab_allocate s sz stream now))"
  using slab_allocate_ok [of s sz stream now] by auto

lemma slab_free_live:
  assumes "slab_inv s" and "block_region b \<in> slab_live s"
  shows "slab_live (slab_free s b) = slab_live s - {block_region b}"
  using assms by (auto simp: slab_live_def block_region_def slab_free_def Let_def split: option.splits)

lemma slab_free_unknown: "mb_ptr b \<notin> fst ` slab_live s \<Longrightarrow> slab_free s b = s"
  by (force simp: slab_free_def slab_live_def split: option.splits)

interpretation slab_alloc: sized_allocator slab_allocate slab_free slab_inv slab_live
  "\<lambda>s n. n \<le> sl_object_size s"
proof unfold_locales
  fix s n st now
  assume "slab_inv s" "\<nexists>b. result_of (slab_allocate s n st now) = Inr (Some b)"
  then show "slab_live (state_of (slab_allocate s n st now)) = slab_live s"
    using slab_allocate_ok [of s n st now] by auto
next
  fix s n st now b
  assume "slab_inv s" "n \<le> sl_object_size s"
    and "result_of (slab_allocate s n st now) = Inr (Some b)"
  then show "n \<le> mb_size b" using slab_allocate_live(3) by metis
qed (rule slab_inv_allocate slab_free_inv slab_live_disjoint conjI [OF slab_allocate_live(1,2)]
      slab_free_live slab_free_unknown; assumption)+

lemma slab_init_inv:
  assumes "0 < z" and "z \<le> 32 * 1024" and "slab_init cfg z = Inr s"
  shows "slab_inv s" and "slab_live s = {}"
proof -
  have "(64 * 1024) div z \<ge> (64 * 1024) div (32 * 1024)"
    using assms(1,2) by (intro zdiv_mono2) auto
  then have "2 \<le> per_slab z" by (simp add: per_slab_def)
  then show "slab_inv s" and "slab_live s = {}"
    using assms
    by (auto simp: slab_init_def slab_inv_def slab_base_def slabs_ok_def index_ok_def zero_stats_def
        slab_live_def)
qed

lemma slab_allocate_total_step:
  assumes "slab_inv s"
  shows "\<exists>b t. slab_allocate s sz stream now = (Inr (Some b), t) \<and>
    mb_size b = sl_object_size s \<and> sl_allocated s (mb_ptr b) = None \<and>
    (length (sl_slabs t) = Suc (length (sl_slabs s)) \<longleftrightarrow>
       (\<forall>i < length (sl_slabs s). set (grid (sl_object_size s) i) \<subseteq> dom (sl_allocated s)))"
proof -
  note d = slab_invD [OF assms]
  have iff: "sl_partial s = [] \<longleftrightarrow>
      (\<forall>i < length (sl_slabs s). set (grid (sl_object_size s) i) \<subseteq> dom (sl_allocated s))"
  proof
    assume "sl_partial s = []"
    then have e: "sl_slabs s ! i = []" if "i < length (sl_slabs s)" for i
      using d(7) that by (auto simp: index_ok_def)
    show "\<forall>i < length (sl_slabs s). set (grid (sl_object_size s) i) \<subseteq> dom (sl_allocated s)"
      using slabs_okD(3) [OF d(6)] e by (fastforce simp: held_in_def)
  next
    assume all: "\<forall>i < length (sl_slabs s). set (grid (sl_object_size s) i) \<subseteq> dom (sl_allocated s)"
    show "sl_partial s = []"
    proof (rule ccontr)
      assume "sl_partial s \<noteq> []"
      then obtain i where "i \<in> set (sl_partial s)" by (cases "sl_partial s") auto
      then have "i \<in> {..<length (sl_slabs s)}" "sl_slabs s ! i \<noteq> []"
        using d(7) unfolding index_ok_def by blast+
      then obtain p where i: "i < length (sl_slabs s)" "p \<in> set (sl_slabs s ! i)"
        using last_in_set by auto
      then have "sl_allocated s p = None" by (rule slabs_ok_unallocated [OF d(1,6)])
      moreover have "p \<in> set (grid (sl_object_size s) i)" using slabs_okD(3) [OF d(6) i(1)] i(2) by blast
      ultimately show False using all i(1) by auto
    qed
  qed
  obtain p i t where ok: "slab_allocate s sz stream now =
      (Inr (Some (new_block p (sl_object_size s) (sl_config s) stream now)), t)"
      "sl_allocated s p = None"
    and "length (sl_slabs t) = (if sl_partial s = [] then Suc (length (sl_slabs s)) else length (sl_slabs s))"
    using slab_allocate_ok [OF assms, of sz stream now] by blast
  then have "length (sl_slabs t) = Suc (length (sl_slabs s)) \<longleftrightarrow> sl_partial s = []" by simp
  then show ?thesis
    using ok unfolding iff
    by (intro exI [of _ "new_block p (sl_object_size s) (sl_config s) stream now"] exI [of _ t]) simp
qed

lemma slab_run_facts:
  assumes "0 < z" and "z \<le> 32 * 1024" and "slab_init cfg z = Inr s"
    and "client_run slab_allocate slab_free s ops = (t, held)"
  shows "slab_inv t" "sl_object_size t = z" "\<forall>b\<in>set held. mb_size b = z"
    "dom (sl_allocated t) = mb_ptr ` set held" "card (mb_ptr ` set held) = length held"
proof -
  note i = slab_init_inv [OF assms(1-3)]
  show "slab_inv t" using slab_alloc.run_inv [OF i, of ops] assms(4) by simp
  have "sl_object_size (fst (client_run slab_allocate slab_free s ops)) = sl_object_size s"
    by (rule client_run_const)
      (auto simp: slab_allocate_def slab_finish_def allocate_slab_def slab_free_def Let_def
        split: list.splits option.splits)
  then show z: "sl_object_size t = z" using assms by (auto simp: slab_init_def)
  note l = slab_alloc.run_live(1,2) [OF i assms(4)]
  show b: "\<forall>b\<in>set held. mb_size b = z" using l(2) z by (auto simp: slab_live_def block_region_def)
  have "fst ` slab_live t = dom (sl_allocated t)" by (force simp: slab_live_def)
  then show "dom (sl_allocated t) = mb_ptr ` set held" using l(2) [symmetric] by (simp add: image_image)
  have "map block_region held = map (\<lambda>p. (p, z)) (map mb_ptr held)"
    using b by (simp add: block_region_def)
  then have "distinct (map mb_ptr held)" using l(1) by (metis distinct_map)
  then show "card (mb_ptr ` set held) = length held" using distinct_card by fastforce
qed

section \<open>Properties\<close>

text \<open>
  C23: for objects of at most 32 KiB, however a client interleaves allocations and releases, the
  objects it holds have the object size and never overlap, the allocated statistic counts exactly
  their bytes, and the reserved statistic exactly the bytes of the slabs.
\<close>

theorem slab_client_safe:
  assumes "0 < z" and "z \<le> 32 * 1024" and "slab_init cfg z = Inr s"
    and "client_run slab_allocate slab_free s ops = (t, held)"
  shows "non_overlapping held \<and> (\<forall>b\<in>set held. mb_size b = z) \<and>
    st_allocated (sl_stats t) = z * int (length held) \<and>
    st_reserved (sl_stats t) = 64 * 1024 * int (length (sl_slabs t))"
proof -
  note run = slab_run_facts [OF assms]
  have "map_total (\<lambda>_. z) (sl_allocated t) = z * int (length held)"
    using run(4,5) by (simp add: map_total_def)
  then show ?thesis
    using slab_alloc.run_non_overlapping [OF slab_init_inv [OF assms(1-3)], of ops] assms(4)
      slab_invD(9,10) [OF run(1)] run(2,3) by simp
qed

theorem slab_client_safe_witness:
  "\<exists>s t held. slab_init default_config 32768 = Inr s \<and>
     client_run slab_allocate slab_free s [Allocate 64 0 0, Allocate 64 0 0, Release 0] = (t, held) \<and>
     map block_region held = [(0x300000, 32768)] \<and> st_allocated (sl_stats t) = 32768 \<and>
     non_overlapping held"
proof -
  obtain s where s: "slab_init default_config 32768 = Inr s" by (simp add: slab_init_def)
  obtain t held where run:
    "client_run slab_allocate slab_free s [Allocate 64 0 0, Allocate 64 0 0, Release 0] = (t, held)" by force
  have "map block_region (snd (client_run slab_allocate slab_free
      (projr (slab_init default_config 32768))
      [Allocate 64 0 0, Allocate 64 0 0, Release 0])) = [(0x300000, 32768)]"
    by code_simp
  then have h: "map block_region held = [(0x300000, 32768)]" using s run by simp
  then have "length held = 1" by auto
  then show ?thesis using s run h slab_client_safe [OF _ _ s run] by auto
qed

text \<open>
  C24: for objects of at most 32 KiB and after whatever a client has done, \<open>allocate\<close> neither raises
  nor reports out of memory; it returns an object that the client does not hold, and it reserves a
  new slab exactly when the client holds every object of the existing slabs.
\<close>

theorem slab_allocate_total:
  assumes "0 < z" and "z \<le> 32 * 1024" and "slab_init cfg z = Inr s0"
    and "client_run slab_allocate slab_free s0 ops = (s, held)"
  shows "\<exists>b t. slab_allocate s sz stream now = (Inr (Some b), t) \<and>
    mb_size b = z \<and> mb_ptr b \<notin> mb_ptr ` set held \<and>
    (length (sl_slabs t) = Suc (length (sl_slabs s)) \<longleftrightarrow>
       (\<forall>i < length (sl_slabs s). set (grid z i) \<subseteq> mb_ptr ` set held))"
proof -
  note run = slab_run_facts [OF assms]
  from slab_allocate_total_step [OF run(1), of sz stream now] show ?thesis
    unfolding run(2,4) [symmetric] by (auto simp: domIff)
qed

theorem slab_allocate_total_witness:
  "\<exists>s0 s held b t. slab_init default_config 32768 = Inr s0 \<and>
     client_run slab_allocate slab_free s0
       [Allocate 64 0 0, Allocate 64 0 0, Allocate 64 0 0, Release 0] = (s, held) \<and>
     slab_allocate s 64 0 0 = (Inr (Some b), t) \<and> mb_size b = 32768 \<and> mb_ptr b \<notin> mb_ptr ` set held"
proof -
  obtain s0 where s0: "slab_init default_config 32768 = Inr s0" by (simp add: slab_init_def)
  obtain s held where run: "client_run slab_allocate slab_free s0
    [Allocate 64 0 0, Allocate 64 0 0, Allocate 64 0 0, Release 0] = (s, held)" by force
  from slab_allocate_total [OF _ _ s0 run, of 64 0 0] show ?thesis using s0 run by auto
qed

text \<open>
  A slab that holds a single object (an object size above 32 KiB) breaks the allocator: the
  new slab is left on the partial list with no free object, and the second allocation raises
  \<open>IndexError\<close>.
\<close>

theorem slab_single_object_raises:
  assumes "32 * 1024 < z" and "z \<le> 64 * 1024" and "slab_init cfg z = Inr s"
  shows "(\<exists>b. result_of (slab_allocate s n st now) = Inr (Some b)) \<and>
    result_of (slab_allocate (state_of (slab_allocate s n st now)) n' st' now') = Inl IndexError"
proof -
  have "(64 * 1024) div z = 1"
    using assms(1,2) by (intro int_div_pos_eq [of _ _ _ "64 * 1024 - z"]) auto
  then show ?thesis
    using assms(3)
    by (auto simp: slab_init_def slab_allocate_def allocate_slab_def slab_finish_def Let_def
        split: if_splits)
qed

theorem slab_single_object_raises_witness:
  "\<exists>s. slab_init default_config 40000 = Inr s \<and>
     result_of (slab_allocate (state_of (slab_allocate s 0 0 0)) 0 0 0) = Inl IndexError"
proof -
  obtain s where s: "slab_init default_config 40000 = Inr s" by (simp add: slab_init_def)
  from slab_single_object_raises [OF _ _ s, of 0 0 0 0 0 0] s show ?thesis by auto
qed

end
