(* ===== verification/Pool.thy ===== *)
theory Pool
  imports Memory_Types
begin

text \<open>
  \<open>PoolAllocator\<close> of \<open>39-gpu-memory-manager/src/gpumem/allocator/allocator.py\<close>: thirteen size
  classes from 256 bytes to 1 MiB, one pool of released blocks per class, fresh addresses from a
  bump pointer. Requests above 1 MiB have no pool and raise \<open>KeyError\<close>.
\<close>

section \<open>State and operations\<close>

record pool_alloc =
  pa_config :: memory_config
  pa_pools :: "int \<rightharpoonup> memory_block list"
  pa_allocated :: "int \<rightharpoonup> memory_block"
  pa_stats :: memory_stats
  pa_next_ptr :: int

definition size_classes :: "int list" where
  "size_classes = [256, 512, 1024, 2048, 4096, 8192, 16384, 32768, 65536,
     131072, 262144, 524288, 1048576]"

definition pool_init :: "memory_config \<Rightarrow> pool_alloc" where
  "pool_init cfg =
     \<lparr>pa_config = cfg, pa_pools = (\<lambda>sc. if sc \<in> set size_classes then Some [] else None),
      pa_allocated = Map.empty, pa_stats = zero_stats, pa_next_ptr = 0x200000\<rparr>"

definition pool_size_class :: "int \<Rightarrow> int" where
  "pool_size_class sz =
     (case find (\<lambda>sc. sc \<ge> sz) size_classes of
        Some sc \<Rightarrow> sc
      | None \<Rightarrow> ((sz + last size_classes - 1) div last size_classes) * last size_classes)"

definition pool_allocate :: "pool_alloc alloc_fun" where
  "pool_allocate s sz stream now =
     (let sc = pool_size_class sz
      in case pa_pools s sc of
           None \<Rightarrow> (Inl KeyError, s)
         | Some bs \<Rightarrow>
             let (b, s1) =
               (if bs \<noteq> []
                then (last bs, s\<lparr>pa_pools := (pa_pools s)(sc \<mapsto> butlast bs)\<rparr>)
                else (new_block (pa_next_ptr s) sc (pa_config s) stream now,
                      s\<lparr>pa_next_ptr := pa_next_ptr s + sc,
                        pa_stats := update_stats_reserve sc (pa_stats s)\<rparr>));
               b1 = b\<lparr>mb_allocated := True, mb_timestamp := now\<rparr>
             in (Inr (Some b1),
                 s1\<lparr>pa_allocated := (pa_allocated s)(mb_ptr b1 \<mapsto> b1),
                    pa_stats := update_stats_alloc sc (pa_stats s1)\<rparr>))"

text \<open>\<open>free\<close>: the lookup of the pool comes after the removal from \<open>_allocated\<close>.\<close>

definition pool_free :: "pool_alloc \<Rightarrow> memory_block \<Rightarrow> (py_error, unit, pool_alloc) outcome" where
  "pool_free s b =
     (if pa_allocated s (mb_ptr b) = None then (Inr (), s)
      else
        let s1 = s\<lparr>pa_allocated := (pa_allocated s)(mb_ptr b := None)\<rparr>;
            b1 = b\<lparr>mb_allocated := False\<rparr>; sc = pool_size_class (mb_size b)
        in case pa_pools s sc of
             None \<Rightarrow> (Inl KeyError, s1)
           | Some bs \<Rightarrow>
               (Inr (), s1\<lparr>pa_pools := (pa_pools s)(sc \<mapsto> bs @ [b1]),
                           pa_stats := update_stats_free (mb_size b) (pa_stats s)\<rparr>))"

definition pool_empty_cache :: "pool_alloc \<Rightarrow> pool_alloc" where
  "pool_empty_cache s =
     s\<lparr>pa_pools := (\<lambda>sc. if sc \<in> set size_classes then Some [] else pa_pools s sc),
       pa_stats := (pa_stats s)\<lparr>st_inactive := 0\<rparr>\<rparr>"

section \<open>Size classes\<close>

lemma size_classes_pos: "sc \<in> set size_classes \<Longrightarrow> 256 \<le> sc"
  by (auto simp: size_classes_def)

lemma pool_size_class_small:
  assumes "sz \<le> 1048576"
  shows "pool_size_class sz \<in> set size_classes" and "sz \<le> pool_size_class sz"
proof -
  have "find (\<lambda>sc. sc \<ge> sz) size_classes \<noteq> None"
    using assms by (auto simp: find_None_iff_set size_classes_def)
  then obtain sc where sc: "find (\<lambda>sc. sc \<ge> sz) size_classes = Some sc" by auto
  then show "pool_size_class sz \<in> set size_classes" and "sz \<le> pool_size_class sz"
    using find_SomeD [OF sc] by (simp_all add: pool_size_class_def)
qed

lemma pool_size_class_large:
  assumes "1048576 < sz"
  shows "pool_size_class sz \<notin> set size_classes"
proof -
  have "find (\<lambda>sc. sc \<ge> sz) size_classes = None"
    using assms by (auto simp: find_None_iff_set size_classes_def)
  then have "pool_size_class sz = ((sz + 1048575) div 1048576) * 1048576"
    by (simp add: pool_size_class_def size_classes_def)
  moreover have "2 \<le> (sz + 1048575) div 1048576" using assms by simp
  ultimately have "2 * 1048576 \<le> pool_size_class sz" by simp
  then show ?thesis by (auto simp: size_classes_def)
qed

lemma pool_size_class_fixed: "sc \<in> set size_classes \<Longrightarrow> pool_size_class sc = sc"
  by (auto simp: size_classes_def pool_size_class_def)

section \<open>Invariant\<close>

definition pooled :: "(int \<rightharpoonup> memory_block list) \<Rightarrow> (int \<times> int) set" where
  "pooled pools = {r. \<exists>sc bs b. pools sc = Some bs \<and> b \<in> set bs \<and> r = block_region b}"

definition pool_live :: "pool_alloc \<Rightarrow> (int \<times> int) set" where
  "pool_live s = {r. \<exists>b. pa_allocated s (fst r) = Some b \<and> r = block_region b}"

definition pools_ok :: "(int \<rightharpoonup> memory_block list) \<Rightarrow> bool" where
  "pools_ok pools \<longleftrightarrow> dom pools = set size_classes \<and>
     (\<forall>sc bs. pools sc = Some bs \<longrightarrow> distinct (map block_region bs) \<and> (\<forall>b\<in>set bs. mb_size b = sc))"

definition pool_inv :: "pool_alloc \<Rightarrow> bool" where
  "pool_inv s \<longleftrightarrow> pools_ok (pa_pools s) \<and>
     (\<forall>p b. pa_allocated s p = Some b \<longrightarrow> mb_ptr b = p \<and> mb_size b \<in> set size_classes) \<and>
     disjoint_regions (pooled (pa_pools s) \<union> pool_live s) \<and>
     pooled (pa_pools s) \<inter> pool_live s = {} \<and>
     (\<forall>r\<in>pooled (pa_pools s) \<union> pool_live s. 0 < snd r \<and> fst r + snd r \<le> pa_next_ptr s) \<and>
     finite (dom (pa_allocated s)) \<and>
     st_allocated (pa_stats s) = map_total mb_size (pa_allocated s) \<and>
     st_reserved (pa_stats s) = pa_next_ptr s - 0x200000"

lemma pool_invD:
  assumes "pool_inv s"
  shows "pools_ok (pa_pools s)"
    "\<And>p b. pa_allocated s p = Some b \<Longrightarrow> mb_ptr b = p \<and> mb_size b \<in> set size_classes"
    "disjoint_regions (pooled (pa_pools s) \<union> pool_live s)"
    "pooled (pa_pools s) \<inter> pool_live s = {}"
    "\<And>r. r \<in> pooled (pa_pools s) \<union> pool_live s \<Longrightarrow> 0 < snd r \<and> fst r + snd r \<le> pa_next_ptr s"
    "finite (dom (pa_allocated s))"
    "st_allocated (pa_stats s) = map_total mb_size (pa_allocated s)"
    "st_reserved (pa_stats s) = pa_next_ptr s - 0x200000"
  using assms unfolding pool_inv_def by blast+

text \<open>Two regions of the arena with the same address are the same block.\<close>

lemma same_address:
  assumes "disjoint_regions R" and "r \<in> R" "r' \<in> R" and "0 < snd r" "0 < snd r'" and "fst r = fst r'"
  shows "r = r'"
proof (rule ccontr)
  assume "r \<noteq> r'"
  then have "region r \<inter> region r' = {}" by (rule disjoint_regionsD [OF assms(1-3)])
  moreover have "fst r \<in> region r" "fst r \<in> region r'" using assms(4-) by (auto simp: region_def)
  ultimately show False by blast
qed

lemma pooled_upd:
  "pooled (pools(sc \<mapsto> bs)) = (block_region ` set bs) \<union> pooled (pools(sc := None))"
  unfolding pooled_def by (auto split: if_splits)

lemma pooled_split:
  "pools sc = Some bs \<Longrightarrow> pooled pools = (block_region ` set bs) \<union> pooled (pools(sc := None))"
  using pooled_upd [of pools sc bs] by (simp add: fun_upd_idem)

lemma pooled_outside:
  assumes "pools_ok pools" and "r \<in> pooled (pools(sc := None))"
  shows "snd r \<noteq> sc"
  using assms unfolding pooled_def pools_ok_def by (auto split: if_splits)

lemma pools_ok_upd:
  "pools_ok pools \<Longrightarrow> sc \<in> set size_classes \<Longrightarrow> distinct (map block_region bs) \<Longrightarrow>
   (\<forall>b\<in>set bs. mb_size b = sc) \<Longrightarrow> pools_ok (pools(sc \<mapsto> bs))"
  unfolding pools_ok_def by auto

lemma block_region_update [simp]:
  "block_region (b\<lparr>mb_allocated := x\<rparr>) = block_region b"
  "block_region (b\<lparr>mb_timestamp := t\<rparr>) = block_region b"
  by (simp_all add: block_region_def)

section \<open>Preservation\<close>

lemma pool_live_upd:
  assumes "pa_allocated s p = None" and "mb_ptr b = p"
    and "pa_allocated t = (pa_allocated s)(p \<mapsto> b)"
  shows "pool_live t = insert (block_region b) (pool_live s)"
  using assms by (auto simp: pool_live_def split: if_splits)

lemma pool_liveI: "pool_inv s \<Longrightarrow> pa_allocated s p = Some b \<Longrightarrow> block_region b \<in> pool_live s"
  using pool_invD(2) [of s p b] by (auto simp: pool_live_def)

lemma pool_live_fst:
  assumes "pool_inv s"
  shows "fst ` pool_live s = dom (pa_allocated s)"
proof
  show "fst ` pool_live s \<subseteq> dom (pa_allocated s)" by (auto simp: pool_live_def)
  show "dom (pa_allocated s) \<subseteq> fst ` pool_live s"
    using pool_liveI [OF assms] pool_invD(2) [OF assms] by (force simp: image_iff)
qed

text \<open>Handing out a block that is not live keeps the invariant, wherever it came from.\<close>

lemma pool_hand_out:
  assumes inv: "pool_inv s" and free: "pa_allocated s (mb_ptr b) = None"
    and b: "mb_size b \<in> set size_classes"
    and pools: "pools_ok (pa_pools t)"
    and all: "disjoint_regions (insert (block_region b) (pooled (pa_pools t) \<union> pool_live s))"
    and out: "block_region b \<notin> pooled (pa_pools t)" "pooled (pa_pools t) \<subseteq> pooled (pa_pools s)"
    and alloc: "pa_allocated t = (pa_allocated s)(mb_ptr b \<mapsto> b)"
    and bound: "mb_ptr b + mb_size b \<le> pa_next_ptr t" "pa_next_ptr s \<le> pa_next_ptr t"
    and stats: "st_allocated (pa_stats t) = st_allocated (pa_stats s) + mb_size b"
      "st_reserved (pa_stats t) = pa_next_ptr t - 0x200000"
  shows "pool_inv t \<and> pool_live t = insert (block_region b) (pool_live s) \<and>
    block_region b \<notin> pool_live s"
proof -
  note d = pool_invD [OF inv]
  have live: "pool_live t = insert (block_region b) (pool_live s)"
    by (rule pool_live_upd [OF free refl alloc])
  have "st_allocated (pa_stats t) = map_total mb_size (pa_allocated t)"
    using stats(1) d(6,7) free by (simp add: alloc map_total_upd)
  moreover have "0 < snd r \<and> fst r + snd r \<le> pa_next_ptr t"
    if "r \<in> pooled (pa_pools t) \<union> pool_live t" for r
  proof (cases "r = block_region b")
    case True
    then show ?thesis using bound(1) size_classes_pos [OF b] by simp
  next
    case False
    then have "r \<in> pooled (pa_pools s) \<union> pool_live s" using that live out(2) by auto
    then show ?thesis using d(5) bound(2) by fastforce
  qed
  moreover have "pooled (pa_pools t) \<inter> pool_live t = {}" using live out d(4) by auto
  moreover have "disjoint_regions (pooled (pa_pools t) \<union> pool_live t)" using all live by simp
  moreover have "\<forall>p c. pa_allocated t p = Some c \<longrightarrow> mb_ptr c = p \<and> mb_size c \<in> set size_classes"
    using d(2) b by (simp add: alloc)
  moreover have "finite (dom (pa_allocated t))" using d(6) by (simp add: alloc)
  ultimately have "pool_inv t" using pools stats(2) unfolding pool_inv_def by blast
  moreover have "block_region b \<notin> pool_live s" using free by (auto simp: pool_live_def)
  ultimately show ?thesis using live by blast
qed

lemma pool_reuse:
  assumes inv: "pool_inv s" and p: "pa_pools s sc = Some bs" and bs: "bs \<noteq> []"
  defines "pools \<equiv> (pa_pools s)(sc \<mapsto> butlast bs)"
  shows "pools_ok pools" "pooled pools \<subseteq> pooled (pa_pools s)" "mb_size (last bs) = sc"
    "block_region (last bs) \<in> pooled (pa_pools s)" "block_region (last bs) \<notin> pooled pools"
    "pa_allocated s (mb_ptr (last bs)) = None"
proof -
  note d = pool_invD [OF inv]
  have bs_eq: "bs = butlast bs @ [last bs]" using bs by simp
  have dist: "distinct (map block_region bs)" and sz: "\<forall>b\<in>set bs. mb_size b = sc"
    and cls: "sc \<in> set size_classes"
    using d(1) p by (auto simp: pools_ok_def)
  have dist': "distinct (map block_region (butlast bs @ [last bs]))" using dist bs_eq by metis
  show s: "mb_size (last bs) = sc" using sz bs by simp
  have sub: "set (butlast bs) \<subseteq> set bs" by (auto dest: in_set_butlastD)
  show "pools_ok pools"
    unfolding pools_def using dist' sz sub by (intro pools_ok_upd [OF d(1) cls]) auto
  show "pooled pools \<subseteq> pooled (pa_pools s)"
    using sub pooled_split [of "pa_pools s" sc bs, OF p] unfolding pools_def pooled_upd by auto
  show mem: "block_region (last bs) \<in> pooled (pa_pools s)"
    unfolding pooled_def using p last_in_set [OF bs] by blast
  show "block_region (last bs) \<notin> pooled pools"
    using dist' s pooled_outside [OF d(1), of "block_region (last bs)" sc]
    unfolding pools_def pooled_upd by (auto simp: image_iff)
  show "pa_allocated s (mb_ptr (last bs)) = None"
  proof (rule ccontr)
    assume "pa_allocated s (mb_ptr (last bs)) \<noteq> None"
    then obtain c where c: "pa_allocated s (mb_ptr (last bs)) = Some c" by auto
    have "block_region (last bs) = block_region c"
      using mem pool_liveI [OF inv c] d(2) [OF c] d(5) [of "block_region (last bs)"]
        d(5) [of "block_region c"]
      by (intro same_address [OF d(3)]) auto
    then show False using mem pool_liveI [OF inv c] d(4) by auto
  qed
qed

lemma pool_fresh:
  assumes inv: "pool_inv s" and "0 < n"
  shows "pa_allocated s (pa_next_ptr s) = None"
    "(pa_next_ptr s, n) \<notin> pooled (pa_pools s)"
    "disjoint_regions (insert (pa_next_ptr s, n) (pooled (pa_pools s) \<union> pool_live s))"
proof -
  note d = pool_invD [OF inv]
  show "pa_allocated s (pa_next_ptr s) = None"
  proof (rule ccontr)
    assume "pa_allocated s (pa_next_ptr s) \<noteq> None"
    then obtain c where c: "pa_allocated s (pa_next_ptr s) = Some c" by auto
    then show False using d(5) [of "block_region c"] pool_liveI [OF inv c] d(2) [OF c] by auto
  qed
  show "(pa_next_ptr s, n) \<notin> pooled (pa_pools s)" using d(5) [of "(pa_next_ptr s, n)"] by auto
  have "region (pa_next_ptr s, n) \<inter> region r = {}" if "r \<in> pooled (pa_pools s) \<union> pool_live s" for r
    using d(5) [OF that] by (auto simp: region_def)
  then show "disjoint_regions (insert (pa_next_ptr s, n) (pooled (pa_pools s) \<union> pool_live s))"
    using d(3) by (simp add: disjoint_regions_insert)
qed

lemma pool_allocate_ok:
  assumes inv: "pool_inv s" and sz: "sz \<le> 1048576"
  shows "\<exists>b t. pool_allocate s sz stream now = (Inr (Some b), t) \<and> mb_size b = pool_size_class sz \<and>
    pool_inv t \<and> pool_live t = insert (block_region b) (pool_live s) \<and>
    block_region b \<notin> pool_live s \<and>
    pa_allocated s (mb_ptr b) = None"
proof -
  note d = pool_invD [OF inv]
  let ?sc = "pool_size_class sz"
  have cls: "?sc \<in> set size_classes" by (rule pool_size_class_small(1) [OF sz])
  then obtain bs where p: "pa_pools s ?sc = Some bs" using d(1) by (force simp: pools_ok_def)
  show ?thesis
  proof (cases "bs = []")
    case False
    note r = pool_reuse [OF inv p False]
    let ?b = "(last bs)\<lparr>mb_allocated := True, mb_timestamp := now\<rparr>"
    let ?t = "s\<lparr>pa_pools := (pa_pools s)(?sc \<mapsto> butlast bs),
      pa_allocated := (pa_allocated s)(mb_ptr (last bs) \<mapsto> ?b),
      pa_stats := update_stats_alloc ?sc (pa_stats s)\<rparr>"
    have "disjoint_regions (insert (block_region ?b) (pooled (pa_pools ?t) \<union> pool_live s))"
      using r(2,4) by (intro disjoint_regions_subset [OF d(3)]) auto
    then have "pool_inv ?t \<and> pool_live ?t = insert (block_region ?b) (pool_live s) \<and>
        block_region ?b \<notin> pool_live s"
      using r cls d(5) [of "block_region (last bs)"] d(8) by (intro pool_hand_out [OF inv]) auto
    moreover have "pool_allocate s sz stream now = (Inr (Some ?b), ?t)"
      using False p by (simp add: pool_allocate_def Let_def)
    ultimately show ?thesis using r(3,6) by auto
  next
    case True
    let ?b = "(new_block (pa_next_ptr s) ?sc (pa_config s) stream now)
      \<lparr>mb_allocated := True, mb_timestamp := now\<rparr>"
    let ?t = "s\<lparr>pa_next_ptr := pa_next_ptr s + ?sc,
      pa_allocated := (pa_allocated s)(pa_next_ptr s \<mapsto> ?b),
      pa_stats := update_stats_alloc ?sc (update_stats_reserve ?sc (pa_stats s))\<rparr>"
    have r: "block_region ?b = (pa_next_ptr s, ?sc)" "mb_ptr ?b = pa_next_ptr s" "mb_size ?b = ?sc"
      by (simp_all add: block_region_def new_block_def)
    have pos: "0 < ?sc" using size_classes_pos [OF cls] by simp
    have "pool_inv ?t \<and> pool_live ?t = insert (block_region ?b) (pool_live s) \<and>
        block_region ?b \<notin> pool_live s"
      using pool_fresh [OF inv pos] cls d(1,8) pos r by (intro pool_hand_out [OF inv]) auto
    moreover have "pool_allocate s sz stream now = (Inr (Some ?b), ?t)"
      using True p r by (simp add: pool_allocate_def Let_def)
    ultimately show ?thesis using r pool_fresh(1) [OF inv pos] by auto
  qed
qed

lemma pool_allocate_large:
  assumes "pools_ok (pa_pools s)" and "1048576 < sz"
  shows "pool_allocate s sz stream now = (Inl KeyError, s)"
proof -
  have "pa_pools s (pool_size_class sz) = None"
    using pool_size_class_large [OF assms(2)] assms(1) by (auto simp: pools_ok_def)
  then show ?thesis by (simp add: pool_allocate_def)
qed

lemma pool_inv_allocate:
  assumes "pool_inv s"
  shows "pool_inv (state_of (pool_allocate s sz stream now))"
  using assms pool_allocate_ok [OF assms, of sz stream now]
    pool_allocate_large [OF pool_invD(1) [OF assms], of sz stream now]
  by (cases "sz \<le> 1048576") auto

lemma pool_allocate_live:
  assumes "pool_inv s" and "result_of (pool_allocate s sz stream now) = Inr (Some b)"
  shows "block_region b \<notin> pool_live s"
    "pool_live (state_of (pool_allocate s sz stream now)) = insert (block_region b) (pool_live s)"
    "sz \<le> 1048576" "mb_size b = pool_size_class sz"
proof -
  show sz: "sz \<le> 1048576"
    using assms pool_allocate_large [OF pool_invD(1) [OF assms(1)], of sz stream now]
    by (cases "sz \<le> 1048576") auto
  show "block_region b \<notin> pool_live s"
    "pool_live (state_of (pool_allocate s sz stream now)) = insert (block_region b) (pool_live s)"
    "mb_size b = pool_size_class sz"
    using pool_allocate_ok [OF assms(1) sz, of stream now] assms(2) by auto
qed

text \<open>Releasing a live block moves its region from the live set to the pool of its class.\<close>

lemma pool_free_known:
  assumes inv: "pool_inv s" and live: "block_region b \<in> pool_live s"
  defines "t \<equiv> state_of (pool_free s b)"
  shows "result_of (pool_free s b) = Inr ()" "pool_inv t" "pool_live t = pool_live s - {block_region b}"
    "pooled (pa_pools t) = insert (block_region b) (pooled (pa_pools s))"
proof -
  note d = pool_invD [OF inv]
  obtain c where c: "pa_allocated s (mb_ptr b) = Some c" "mb_size c = mb_size b"
    using live by (auto simp: pool_live_def block_region_def)
  let ?sc = "mb_size b"
  have cls: "?sc \<in> set size_classes" using d(2) [OF c(1)] c(2) by simp
  then obtain bs where p: "pa_pools s ?sc = Some bs" using d(1) by (force simp: pools_ok_def)
  let ?b = "b\<lparr>mb_allocated := False\<rparr>"
  have eq: "pool_free s b = (Inr (), s\<lparr>pa_allocated := (pa_allocated s)(mb_ptr b := None),
      pa_pools := (pa_pools s)(?sc \<mapsto> bs @ [?b]), pa_stats := update_stats_free ?sc (pa_stats s)\<rparr>)"
    using c p by (simp add: pool_free_def Let_def pool_size_class_fixed [OF cls])
  then show "result_of (pool_free s b) = Inr ()" by simp
  have f: "pa_allocated t = (pa_allocated s)(mb_ptr b := None)"
    "pa_pools t = (pa_pools s)(?sc \<mapsto> bs @ [?b])"
    "pa_stats t = update_stats_free ?sc (pa_stats s)" "pa_next_ptr t = pa_next_ptr s"
    by (simp_all add: t_def eq)
  have out: "block_region b \<notin> pooled (pa_pools s)" using live d(4) by auto
  show l: "pool_live t = pool_live s - {block_region b}"
    using c by (auto simp: pool_live_def f block_region_def)
  show q: "pooled (pa_pools t) = insert (block_region b) (pooled (pa_pools s))"
    using pooled_split [of "pa_pools s" ?sc bs, OF p] by (auto simp: f(2) pooled_upd)
  have un: "pooled (pa_pools t) \<union> pool_live t = pooled (pa_pools s) \<union> pool_live s"
    using live l q by auto
  have "block_region b \<notin> block_region ` set bs"
    using out pooled_split [of "pa_pools s" ?sc bs, OF p] by blast
  then have "pools_ok (pa_pools t)"
    using d(1) p unfolding f(2) by (intro pools_ok_upd [OF d(1) cls]) (auto simp: pools_ok_def)
  moreover have "st_allocated (pa_stats t) = map_total mb_size (pa_allocated t)"
    using d(6,7) c by (simp add: f map_total_del)
  moreover have "\<forall>x y. pa_allocated t x = Some y \<longrightarrow> mb_ptr y = x \<and> mb_size y \<in> set size_classes"
    using d(2) by (simp add: f(1))
  moreover have "pooled (pa_pools t) \<inter> pool_live t = {}" using l q d(4) by auto
  moreover have "finite (dom (pa_allocated t))" using d(6) by (simp add: f(1))
  moreover have "st_reserved (pa_stats t) = pa_next_ptr t - 0x200000" using d(8) by (simp add: f)
  ultimately show "pool_inv t" using d(3,5) un unfolding pool_inv_def f(4) by metis
qed

lemma pool_free_unknown:
  "pool_inv s \<Longrightarrow> mb_ptr b \<notin> fst ` pool_live s \<Longrightarrow> state_of (pool_free s b) = s"
  using pool_live_fst [of s] by (auto simp: pool_free_def)

lemma pool_live_disjoint: "pool_inv s \<Longrightarrow> disjoint_regions (pool_live s)"
  by (rule disjoint_regions_subset [OF pool_invD(3)]) auto

interpretation pool_alloc: sized_allocator pool_allocate "\<lambda>s b. state_of (pool_free s b)"
  pool_inv pool_live "\<lambda>s n. n \<le> 1048576"
proof unfold_locales
  fix s n st now
  assume "pool_inv s" "\<nexists>b. result_of (pool_allocate s n st now) = Inr (Some b)"
  then show "pool_live (state_of (pool_allocate s n st now)) = pool_live s"
    using pool_allocate_ok [of s n st now] pool_allocate_large [OF pool_invD(1), of s n st now]
    by (cases "n \<le> 1048576") auto
next
  fix s n st now b
  assume "pool_inv s" "n \<le> 1048576" "result_of (pool_allocate s n st now) = Inr (Some b)"
  then show "n \<le> mb_size b"
    using pool_allocate_live(4) [of s n st now b] pool_size_class_small(2) [of n] by simp
qed (rule pool_inv_allocate pool_free_known(2,3) pool_live_disjoint
      conjI [OF pool_allocate_live(1,2)] pool_free_unknown; assumption)+

lemma pool_init_inv: "pool_inv (pool_init cfg)" "pool_live (pool_init cfg) = {}"
  by (auto simp: pool_inv_def pool_init_def pools_ok_def pooled_def pool_live_def zero_stats_def
      disjoint_regions_def split: if_splits)

lemma pool_empty_cache_inv:
  assumes "pool_inv s"
  shows "pool_inv (pool_empty_cache s)" "pool_live (pool_empty_cache s) = pool_live s"
    "pooled (pa_pools (pool_empty_cache s)) = {}"
proof -
  note d = pool_invD [OF assms]
  show l: "pool_live (pool_empty_cache s) = pool_live s"
    by (simp add: pool_live_def pool_empty_cache_def)
  show q: "pooled (pa_pools (pool_empty_cache s)) = {}"
    using d(1) by (auto simp: pooled_def pool_empty_cache_def pools_ok_def split: if_splits)
  have "pools_ok (pa_pools (pool_empty_cache s))"
    using d(1) by (auto simp: pools_ok_def pool_empty_cache_def split: if_splits)
  then show "pool_inv (pool_empty_cache s)"
    using d(2,5-8) pool_live_disjoint [OF assms] unfolding pool_inv_def l q
    by (simp add: pool_empty_cache_def)
qed

section \<open>Properties\<close>

text \<open>
  C25: however a client interleaves allocations (of any size) and releases, the blocks it holds
  never overlap, \<open>allocated\<close> is exactly the bytes of the blocks in use, and \<open>reserved\<close> is exactly
  the address range handed out so far.
\<close>

theorem pool_client_safe:
  "let (s, held) = client_run pool_allocate (\<lambda>s b. state_of (pool_free s b)) (pool_init cfg) ops
   in non_overlapping held \<and>
      st_allocated (pa_stats s) = map_total mb_size (pa_allocated s) \<and>
      st_reserved (pa_stats s) = pa_next_ptr s - 0x200000"
  using pool_alloc.run_non_overlapping [OF pool_init_inv]
    pool_invD(7,8) [OF pool_alloc.run_inv [OF pool_init_inv]]
  by (simp add: case_prod_beta)

text \<open>
  C26: a request of at most 1 MiB always succeeds, with a block of the smallest sufficient size
  class that nobody holds; a block that was just released is the next one handed out for its class.
\<close>

theorem pool_allocate_release:
  assumes "pool_inv s" and "sz \<le> 1048576"
  shows "\<exists>b t. pool_allocate s sz stream now = (Inr (Some b), t) \<and> sz \<le> mb_size b \<and>
    (\<forall>sc\<in>set size_classes. sz \<le> sc \<longrightarrow> mb_size b \<le> sc) \<and>
    pa_allocated s (mb_ptr b) = None \<and>
    result_of (pool_free t b) = Inr () \<and>
    (\<exists>c u. pool_allocate (state_of (pool_free t b)) sz stream' now' = (Inr (Some c), u) \<and>
       block_region c = block_region b)"
proof -
  obtain b t where bt: "pool_allocate s sz stream now = (Inr (Some b), t)"
    "mb_size b = pool_size_class sz" "pool_inv t" "pool_live t = insert (block_region b) (pool_live s)"
    "pa_allocated s (mb_ptr b) = None"
    using pool_allocate_ok [OF assms] by blast
  let ?u = "state_of (pool_free t b)"
  have free: "result_of (pool_free t b) = Inr ()"
    using bt by (intro pool_free_known(1)) simp_all
  have "\<forall>sc\<in>set size_classes. sz \<le> sc \<longrightarrow> pool_size_class sz \<le> sc"
    by (auto simp: size_classes_def pool_size_class_def)
  moreover have "\<exists>c u. pool_allocate ?u sz stream' now' = (Inr (Some c), u) \<and>
      block_region c = block_region b"
  proof -
    have cls: "pool_size_class sz \<in> set size_classes" by (rule pool_size_class_small(1) [OF assms(2)])
    have "mb_ptr b \<in> fst ` pool_live t" using bt(4) by simp
    then have "pa_allocated t (mb_ptr b) \<noteq> None" using pool_live_fst [OF bt(3)] by auto
    then obtain bs where "pa_pools ?u (pool_size_class sz) = Some (bs @ [b\<lparr>mb_allocated := False\<rparr>])"
      using free by (auto simp: pool_free_def Let_def bt(2) pool_size_class_fixed [OF cls]
          split: option.splits if_splits)
    then show ?thesis by (simp add: pool_allocate_def Let_def)
  qed
  ultimately show ?thesis
    using bt free pool_size_class_small(2) [OF assms(2)] by auto
qed

theorem pool_allocate_release_witness:
  "\<exists>b t. pool_allocate (pool_init default_config) 300 0 0 = (Inr (Some b), t) \<and> 300 \<le> mb_size b \<and>
     result_of (pool_free t b) = Inr ()"
  using pool_allocate_release [OF pool_init_inv(1), of 300 default_config 0 0 0 0] by auto

text \<open>
  A request above 1 MiB always raises \<open>KeyError\<close> and leaves the allocator as it was, although
  \<open>_get_size_class\<close> computes a rounded-up class for it.
\<close>

theorem pool_large_request_raises:
  assumes "pool_inv s" and "1048576 < sz"
  shows "pool_allocate s sz stream now = (Inl KeyError, s) \<and> sz \<le> pool_size_class sz"
proof -
  have "find (\<lambda>sc. sc \<ge> sz) size_classes = None"
    using assms(2) by (auto simp: find_None_iff_set size_classes_def)
  then have "pool_size_class sz = ((sz + 1048575) div 1048576) * 1048576"
    by (simp add: pool_size_class_def size_classes_def)
  moreover have "sz + 1048575 = (sz + 1048575) div 1048576 * 1048576 + (sz + 1048575) mod 1048576"
    by simp
  moreover have "(sz + 1048575) mod 1048576 \<le> 1048575" by simp
  ultimately have "sz \<le> pool_size_class sz" by linarith
  then show ?thesis
    using pool_allocate_large [OF pool_invD(1) [OF assms(1)] assms(2)] by blast
qed

theorem pool_large_request_raises_witness:
  "pool_allocate (pool_init default_config) 2000000 0 0 = (Inl KeyError, pool_init default_config)"
  using pool_large_request_raises [OF pool_init_inv(1), of 2000000 default_config 0 0] by simp

end
