(* ===== verification/Hdfs_Types.thy ===== *)
theory Hdfs_Types
  imports Prelude
begin

text \<open>
  Data of the distributed file system: \<open>34-distributed-file-system/src/hdfs/common/types.py\<close>, the
  exceptions of \<open>common/protocol.py\<close>, and the state of \<open>NameNode\<close> (\<open>namenode/namenode.py\<close>).
  Dictionaries whose order the code can observe are association lists; the two that are only
  looked up (\<open>_pending_deletions\<close>, \<open>_replications_in_flight\<close>) are maps. The clock is a parameter
  \<open>now\<close>, read once per operation.
\<close>

datatype hdfs_error =
    HDFSError | FileNotFoundError | FileExistsError | DirectoryNotEmptyError | NoDataNodeError
  | Value_Error | Key_Error | RecursionError

type_synonym block_id = string
type_synonym node_id = string

record block =
  bk_block_id :: block_id
  bk_size :: int
  bk_generation_stamp :: int

text \<open>\<open>__post_init__\<close> replaces a zero generation stamp by the clock in milliseconds.\<close>

definition mk_block :: "block_id \<Rightarrow> int \<Rightarrow> int \<Rightarrow> real \<Rightarrow> block" where
  "mk_block i n g now = \<lparr>bk_block_id = i, bk_size = n,
     bk_generation_stamp = (if g = 0 then \<lfloor>now * 1000\<rfloor> else g)\<rparr>"

record block_location =
  bl_block_id :: block_id
  bl_node_id :: node_id
  bl_host :: string
  bl_port :: int
  bl_rack :: string

record data_node_info =
  dn_node_id :: node_id
  dn_host :: string
  dn_port :: int
  dn_rack :: string
  dn_capacity :: int
  dn_used :: int
  dn_remaining :: int
  dn_last_heartbeat :: real
  dn_blocks :: "block_id list"

definition is_alive :: "real \<Rightarrow> data_node_info \<Rightarrow> bool" where
  "is_alive now n \<longleftrightarrow> now - dn_last_heartbeat n < 30"

record file_info =
  fi_path :: string
  fi_size :: int
  fi_block_size :: int
  fi_replication :: int
  fi_blocks :: "block_id list"
  fi_modification_time :: real
  fi_access_time :: real
  fi_owner :: string
  fi_group :: string
  fi_permission :: int

text \<open>\<open>FileInfo(path, replication, block_size)\<close> with the other fields at their defaults.\<close>

definition new_file :: "string \<Rightarrow> int \<Rightarrow> int \<Rightarrow> real \<Rightarrow> file_info" where
  "new_file p r bs now = \<lparr>fi_path = p, fi_size = 0, fi_block_size = bs, fi_replication = r,
     fi_blocks = [], fi_modification_time = now, fi_access_time = now, fi_owner = ''hdfs'',
     fi_group = ''supergroup'', fi_permission = 420\<rparr>"

text \<open>
  \<open>DirectoryInfo\<close>; the two quotas are the attributes that \<open>set_quota\<close> adds to the object and
  \<open>getattr\<close> reads with default None.
\<close>

record directory_info =
  di_path :: string
  di_children :: "string list"
  di_modification_time :: real
  di_owner :: string
  di_group :: string
  di_permission :: int
  di_namespace_quota :: "int option"
  di_space_quota :: "int option"

definition new_directory :: "string \<Rightarrow> real \<Rightarrow> directory_info" where
  "new_directory p now = \<lparr>di_path = p, di_children = [], di_modification_time = now,
     di_owner = ''hdfs'', di_group = ''supergroup'', di_permission = 493,
     di_namespace_quota = None, di_space_quota = None\<rparr>"

record block_report_msg =
  br_node_id :: node_id
  br_blocks :: "block_id list"

text \<open>The commands of a \<open>HeartbeatResponse\<close>: the dictionaries the code builds.\<close>

datatype command =
    ReRegister
  | DeleteBlocks "block_id list"
  | Replicate block_id node_id string int

record name_node =
  nn_default_replication :: int
  nn_default_block_size :: int
  nn_files :: "(string \<times> file_info) list"
  nn_directories :: "(string \<times> directory_info) list"
  nn_blocks :: "(block_id \<times> block) list"
  nn_block_to_nodes :: "(block_id \<times> node_id list) list"
  nn_datanodes :: "(node_id \<times> data_node_info) list"
  nn_pending_replications :: "(block_id \<times> node_id \<times> node_id) list"
  nn_pending_deletions :: "node_id \<rightharpoonup> block_id list"
  nn_in_flight :: "block_id \<rightharpoonup> node_id list"
  nn_safe_mode :: bool

definition name_node_init :: "int \<Rightarrow> int \<Rightarrow> real \<Rightarrow> name_node" where
  "name_node_init repl bsize now =
     \<lparr>nn_default_replication = repl, nn_default_block_size = bsize, nn_files = [],
      nn_directories = [(''/'', new_directory ''/'' now)], nn_blocks = [], nn_block_to_nodes = [],
      nn_datanodes = [], nn_pending_replications = [], nn_pending_deletions = Map.empty,
      nn_in_flight = Map.empty, nn_safe_mode = True\<rparr>"

text \<open>\<open>replication or self.default_replication\<close>: None and 0 give the default.\<close>

definition py_or :: "int option \<Rightarrow> int \<Rightarrow> int" where
  "py_or x d = (case x of Some v \<Rightarrow> if v = 0 then d else v | None \<Rightarrow> d)"

abbreviation file_paths :: "name_node \<Rightarrow> string set" where
  "file_paths s \<equiv> keys_of (nn_files s)"

abbreviation dir_paths :: "name_node \<Rightarrow> string set" where
  "dir_paths s \<equiv> keys_of (nn_directories s)"

type_synonym 'a nn_outcome = "(hdfs_error, 'a, name_node) outcome"

end
