(* ===== verification/Hdfs_Paths.thy ===== *)
theory Hdfs_Paths
  imports Hdfs_Types
begin

text \<open>
  Paths of the name space: \<open>_get_parent_path\<close>, \<open>_get_filename\<close> and the string methods they use,
  and the normalised absolute paths (a leading slash, no empty component, no trailing slash) on
  which the two functions invert the joining of a directory and a name.
\<close>

abbreviation slash :: char where
  "slash \<equiv> CHR ''/''"

section \<open>String methods\<close>

definition rstrip_slash :: "string \<Rightarrow> string" where
  "rstrip_slash p = rev (dropWhile (\<lambda>c. c = slash) (rev p))"

text \<open>\<open>p.rsplit("/", 1)\<close>: split at the last slash, if there is one.\<close>

definition rsplit_slash :: "string \<Rightarrow> string list" where
  "rsplit_slash p =
     (let r = rev p; name = takeWhile (\<lambda>c. c \<noteq> slash) r
      in if slash \<in> set p then [rev (drop (Suc (length name)) r), rev name] else [p])"

definition get_parent_path :: "string \<Rightarrow> string" where
  "get_parent_path p =
     (if p = ''/'' then ''/''
      else let parts = rsplit_slash (rstrip_slash p)
           in if hd parts \<noteq> [] then hd parts else ''/'')"

definition get_filename :: "string \<Rightarrow> string" where
  "get_filename p = last (rsplit_slash (rstrip_slash p))"

definition starts_with :: "string \<Rightarrow> string \<Rightarrow> bool" where
  "starts_with p q = (take (length q) p = q)"

text \<open>The path of a child, as \<open>delete_directory\<close> builds it.\<close>

definition child_path :: "string \<Rightarrow> string \<Rightarrow> string" where
  "child_path d n = (if d \<noteq> ''/'' then d @ ''/'' @ n else ''/'' @ n)"

lemma starts_with_iff: "starts_with p q \<longleftrightarrow> (\<exists>r. p = q @ r)"
  by (metis append_eq_conv_conj append_take_drop_id starts_with_def)

section \<open>Normalised paths\<close>

definition is_name :: "string \<Rightarrow> bool" where
  "is_name n \<longleftrightarrow> n \<noteq> [] \<and> slash \<notin> set n"

inductive norm_path :: "string \<Rightarrow> bool" where
  root: "norm_path ''/''"
| child: "norm_path d \<Longrightarrow> is_name n \<Longrightarrow> norm_path (child_path d n)"

inductive_cases norm_pathE: "norm_path p"

lemma rsplit_slash_append: "slash \<notin> set n \<Longrightarrow> rsplit_slash (x @ slash # n) = [x, n]"
proof -
  assume "slash \<notin> set n"
  then have "takeWhile (\<lambda>c. c \<noteq> slash) (rev n @ slash # rev x) = rev n"
    by (subst takeWhile_append2) auto
  then show ?thesis by (simp add: rsplit_slash_def Let_def)
qed

lemma rstrip_slash_id: "p = [] \<or> last p \<noteq> slash \<Longrightarrow> rstrip_slash p = p"
  by (cases p rule: rev_cases) (auto simp: rstrip_slash_def)

lemma child_path_alt: "child_path d n = (if d = ''/'' then [] else d) @ slash # n"
  by (simp add: child_path_def)

lemma child_path_ne_root [simp]: "is_name n \<Longrightarrow> child_path d n \<noteq> ''/''"
  by (cases d) (auto simp: child_path_def is_name_def)

lemma child_path_ne_self [simp]: "is_name n \<Longrightarrow> child_path d n \<noteq> d" "is_name n \<Longrightarrow> d \<noteq> child_path d n"
  by (auto simp: child_path_def is_name_def)

lemma rsplit_child:
  "is_name n \<Longrightarrow>
   rsplit_slash (rstrip_slash (child_path d n)) = [if d = ''/'' then [] else d, n]"
  by (subst rstrip_slash_id)
    (auto simp: child_path_alt is_name_def rsplit_slash_append dest: last_in_set)

lemma norm_path_ne: "norm_path p \<Longrightarrow> p \<noteq> []"
  by (induction rule: norm_path.induct) (simp_all add: child_path_def)

lemma get_parent_child [simp]:
  "norm_path d \<Longrightarrow> is_name n \<Longrightarrow> get_parent_path (child_path d n) = d"
  by (simp add: get_parent_path_def rsplit_child Let_def norm_path_ne)

lemma get_filename_child [simp]: "is_name n \<Longrightarrow> get_filename (child_path d n) = n"
  by (simp add: get_filename_def rsplit_child)

lemma norm_path_cases [consumes 1, case_names root child]:
  assumes "norm_path p"
  obtains "p = ''/''"
  | d n where "norm_path d" "is_name n" "p = child_path d n"
      "get_parent_path p = d" "get_filename p = n"
  using assms by (cases rule: norm_path.cases) auto

lemma norm_parent: "norm_path p \<Longrightarrow> norm_path (get_parent_path p)"
  by (cases p rule: norm_path_cases) (auto simp: get_parent_path_def norm_path.root)

lemma norm_join: "norm_path p \<Longrightarrow> p \<noteq> ''/'' \<Longrightarrow> child_path (get_parent_path p) (get_filename p) = p"
  by (cases p rule: norm_path_cases) auto

lemma norm_filename: "norm_path p \<Longrightarrow> p \<noteq> ''/'' \<Longrightarrow> is_name (get_filename p)"
  by (cases p rule: norm_path_cases) auto

lemma child_path_inj:
  "norm_path d \<Longrightarrow> norm_path e \<Longrightarrow> is_name n \<Longrightarrow> is_name m \<Longrightarrow>
   child_path d n = child_path e m \<longleftrightarrow> d = e \<and> n = m"
  by (metis get_filename_child get_parent_child)

lemma get_parent_path_ne [simp]: "get_parent_path p \<noteq> []"
  by (simp add: get_parent_path_def Let_def)

lemma get_parent_path_empty [simp]: "get_parent_path [] = ''/''"
  by (simp add: get_parent_path_def rsplit_slash_def rstrip_slash_def)

text \<open>Every path has a parent that is shorter, unless it is its own parent.\<close>

lemma rstrip_slash_length: "length (rstrip_slash p) \<le> length p"
  by (simp add: rstrip_slash_def) (metis length_dropWhile_le length_rev)

lemma rstrip_slash_prefix: "\<exists>r. p = rstrip_slash p @ r"
proof -
  have "rev p = takeWhile (\<lambda>c. c = slash) (rev p) @ rev (rstrip_slash p)"
    by (simp add: rstrip_slash_def)
  then have "p = rstrip_slash p @ rev (takeWhile (\<lambda>c. c = slash) (rev p))"
    by (metis rev_append rev_rev_ident)
  then show ?thesis by blast
qed

lemma parent_shorter:
  assumes "get_parent_path p \<noteq> p"
  shows "length (get_parent_path p) < length p \<or> p = []"
proof (cases "p = [] \<or> p = ''/''")
  case True
  then show ?thesis using assms by (auto simp: get_parent_path_def)
next
  case False
  let ?q = "rstrip_slash p"
  have len: "length ?q \<le> length p" by (rule rstrip_slash_length)
  show ?thesis
  proof (cases "slash \<in> set ?q")
    case True
    then have "?q \<noteq> []" by auto
    have "length (hd (rsplit_slash ?q)) < length ?q"
      using True \<open>?q \<noteq> []\<close> by (auto simp: rsplit_slash_def Let_def)
    moreover have "2 \<le> length p" if "hd (rsplit_slash ?q) = []"
    proof -
      have "last ?q \<noteq> slash"
        using \<open>?q \<noteq> []\<close> hd_dropWhile [of "\<lambda>c. c = slash" "rev p"]
        by (simp add: rstrip_slash_def last_rev)
      then have "length ?q \<noteq> 1" using True by (cases ?q) auto
      moreover have "length ?q \<noteq> 0" using \<open>?q \<noteq> []\<close> by simp
      ultimately have "2 \<le> length ?q" by linarith
      then show ?thesis using len by simp
    qed
    ultimately show ?thesis using len False by (auto simp: get_parent_path_def Let_def)
  next
    case False2: False
    then have "rsplit_slash ?q = [?q]" by (simp add: rsplit_slash_def)
    then have "get_parent_path p = (if ?q \<noteq> [] then ?q else ''/'')"
      using False by (simp add: get_parent_path_def)
    moreover have "2 \<le> length p" if "?q = []"
      using False that by (cases p rule: rev_cases; cases "butlast p")
        (auto simp: rstrip_slash_def dropWhile_eq_Nil_conv)
    moreover have "length ?q < length p" if "?q \<noteq> p"
      using that rstrip_slash_prefix [of p] by (metis append_Nil2 le_neq_implies_less len
          length_append add_0_right add_left_cancel length_0_conv)
    ultimately show ?thesis using assms by (auto split: if_splits)
  qed
qed

section \<open>Subtrees\<close>

definition subtree :: "string \<Rightarrow> string set" where
  "subtree p = {q. q = p \<or> starts_with q (p @ ''/'')}"

lemma subtree_self [simp]: "p \<in> subtree p"
  by (simp add: subtree_def)

lemma subtree_iff: "q \<in> subtree p \<longleftrightarrow> q = p \<or> (\<exists>r. q = p @ slash # r)"
  by (auto simp: subtree_def starts_with_iff)

lemma last_slash_split:
  assumes "x @ slash # n = p @ slash # r" and "slash \<notin> set n"
  shows "x = p \<or> (\<exists>r'. x = p @ slash # r')"
  using assms
proof (induction p arbitrary: x)
  case Nil
  then show ?case by (cases x) auto
next
  case (Cons a p)
  then show ?case by (cases x) (auto dest!: arg_cong [where f = set])
qed

lemma norm_path_head: "norm_path p \<Longrightarrow> \<exists>r. p = slash # r"
  by (induction rule: norm_path.induct) (auto simp: child_path_def)

text \<open>Being below \<open>q\<close> is inherited from the parent.\<close>

lemma subtree_child:
  assumes "norm_path d" "is_name n" "norm_path q" "q \<noteq> ''/''"
  shows "child_path d n \<in> subtree q \<longleftrightarrow> child_path d n = q \<or> d \<in> subtree q"
proof (cases "child_path d n = q")
  case False
  let ?x = "if d = ''/'' then [] else d"
  have c: "child_path d n = ?x @ slash # n" by (rule child_path_alt)
  have n: "slash \<notin> set n" using assms(2) by (simp add: is_name_def)
  show ?thesis
  proof
    assume "child_path d n \<in> subtree q"
    then obtain r where "?x @ slash # n = q @ slash # r" using False c by (auto simp: subtree_iff)
    then have "?x = q \<or> (\<exists>r'. ?x = q @ slash # r')" by (rule last_slash_split [OF _ n])
    moreover have "q \<noteq> []" by (rule norm_path_ne [OF assms(3)])
    ultimately show "child_path d n = q \<or> d \<in> subtree q" by (auto simp: subtree_iff split: if_splits)
  next
    assume "child_path d n = q \<or> d \<in> subtree q"
    then have "d \<in> subtree q" using False by simp
    moreover have "d \<noteq> ''/''"
      using calculation assms(4) norm_path_head [OF assms(3)] by (auto simp: subtree_iff)
    ultimately show "child_path d n \<in> subtree q" by (auto simp: subtree_iff child_path_def)
  qed
qed simp

lemma subtree_parent:
  assumes "norm_path p" "p \<noteq> ''/''" "norm_path q" "q \<noteq> ''/''"
  shows "p \<in> subtree q \<longleftrightarrow> p = q \<or> get_parent_path p \<in> subtree q"
  using subtree_child [of "get_parent_path p" "get_filename p" q] assms
  by (simp add: norm_join norm_parent norm_filename)

lemma root_not_in_subtree: "norm_path q \<Longrightarrow> q \<noteq> ''/'' \<Longrightarrow> ''/'' \<notin> subtree q"
  using norm_path_head [of q] by (auto simp: subtree_iff)

lemma parent_not_in_subtree: "norm_path p \<Longrightarrow> p \<noteq> ''/'' \<Longrightarrow> get_parent_path p \<notin> subtree p"
proof
  assume p: "norm_path p" "p \<noteq> ''/''" and "get_parent_path p \<in> subtree p"
  then have "length p \<le> length (get_parent_path p)" by (auto simp: subtree_iff)
  moreover have "get_parent_path p \<noteq> p" using p by (cases rule: norm_path_cases)
      (auto simp: child_path_def split: if_splits)
  ultimately show False using parent_shorter [of p] norm_path_ne [OF p(1)] by simp
qed

end
