(* ===== verification/Hdfs_Namespace.thy ===== *)
theory Hdfs_Namespace
  imports Hdfs_Paths
begin

text \<open>
  The name space of \<open>NameNode\<close> (\<open>namenode/namenode.py\<close>): files, directories, quotas. Operations
  return the state they leave behind also when they raise. \<open>_check_quota_for_write\<close> walks up the
  path in a loop that need not end; its value None means that it does not return.
\<close>

section \<open>Files\<close>

text \<open>The loop of \<open>delete_file\<close> over the blocks of the file.\<close>

definition queue_deletions ::
  "block_id \<Rightarrow> node_id list \<Rightarrow> (node_id \<rightharpoonup> block_id list) \<Rightarrow> (node_id \<rightharpoonup> block_id list)" where
  "queue_deletions b ns pd =
     fold (\<lambda>n pd. pd(n \<mapsto> (case pd n of None \<Rightarrow> [] | Some bs \<Rightarrow> bs) @ [b])) ns pd"

definition delete_block :: "block_id \<Rightarrow> name_node \<Rightarrow> unit nn_outcome" where
  "delete_block b s =
     (let s1 = s\<lparr>nn_pending_deletions :=
            queue_deletions b (dict_get (nn_block_to_nodes s) b []) (nn_pending_deletions s)\<rparr>
      in if b \<notin> keys_of (nn_blocks s) then (Inl Key_Error, s1)
         else (Inr (), s1\<lparr>nn_blocks := AList.delete b (nn_blocks s),
                          nn_block_to_nodes := AList.delete b (nn_block_to_nodes s)\<rparr>))"

definition discard_child :: "string \<Rightarrow> directory_info \<Rightarrow> directory_info" where
  "discard_child n d = d\<lparr>di_children := set_discard n (di_children d)\<rparr>"

definition add_child :: "string \<Rightarrow> directory_info \<Rightarrow> directory_info" where
  "add_child n d = d\<lparr>di_children := set_add n (di_children d)\<rparr>"

definition delete_file :: "name_node \<Rightarrow> string \<Rightarrow> bool nn_outcome" where
  "delete_file s p =
     (case map_of (nn_files s) p of
        None \<Rightarrow> (Inl FileNotFoundError, s)
      | Some f \<Rightarrow>
          and_then (for_each delete_block (fi_blocks f) s)
            (\<lambda>_ t. (Inr True,
               t\<lparr>nn_directories := AList.map_entry (get_parent_path p)
                    (discard_child (get_filename p)) (nn_directories t),
                 nn_files := AList.delete p (nn_files t)\<rparr>)))"

definition create_file ::
  "name_node \<Rightarrow> string \<Rightarrow> int option \<Rightarrow> int option \<Rightarrow> bool \<Rightarrow> real \<Rightarrow> file_info nn_outcome" where
  "create_file s p replication block_size overwrite now =
     and_then
       (if p \<in> file_paths s
        then if \<not> overwrite then (Inl FileExistsError, s) else delete_file s p
        else (Inr True, s))
       (\<lambda>_ t.
          let parent_path = get_parent_path p
          in if parent_path \<notin> dir_paths t then (Inl FileNotFoundError, t)
             else
               let f = new_file p (py_or replication (nn_default_replication t))
                         (py_or block_size (nn_default_block_size t)) now
               in (Inr f,
                   t\<lparr>nn_files := AList.update p f (nn_files t),
                     nn_directories := AList.map_entry parent_path
                       (\<lambda>d. (add_child (get_filename p) d)\<lparr>di_modification_time := now\<rparr>)
                       (nn_directories t)\<rparr>))"

section \<open>Renaming\<close>

text \<open>
  One of the two loops of \<open>_update_subtree_paths\<close>: it runs over a snapshot of the keys, so the
  entry that \<open>pop\<close> takes is always there.
\<close>

definition move_entry ::
  "('v \<Rightarrow> string \<Rightarrow> 'v) \<Rightarrow> string \<Rightarrow> string \<Rightarrow> string \<Rightarrow> (string \<times> 'v) list \<Rightarrow> (string \<times> 'v) list" where
  "move_entry set_path old_prefix new_prefix p d =
     (if starts_with p (old_prefix @ ''/'') then
        let new_path = new_prefix @ drop (length old_prefix) p
        in case map_of d p of
             Some v \<Rightarrow> AList.update new_path (set_path v new_path) (AList.delete p d)
           | None \<Rightarrow> d
      else d)"

definition move_entries ::
  "('v \<Rightarrow> string \<Rightarrow> 'v) \<Rightarrow> string \<Rightarrow> string \<Rightarrow> (string \<times> 'v) list \<Rightarrow> (string \<times> 'v) list" where
  "move_entries set_path old_prefix new_prefix d =
     fold (move_entry set_path old_prefix new_prefix) (map fst d) d"

definition set_file_path :: "file_info \<Rightarrow> string \<Rightarrow> file_info" where
  "set_file_path f p = f\<lparr>fi_path := p\<rparr>"

definition set_dir_path :: "directory_info \<Rightarrow> string \<Rightarrow> directory_info" where
  "set_dir_path d p = d\<lparr>di_path := p\<rparr>"

definition update_subtree_paths :: "name_node \<Rightarrow> string \<Rightarrow> string \<Rightarrow> name_node" where
  "update_subtree_paths s old_prefix new_prefix =
     s\<lparr>nn_files := move_entries set_file_path old_prefix new_prefix (nn_files s),
       nn_directories := move_entries set_dir_path old_prefix new_prefix (nn_directories s)\<rparr>"

definition rename :: "name_node \<Rightarrow> string \<Rightarrow> string \<Rightarrow> bool nn_outcome" where
  "rename s src dst =
     (if dst \<in> file_paths s \<or> dst \<in> dir_paths s then (Inl FileExistsError, s)
      else
        and_then
          (case map_of (nn_files s) src of
             Some f \<Rightarrow>
               (Inr (), s\<lparr>nn_files := AList.update dst (set_file_path f dst)
                            (AList.delete src (nn_files s))\<rparr>)
           | None \<Rightarrow>
               (case map_of (nn_directories s) src of
                  Some d \<Rightarrow>
                    (Inr (), update_subtree_paths
                       (s\<lparr>nn_directories := AList.update dst (set_dir_path d dst)
                            (AList.delete src (nn_directories s))\<rparr>) src dst)
                | None \<Rightarrow> (Inl FileNotFoundError, s)))
          (\<lambda>_ t. (Inr True,
             t\<lparr>nn_directories :=
                 AList.map_entry (get_parent_path dst) (add_child (get_filename dst))
                   (AList.map_entry (get_parent_path src) (discard_child (get_filename src))
                     (nn_directories t))\<rparr>)))"

section \<open>Directories\<close>

definition add_directory :: "name_node \<Rightarrow> string \<Rightarrow> real \<Rightarrow> directory_info nn_outcome" where
  "add_directory s p now =
     (let d = new_directory p now
      in (Inr d, s\<lparr>nn_directories :=
            AList.map_entry (get_parent_path p) (add_child (get_filename p))
              (AList.update p d (nn_directories s))\<rparr>))"

text \<open>
  \<open>mkdir\<close>. A path that is its own parent (it has no slash) makes the recursion with
  \<open>create_parents\<close> endless, which Python stops with \<open>RecursionError\<close>.
\<close>

function mkdir :: "name_node \<Rightarrow> string \<Rightarrow> bool \<Rightarrow> real \<Rightarrow> directory_info nn_outcome" where
  "mkdir s p create_parents now =
     (if p \<in> dir_paths s then (Inl FileExistsError, s)
      else
        let parent_path = get_parent_path p
        in if parent_path \<in> dir_paths s then add_directory s p now
           else if \<not> create_parents then (Inl FileNotFoundError, s)
           else if parent_path = p then (Inl RecursionError, s)
           else and_then (mkdir s parent_path True now) (\<lambda>_ t. add_directory t p now))"
  by pat_completeness auto

termination
proof (relation "measure (\<lambda>(s, p, _). if p = [] then 2 else length p)", goal_cases)
  case (2 s p cp now pp)
  then show ?case using parent_shorter [of p] by auto
qed simp

declare mkdir.simps [simp del]

text \<open>
  \<open>delete_directory\<close> with a bound on the depth of the recursion; the paths on the way get longer, so
  the longest directory path is a bound that is never reached.
\<close>

primrec delete_directory_depth :: "nat \<Rightarrow> name_node \<Rightarrow> string \<Rightarrow> bool \<Rightarrow> bool nn_outcome" where
  "delete_directory_depth 0 s p recursive = (Inl RecursionError, s)"
| "delete_directory_depth (Suc n) s p recursive =
     (case map_of (nn_directories s) p of
        None \<Rightarrow> (Inl FileNotFoundError, s)
      | Some d \<Rightarrow>
          if p = ''/'' then (Inl Value_Error, s)
          else if di_children d \<noteq> [] \<and> \<not> recursive then (Inl DirectoryNotEmptyError, s)
          else
            and_then
              (if recursive then
                 for_each
                   (\<lambda>c t. let q = child_path p c
                      in if q \<in> dir_paths t
                         then and_then (delete_directory_depth n t q True) (\<lambda>_ u. (Inr (), u))
                         else if q \<in> file_paths t
                         then and_then (delete_file t q) (\<lambda>_ u. (Inr (), u))
                         else (Inr (), t))
                   (di_children d) s
               else (Inr (), s))
              (\<lambda>_ t. (Inr True,
                 t\<lparr>nn_directories := AList.delete p
                     (AList.map_entry (get_parent_path p) (discard_child (get_filename p))
                       (nn_directories t))\<rparr>)))"

definition depth_bound :: "name_node \<Rightarrow> nat" where
  "depth_bound s = Suc (foldr max (map (length \<circ> fst) (nn_directories s)) 0)"

definition delete_directory :: "name_node \<Rightarrow> string \<Rightarrow> bool \<Rightarrow> bool nn_outcome" where
  "delete_directory s p recursive = delete_directory_depth (depth_bound s) s p recursive"

definition list_directory :: "name_node \<Rightarrow> string \<Rightarrow> hdfs_error + string list" where
  "list_directory s p =
     (case map_of (nn_directories s) p of
        None \<Rightarrow> Inl FileNotFoundError
      | Some d \<Rightarrow> Inr (sort (di_children d)))"

datatype dir_entry =
    FileEntry string int int real
  | DirEntry string real

definition list_directory_detailed :: "name_node \<Rightarrow> string \<Rightarrow> hdfs_error + dir_entry list" where
  "list_directory_detailed s p =
     (case map_of (nn_directories s) p of
        None \<Rightarrow> Inl FileNotFoundError
      | Some d \<Rightarrow>
          Inr (concat (map (\<lambda>n.
            let q = rstrip_slash p @ ''/'' @ n
            in case map_of (nn_files s) q of
                 Some f \<Rightarrow> [FileEntry n (fi_size f) (fi_replication f) (fi_modification_time f)]
               | None \<Rightarrow>
                   (case map_of (nn_directories s) q of
                      Some e \<Rightarrow> [DirEntry n (di_modification_time e)]
                    | None \<Rightarrow> [])) (sort (di_children d)))))"

datatype entry = File file_info | Directory directory_info

definition get_file_info :: "name_node \<Rightarrow> string \<Rightarrow> bool \<Rightarrow> hdfs_error + entry option" where
  "get_file_info s p raise_if_missing =
     (case map_of (nn_files s) p of
        Some f \<Rightarrow> Inr (Some (File f))
      | None \<Rightarrow>
          (case map_of (nn_directories s) p of
             Some d \<Rightarrow> Inr (Some (Directory d))
           | None \<Rightarrow> if raise_if_missing then Inl FileNotFoundError else Inr None))"

text \<open>The dictionaries of \<open>get_file_info_dict\<close>, fields in the order of the code.\<close>

datatype info_dict =
    FileDict string int int int nat "block_id list" real string string int
  | DirDict string real string string int

definition get_file_info_dict :: "name_node \<Rightarrow> string \<Rightarrow> info_dict option" where
  "get_file_info_dict s p =
     (case map_of (nn_files s) p of
        Some f \<Rightarrow>
          Some (FileDict (fi_path f) (fi_size f) (fi_block_size f) (fi_replication f)
            (length (fi_blocks f)) (fi_blocks f) (fi_modification_time f) (fi_owner f)
            (fi_group f) (fi_permission f))
      | None \<Rightarrow>
          (case map_of (nn_directories s) p of
             Some d \<Rightarrow> Some (DirDict (di_path d) (di_modification_time d) (di_owner d) (di_group d)
               (di_permission d))
           | None \<Rightarrow> None))"

section \<open>Quotas\<close>

definition set_quota :: "name_node \<Rightarrow> string \<Rightarrow> int option \<Rightarrow> int option \<Rightarrow> unit nn_outcome" where
  "set_quota s p namespace_quota space_quota =
     (if p \<notin> dir_paths s then (Inl FileNotFoundError, s)
      else (Inr (), s\<lparr>nn_directories := AList.map_entry p
        (\<lambda>d. d\<lparr>di_namespace_quota :=
                 (if namespace_quota \<noteq> None then namespace_quota else di_namespace_quota d),
               di_space_quota := (if space_quota \<noteq> None then space_quota else di_space_quota d)\<rparr>)
        (nn_directories s)\<rparr>))"

definition calculate_space_consumed :: "name_node \<Rightarrow> string \<Rightarrow> int" where
  "calculate_space_consumed s p =
     (\<Sum>(q, f)\<leftarrow>nn_files s. if starts_with q p then fi_size f else 0)"

record quota_info =
  qi_namespace_quota :: "int option"
  qi_space_quota :: "int option"
  qi_namespace_count :: nat
  qi_space_consumed :: int

definition get_quota :: "name_node \<Rightarrow> string \<Rightarrow> hdfs_error + quota_info" where
  "get_quota s p =
     (case map_of (nn_directories s) p of
        None \<Rightarrow> Inl FileNotFoundError
      | Some d \<Rightarrow> Inr \<lparr>qi_namespace_quota = di_namespace_quota d, qi_space_quota = di_space_quota d,
          qi_namespace_count = length (di_children d),
          qi_space_consumed = calculate_space_consumed s p\<rparr>)"

text \<open>The body of the loop of \<open>_check_quota_for_write\<close>: does the directory refuse the write?\<close>

definition quota_exceeded :: "name_node \<Rightarrow> string \<Rightarrow> int \<Rightarrow> bool" where
  "quota_exceeded s p n =
     (case map_of (nn_directories s) p of
        None \<Rightarrow> False
      | Some d \<Rightarrow>
          (case di_space_quota d of
             None \<Rightarrow> False
           | Some q \<Rightarrow> calculate_space_consumed s p + n > q))"

partial_function (option) check_quota_for_write ::
  "name_node \<Rightarrow> string \<Rightarrow> int \<Rightarrow> (hdfs_error + unit) option" where
  "check_quota_for_write s current_path n =
     (if current_path = ''/'' then Some (Inr ())
      else
        let parent_path = get_parent_path current_path
        in if quota_exceeded s parent_path n then Some (Inl HDFSError)
           else check_quota_for_write s parent_path n)"

definition complete_file :: "name_node \<Rightarrow> string \<Rightarrow> int \<Rightarrow> real \<Rightarrow> file_info nn_outcome option" where
  "complete_file s p n now =
     (case map_of (nn_files s) p of
        None \<Rightarrow> Some (Inl FileNotFoundError, s)
      | Some f \<Rightarrow>
          (case check_quota_for_write s p n of
             None \<Rightarrow> None
           | Some (Inl e) \<Rightarrow> Some (Inl e, s)
           | Some (Inr _) \<Rightarrow>
               (let f' = f\<lparr>fi_size := n, fi_modification_time := now\<rparr>
                in Some (Inr f', s\<lparr>nn_files := AList.update p f' (nn_files s)\<rparr>))))"

end
