(* ===== verification/Hdfs_Blocks.thy ===== *)
theory Hdfs_Blocks
  imports Hdfs_Namespace
begin

text \<open>
  Blocks and data nodes of \<open>NameNode\<close> (\<open>namenode/namenode.py\<close>): placement of new blocks,
  registration, heartbeats, block reports, removal of dead nodes, re-replication and safe mode.
\<close>

section \<open>Placement\<close>

definition block_count :: "name_node \<Rightarrow> node_id \<Rightarrow> nat" where
  "block_count s n = length (filter (\<lambda>(_, ns). n \<in> set ns) (nn_block_to_nodes s))"

definition load_score ::
  "(node_id \<Rightarrow> nat) \<Rightarrow> nat \<Rightarrow> int \<Rightarrow> node_id \<times> data_node_info \<Rightarrow> real" where
  "load_score counts max_blocks max_remaining = (\<lambda>(n, i).
     6 / 10 * (real (counts n) / real max_blocks) +
     4 / 10 * (1 - of_int (dn_remaining i) / of_int max_remaining))"

text \<open>The first pass takes at most one node per rack, the second fills up in order of load.\<close>

fun pick_racks ::
  "int \<Rightarrow> (node_id \<times> data_node_info) list \<Rightarrow> node_id list \<Rightarrow> string list \<Rightarrow> node_id list" where
  "pick_racks r [] selected racks = selected"
| "pick_racks r ((n, i) # xs) selected racks =
     (if int (length selected) \<ge> r then selected
      else if dn_rack i \<notin> set racks
      then pick_racks r xs (selected @ [n]) (set_add (dn_rack i) racks)
      else pick_racks r xs selected racks)"

fun fill_up :: "int \<Rightarrow> (node_id \<times> data_node_info) list \<Rightarrow> node_id list \<Rightarrow> node_id list" where
  "fill_up r [] selected = selected"
| "fill_up r ((n, i) # xs) selected =
     (if int (length selected) \<ge> r then selected
      else fill_up r xs (if n \<notin> set selected then selected @ [n] else selected))"

definition available_nodes :: "name_node \<Rightarrow> real \<Rightarrow> (node_id \<times> data_node_info) list" where
  "available_nodes s now =
     filter (\<lambda>(_, i). is_alive now i \<and> dn_remaining i > nn_default_block_size s) (nn_datanodes s)"

text \<open>\<open>max\<close> of an empty sequence raises; it is reached for a replication of zero or less.\<close>

definition select_datanodes_for_block :: "name_node \<Rightarrow> int \<Rightarrow> real \<Rightarrow> hdfs_error + node_id list" where
  "select_datanodes_for_block s replication now =
     (let available = available_nodes s now
      in if int (length available) < replication then Inr (map fst available)
         else if available = [] then Inl Value_Error
         else
           let m = foldr max (map (dn_remaining \<circ> snd) (tl available)) (dn_remaining (snd (hd available)));
               max_remaining = (if m = 0 then 1 else m);
               max_blocks = foldr max (map (block_count s \<circ> fst) available) 0 + 1;
               ordered = sort_key (load_score (block_count s) max_blocks max_remaining) available
           in Inr (fill_up replication ordered (pick_racks replication ordered [] [])))"

definition mk_location :: "block_id \<Rightarrow> node_id \<Rightarrow> data_node_info \<Rightarrow> block_location" where
  "mk_location b n i = \<lparr>bl_block_id = b, bl_node_id = n, bl_host = dn_host i, bl_port = dn_port i,
     bl_rack = dn_rack i\<rparr>"

text \<open>\<open>new_id\<close> is the value of \<open>generate_block_id()\<close>, a fresh UUID.\<close>

definition add_block ::
  "name_node \<Rightarrow> string \<Rightarrow> block_id \<Rightarrow> real \<Rightarrow> (block \<times> block_location list) nn_outcome" where
  "add_block s p new_id now =
     (if nn_safe_mode s then (Inl HDFSError, s)
      else case map_of (nn_files s) p of
        None \<Rightarrow> (Inl FileNotFoundError, s)
      | Some f \<Rightarrow>
          (case select_datanodes_for_block s (fi_replication f) now of
             Inl e \<Rightarrow> (Inl e, s)
           | Inr targets \<Rightarrow>
               if targets = [] then (Inl NoDataNodeError, s)
               else
                 let b = mk_block new_id 0 0 now
                 in (Inr (b, concat (map (\<lambda>n. case map_of (nn_datanodes s) n of
                                Some i \<Rightarrow> [mk_location new_id n i] | None \<Rightarrow> []) targets)),
                     s\<lparr>nn_blocks := AList.update new_id b (nn_blocks s),
                       nn_files := AList.map_entry p
                         (\<lambda>f. f\<lparr>fi_blocks := fi_blocks f @ [new_id]\<rparr>) (nn_files s)\<rparr>)))"

text \<open>
  \<open>allocate_blocks\<close>: the file and its parents are created when missing; one fresh id per block. The
  returned objects are those stored in \<open>_blocks\<close>, so setting their size changes the stored block.
\<close>

fun add_sized_blocks ::
  "string \<Rightarrow> int \<Rightarrow> real \<Rightarrow> block_id list \<Rightarrow> block list \<Rightarrow> name_node \<Rightarrow> block list nn_outcome" where
  "add_sized_blocks p bsize now [] acc s = (Inr acc, s)"
| "add_sized_blocks p bsize now (i # is) acc s =
     and_then (add_block s p i now)
       (\<lambda>(b, _) t. let b' = b\<lparr>bk_size := bsize\<rparr>
          in add_sized_blocks p bsize now is (acc @ [b'])
               (t\<lparr>nn_blocks := AList.update i b' (nn_blocks t)\<rparr>))"

definition allocate_blocks ::
  "name_node \<Rightarrow> string \<Rightarrow> block_id list \<Rightarrow> int \<Rightarrow> real \<Rightarrow> block list nn_outcome" where
  "allocate_blocks s p new_ids bsize now =
     and_then
       (if p \<notin> file_paths s then
          and_then
            (let parent = get_parent_path p
             in if parent \<notin> dir_paths s \<and> parent \<noteq> ''/''
                then and_then (mkdir s parent True now) (\<lambda>_ t. (Inr (), t)) else (Inr (), s))
            (\<lambda>_ t. and_then (create_file t p None None False now) (\<lambda>_ u. (Inr (), u)))
        else (Inr (), s))
       (\<lambda>_ t. add_sized_blocks p bsize now new_ids [] t)"

section \<open>Locations\<close>

definition get_block_locations_by_id :: "name_node \<Rightarrow> block_id \<Rightarrow> real \<Rightarrow> block_location list" where
  "get_block_locations_by_id s b now =
     concat (map (\<lambda>n. case map_of (nn_datanodes s) n of
         Some i \<Rightarrow> if is_alive now i then [mk_location b n i] else []
       | None \<Rightarrow> []) (dict_get (nn_block_to_nodes s) b []))"

definition get_block_locations_for_file ::
  "name_node \<Rightarrow> string \<Rightarrow> real \<Rightarrow> hdfs_error + block_location list list" where
  "get_block_locations_for_file s p now =
     (case map_of (nn_files s) p of
        None \<Rightarrow> Inl FileNotFoundError
      | Some f \<Rightarrow> Inr (map (\<lambda>b. get_block_locations_by_id s b now) (fi_blocks f)))"

datatype locations = OfBlock "block_location list" | OfFile "block_location list list"

definition get_block_locations :: "name_node \<Rightarrow> string \<Rightarrow> real \<Rightarrow> hdfs_error + locations" where
  "get_block_locations s x now =
     (if starts_with x ''blk_'' then Inr (OfBlock (get_block_locations_by_id s x now))
      else map_sum id OfFile (get_block_locations_for_file s x now))"

section \<open>Safe mode\<close>

definition reported_blocks :: "name_node \<Rightarrow> nat" where
  "reported_blocks s =
     length (filter (\<lambda>(b, _). dict_get (nn_block_to_nodes s) b [] \<noteq> []) (nn_blocks s))"

definition check_safe_mode :: "name_node \<Rightarrow> name_node" where
  "check_safe_mode s =
     (if \<not> nn_safe_mode s then s
      else if nn_blocks s = [] then s\<lparr>nn_safe_mode := False\<rparr>
      else if real (reported_blocks s) / real (length (nn_blocks s)) \<ge> 999 / 1000
      then s\<lparr>nn_safe_mode := False\<rparr> else s)"

definition check_safe_mode_exit :: "name_node \<Rightarrow> bool \<times> name_node" where
  "check_safe_mode_exit s =
     (if \<not> nn_safe_mode s then (True, s)
      else let t = check_safe_mode s in (\<not> nn_safe_mode t, t))"

section \<open>Re-replication\<close>

definition check_under_replicated_blocks :: "name_node \<Rightarrow> block_id list" where
  "check_under_replicated_blocks s =
     concat (map (\<lambda>(_, f). filter
       (\<lambda>b. int (length (dict_get (nn_block_to_nodes s) b [])) < fi_replication f) (fi_blocks f))
       (nn_files s))"

definition replication_target_for_block :: "name_node \<Rightarrow> block_id \<Rightarrow> int" where
  "replication_target_for_block s b =
     (case find (\<lambda>(_, f). b \<in> set (fi_blocks f)) (nn_files s) of
        Some (_, f) \<Rightarrow> fi_replication f
      | None \<Rightarrow> nn_default_replication s)"

definition live :: "name_node \<Rightarrow> real \<Rightarrow> node_id \<Rightarrow> bool" where
  "live s now n = (case map_of (nn_datanodes s) n of Some i \<Rightarrow> is_alive now i | None \<Rightarrow> False)"

definition holders :: "name_node \<Rightarrow> real \<Rightarrow> block_id \<Rightarrow> node_id list" where
  "holders s now b = filter (live s now) (dict_get (nn_block_to_nodes s) b [])"

definition in_flight :: "name_node \<Rightarrow> block_id \<Rightarrow> node_id list" where
  "in_flight s b = (case nn_in_flight s b of Some ns \<Rightarrow> ns | None \<Rightarrow> [])"

definition queued_targets :: "name_node \<Rightarrow> block_id \<Rightarrow> node_id list" where
  "queued_targets s b =
     remdups (map (snd \<circ> snd) (filter (\<lambda>(b', _). b' = b) (nn_pending_replications s)) @ in_flight s b)"

definition candidates :: "name_node \<Rightarrow> real \<Rightarrow> block_id \<Rightarrow> node_id list" where
  "candidates s now b = map fst (filter (\<lambda>(n, i). is_alive now i \<and> n \<notin> set (holders s now b) \<and>
     n \<notin> set (queued_targets s b)) (nn_datanodes s))"

definition schedule_target ::
  "block_id \<Rightarrow> node_id \<Rightarrow> node_id \<Rightarrow> name_node \<Rightarrow> name_node" where
  "schedule_target b source target s =
     s\<lparr>nn_pending_replications := nn_pending_replications s @ [(b, source, target)],
       nn_in_flight := (nn_in_flight s)(b \<mapsto> set_add target (in_flight s b))\<rparr>"

definition scan_block :: "real \<Rightarrow> block_id \<Rightarrow> nat \<times> name_node \<Rightarrow> nat \<times> name_node" where
  "scan_block now b = (\<lambda>(scheduled, s).
     let target_replication = replication_target_for_block s b; hs = holders s now b
     in if hs = [] then (scheduled, s)
        else
          let effective = int (length hs) + int (length (queued_targets s b))
          in if effective \<ge> target_replication then (scheduled, s)
             else
               let source = hd (sort hs);
                   targets = take (nat (target_replication - effective)) (sort (candidates s now b))
               in (scheduled + length targets, fold (schedule_target b source) targets s))"

definition scan_and_schedule_replication :: "real \<Rightarrow> name_node \<Rightarrow> nat \<times> name_node" where
  "scan_and_schedule_replication now s =
     fold (scan_block now) (check_under_replicated_blocks s) (0, s)"

section \<open>Data nodes\<close>

definition register_datanode ::
  "name_node \<Rightarrow> node_id \<Rightarrow> string \<Rightarrow> int \<Rightarrow> int \<Rightarrow> int \<Rightarrow> int option \<Rightarrow> string \<Rightarrow> real \<Rightarrow> bool \<times> name_node" where
  "register_datanode s n host port capacity used remaining rack now =
     (True, s\<lparr>nn_datanodes := AList.update n
        \<lparr>dn_node_id = n, dn_host = host, dn_port = port, dn_rack = rack, dn_capacity = capacity,
         dn_used = used,
         dn_remaining = (case remaining of None \<Rightarrow> capacity - used | Some r \<Rightarrow> r),
         dn_last_heartbeat = now, dn_blocks = []\<rparr> (nn_datanodes s)\<rparr>)"

text \<open>The loop that takes a node out of every entry of \<open>_block_to_nodes\<close>.\<close>

definition forget_node :: "node_id \<Rightarrow> (block_id \<times> node_id list) list \<Rightarrow> (block_id \<times> node_id list) list" where
  "forget_node n d = map (\<lambda>(b, ns). (b, set_discard n ns)) d"

definition add_replica ::
  "node_id \<Rightarrow> block_id \<Rightarrow> (block_id \<times> node_id list) list \<Rightarrow> (block_id \<times> node_id list) list" where
  "add_replica n b d = AList.update b (set_add n (dict_get d b [])) d"

definition remove_datanode :: "real \<Rightarrow> node_id \<Rightarrow> name_node \<Rightarrow> name_node" where
  "remove_datanode now n s =
     (if n \<notin> keys_of (nn_datanodes s) then s
      else snd (scan_and_schedule_replication now
        (s\<lparr>nn_block_to_nodes := forget_node n (nn_block_to_nodes s),
           nn_datanodes := AList.delete n (nn_datanodes s)\<rparr>)))"

definition check_and_remove_dead_nodes :: "real \<Rightarrow> real \<Rightarrow> name_node \<Rightarrow> node_id list \<times> name_node" where
  "check_and_remove_dead_nodes timeout now s =
     (let dead = map fst (filter (\<lambda>(_, i). now - dn_last_heartbeat i > timeout) (nn_datanodes s))
      in (dead, fold (remove_datanode now) dead s))"

text \<open>The two pieces that \<open>heartbeat\<close> and \<open>handle_heartbeat\<close> share.\<close>

definition touch_node ::
  "node_id \<Rightarrow> int \<Rightarrow> int \<Rightarrow> int option \<Rightarrow> real \<Rightarrow> name_node \<Rightarrow> name_node" where
  "touch_node n used remaining capacity now s =
     s\<lparr>nn_datanodes := AList.map_entry n
         (\<lambda>i. i\<lparr>dn_last_heartbeat := now, dn_used := used, dn_remaining := remaining,
                dn_capacity := (case capacity of Some c \<Rightarrow> c | None \<Rightarrow> dn_capacity i)\<rparr>)
         (nn_datanodes s)\<rparr>"

definition take_deletions :: "node_id \<Rightarrow> name_node \<Rightarrow> command list \<times> name_node" where
  "take_deletions n s =
     (case nn_pending_deletions s n of
        None \<Rightarrow> ([], s)
      | Some bs \<Rightarrow> (if bs \<noteq> [] then [DeleteBlocks bs] else [],
                    s\<lparr>nn_pending_deletions := (nn_pending_deletions s)(n := None)\<rparr>))"

definition deliver_replication ::
  "real \<Rightarrow> node_id \<Rightarrow> block_id \<times> node_id \<times> node_id \<Rightarrow> command list \<times> name_node \<Rightarrow>
   command list \<times> name_node" where
  "deliver_replication now n = (\<lambda>(b, source_id, target_id) (commands, s).
     if target_id \<noteq> n then (commands, s)
     else
       let s' = s\<lparr>nn_pending_replications :=
             remove1 (b, source_id, target_id) (nn_pending_replications s)\<rparr>
       in case map_of (nn_datanodes s) source_id of
            None \<Rightarrow> (commands, s'\<lparr>nn_in_flight :=
              (nn_in_flight s)(b \<mapsto> set_discard target_id (in_flight s b))\<rparr>)
          | Some i \<Rightarrow>
              if \<not> is_alive now i
              then (commands, s'\<lparr>nn_in_flight :=
                (nn_in_flight s)(b \<mapsto> set_discard target_id (in_flight s b))\<rparr>)
              else (commands @ [Replicate b source_id (dn_host i) (dn_port i)], s'))"

definition heartbeat ::
  "name_node \<Rightarrow> node_id \<Rightarrow> int \<Rightarrow> int \<Rightarrow> real \<Rightarrow> command list \<times> name_node" where
  "heartbeat s n used remaining now =
     (if n \<notin> keys_of (nn_datanodes s) then ([ReRegister], s)
      else
        let s1 = touch_node n used remaining None now s;
            s2 = snd (check_and_remove_dead_nodes 30 now s1);
            (commands, s3) = take_deletions n s2
        in fold (deliver_replication now n) (nn_pending_replications s3) (commands, s3))"

definition handle_heartbeat ::
  "name_node \<Rightarrow> node_id \<Rightarrow> int \<Rightarrow> int \<Rightarrow> int option \<Rightarrow> real \<Rightarrow> command list \<times> name_node" where
  "handle_heartbeat s n used remaining capacity now =
     (if n \<notin> keys_of (nn_datanodes s) then ([ReRegister], s)
      else
        let s1 = touch_node n used remaining capacity now s;
            s2 = snd (check_and_remove_dead_nodes 30 now s1)
        in take_deletions n s2)"

definition record_report ::
  "(block_id \<Rightarrow> bool) \<Rightarrow> node_id \<Rightarrow> block_id list \<Rightarrow> name_node \<Rightarrow> name_node" where
  "record_report known n bs s =
     s\<lparr>nn_block_to_nodes := fold (\<lambda>b d. if known b then add_replica n b d else d) bs
         (forget_node n (nn_block_to_nodes s)),
       nn_datanodes := AList.map_entry n (\<lambda>i. i\<lparr>dn_blocks := remdups bs\<rparr>) (nn_datanodes s)\<rparr>"

definition block_report :: "name_node \<Rightarrow> block_report_msg \<Rightarrow> name_node" where
  "block_report s r =
     (if br_node_id r \<notin> keys_of (nn_datanodes s) then s
      else check_safe_mode
        (record_report (\<lambda>b. b \<in> keys_of (nn_blocks s)) (br_node_id r) (br_blocks r) s))"

definition handle_block_report :: "name_node \<Rightarrow> node_id \<Rightarrow> block_id list \<Rightarrow> name_node" where
  "handle_block_report s n bs =
     (if n \<notin> keys_of (nn_datanodes s) then s
      else check_safe_mode (record_report (\<lambda>_. True) n bs s))"

definition block_received :: "name_node \<Rightarrow> node_id \<Rightarrow> block_id \<Rightarrow> int \<Rightarrow> name_node" where
  "block_received s n b sz =
     (let s1 = (if b \<in> keys_of (nn_blocks s)
                then s\<lparr>nn_blocks := AList.map_entry b (\<lambda>k. k\<lparr>bk_size := sz\<rparr>) (nn_blocks s),
                       nn_block_to_nodes := add_replica n b (nn_block_to_nodes s),
                       nn_datanodes := AList.map_entry n
                         (\<lambda>i. i\<lparr>dn_blocks := set_add b (dn_blocks i)\<rparr>) (nn_datanodes s)\<rparr>
                else s)
      in s1\<lparr>nn_in_flight := (nn_in_flight s1)(b \<mapsto> set_discard n (in_flight s1 b))\<rparr>)"

section \<open>Statistics\<close>

record statistics =
  total_files :: nat
  total_directories :: nat
  total_blocks :: nat
  total_datanodes :: nat
  total_capacity :: int
  total_used :: int
  total_remaining :: int
  safe_mode :: bool

definition get_statistics :: "name_node \<Rightarrow> statistics" where
  "get_statistics s =
     \<lparr>total_files = length (nn_files s), total_directories = length (nn_directories s),
      total_blocks = length (nn_blocks s), total_datanodes = length (nn_datanodes s),
      total_capacity = (\<Sum>(_, i)\<leftarrow>nn_datanodes s. dn_capacity i),
      total_used = (\<Sum>(_, i)\<leftarrow>nn_datanodes s. dn_used i),
      total_remaining = (\<Sum>(_, i)\<leftarrow>nn_datanodes s. dn_remaining i),
      safe_mode = nn_safe_mode s\<rparr>"

end
