(* ===== verification/Hdfs_Tree.thy ===== *)
theory Hdfs_Tree
  imports Hdfs_Blocks
begin

text \<open>
  The invariants of the name node. \<open>ns_inv\<close>: the stored paths are normalised and closed under
  parents, no path is both a file and a directory, and the children of every directory are exactly
  the names of the paths directly below it. \<open>blk_inv\<close>: the block lists of the files are disjoint and
  known to the block map. The operations that create and delete keep both.
\<close>

section \<open>The tree of paths\<close>

definition names_in :: "string set \<Rightarrow> string \<Rightarrow> string set" where
  "names_in P d = {n. is_name n \<and> child_path d n \<in> P}"

definition tree_ok :: "string set \<Rightarrow> string set \<Rightarrow> bool" where
  "tree_ok F D \<longleftrightarrow> ''/'' \<in> D \<and> F \<inter> D = {} \<and> (\<forall>p\<in>F \<union> D. norm_path p \<and> get_parent_path p \<in> D)"

definition dirs_ok :: "string set \<Rightarrow> (string \<times> directory_info) list \<Rightarrow> bool" where
  "dirs_ok P ds \<longleftrightarrow> distinct (map fst ds) \<and>
     (\<forall>d i. map_of ds d = Some i \<longrightarrow> norm_path d \<and> di_path i = d \<and> distinct (di_children i) \<and>
        set (di_children i) = names_in P d)"

definition files_ok :: "(string \<times> file_info) list \<Rightarrow> bool" where
  "files_ok fs \<longleftrightarrow> distinct (map fst fs) \<and> (\<forall>p f. map_of fs p = Some f \<longrightarrow> fi_path f = p)"

abbreviation all_paths :: "name_node \<Rightarrow> string set" where
  "all_paths s \<equiv> file_paths s \<union> dir_paths s"

definition ns_inv :: "name_node \<Rightarrow> bool" where
  "ns_inv s \<longleftrightarrow> tree_ok (file_paths s) (dir_paths s) \<and>
     dirs_ok (all_paths s) (nn_directories s) \<and> files_ok (nn_files s)"

lemma ns_invD:
  assumes "ns_inv s"
  shows "tree_ok (file_paths s) (dir_paths s)" "dirs_ok (all_paths s) (nn_directories s)"
    "files_ok (nn_files s)"
  using assms by (auto simp: ns_inv_def)

lemma ns_inv_cong:
  "nn_files t = nn_files s \<Longrightarrow> nn_directories t = nn_directories s \<Longrightarrow> ns_inv t = ns_inv s"
  by (simp add: ns_inv_def)

lemma tree_okD:
  assumes "tree_ok F D"
  shows "''/'' \<in> D" "F \<inter> D = {}" "p \<in> F \<Longrightarrow> norm_path p" "p \<in> D \<Longrightarrow> norm_path p"
    "p \<in> F \<Longrightarrow> get_parent_path p \<in> D" "p \<in> D \<Longrightarrow> get_parent_path p \<in> D" "p \<in> F \<Longrightarrow> p \<noteq> ''/''"
  using assms by (auto simp: tree_ok_def)

lemma child_eq_iff:
  assumes "norm_path p" "p \<noteq> ''/''" "norm_path d" "is_name n"
  shows "child_path d n = p \<longleftrightarrow> d = get_parent_path p \<and> n = get_filename p"
  using assms by (metis get_filename_child get_parent_child norm_join)

lemma names_in_insert:
  assumes "norm_path p" "p \<noteq> ''/''" "norm_path d"
  shows "names_in (insert p P) d =
    (if d = get_parent_path p then insert (get_filename p) (names_in P d) else names_in P d)"
proof -
  have "n \<in> names_in (insert p P) d \<longleftrightarrow>
      n \<in> names_in P d \<or> d = get_parent_path p \<and> n = get_filename p" for n
    using child_eq_iff [OF assms, of n] norm_filename [OF assms(1,2)]
    by (auto simp: names_in_def)
  then show ?thesis by (simp only: set_eq_iff) auto
qed

lemma names_in_remove:
  assumes "norm_path p" "p \<noteq> ''/''" "norm_path d"
  shows "names_in (P - {p}) d =
    (if d = get_parent_path p then names_in P d - {get_filename p} else names_in P d)"
proof -
  have "n \<in> names_in (P - {p}) d \<longleftrightarrow>
      n \<in> names_in P d \<and> \<not> (d = get_parent_path p \<and> n = get_filename p)" for n
    using child_eq_iff [OF assms, of n] by (auto simp: names_in_def)
  then show ?thesis by (simp only: set_eq_iff) auto
qed

text \<open>What \<open>children.add\<close> and \<open>children.discard\<close> do in the parent, whatever else they touch.\<close>

lemma dirs_ok_add:
  assumes ok: "dirs_ok P ds" and p: "norm_path p" "p \<noteq> ''/''"
    and f: "\<And>i. di_path (f i) = di_path i \<and> di_children (f i) = set_add (get_filename p) (di_children i)"
  shows "dirs_ok (insert p P) (AList.map_entry (get_parent_path p) f ds)"
  using assms unfolding dirs_ok_def by (auto simp: names_in_insert split: if_splits)

lemma dirs_ok_discard:
  assumes ok: "dirs_ok P ds" and p: "norm_path p" "p \<noteq> ''/''"
  shows "dirs_ok (P - {p}) (AList.map_entry (get_parent_path p) (discard_child (get_filename p)) ds)"
  using assms unfolding dirs_ok_def by (auto simp: names_in_remove discard_child_def split: if_splits)

lemma dirs_ok_delete: "dirs_ok P ds \<Longrightarrow> dirs_ok P (AList.delete d ds)"
  by (auto simp: dirs_ok_def)

lemma dirs_ok_same:
  assumes "dirs_ok P ds" and "\<And>d. d \<in> keys_of ds \<Longrightarrow> names_in Q d = names_in P d"
  shows "dirs_ok Q ds"
  using assms by (auto simp: dirs_ok_def keys_of_iff)

section \<open>Blocks of files\<close>

definition file_blocks :: "(string \<times> file_info) list \<Rightarrow> block_id list" where
  "file_blocks fs = concat (map (fi_blocks \<circ> snd) fs)"

definition blk_inv :: "name_node \<Rightarrow> bool" where
  "blk_inv s \<longleftrightarrow> distinct (map fst (nn_files s)) \<and> distinct (map fst (nn_blocks s)) \<and>
     distinct (map fst (nn_block_to_nodes s)) \<and>
     distinct (file_blocks (nn_files s)) \<and> set (file_blocks (nn_files s)) \<subseteq> keys_of (nn_blocks s)"

lemma file_blocks_delete:
  assumes "distinct (map fst fs)" and "map_of fs p = Some f"
  shows "set (file_blocks fs) = set (fi_blocks f) \<union> set (file_blocks (AList.delete p fs))"
    "distinct (file_blocks fs) \<Longrightarrow> set (fi_blocks f) \<inter> set (file_blocks (AList.delete p fs)) = {} \<and>
       distinct (fi_blocks f) \<and> distinct (file_blocks (AList.delete p fs))"
  using assms
proof (induction fs)
  case (Cons a fs)
  obtain q g where a: "a = (q, g)" by (cases a)
  {
    case 1
    then show ?case
      using Cons.IH(1) a by (auto simp: file_blocks_def delete_id split: if_splits)
  next
    case 2
    show ?case
    proof (cases "q = p")
      case True
      then have "AList.delete p fs = fs" using 2 a by (simp add: delete_id)
      then show ?thesis using 2 a True by (auto simp: file_blocks_def)
    next
      case False
      then have m: "map_of fs p = Some f" "distinct (map fst fs)" using 2 a by auto
      have s: "set (file_blocks fs) = set (fi_blocks f) \<union> set (file_blocks (AList.delete p fs))"
        using Cons.IH(1) m by simp
      have "set (fi_blocks f) \<inter> set (file_blocks (AList.delete p fs)) = {} \<and>
         distinct (fi_blocks f) \<and> distinct (file_blocks (AList.delete p fs))"
        using Cons.IH(2) 2 m a by (simp add: file_blocks_def)
      moreover have "set (fi_blocks g) \<inter> set (file_blocks fs) = {}" "distinct (fi_blocks g)"
        using 2 a by (simp_all add: file_blocks_def)
      ultimately show ?thesis using False a s by (auto simp: file_blocks_def)
    qed
  }
qed (simp_all add: file_blocks_def)

text \<open>The same in terms of lookups, for operations that reorder the files.\<close>

definition blocks_apart :: "(string \<rightharpoonup> file_info) \<Rightarrow> bool" where
  "blocks_apart m \<longleftrightarrow> (\<forall>p f. m p = Some f \<longrightarrow> distinct (fi_blocks f)) \<and>
     (\<forall>p q f g. m p = Some f \<longrightarrow> m q = Some g \<longrightarrow> p \<noteq> q \<longrightarrow> set (fi_blocks f) \<inter> set (fi_blocks g) = {})"

lemma set_file_blocks:
  "distinct (map fst fs) \<Longrightarrow>
   b \<in> set (file_blocks fs) \<longleftrightarrow> (\<exists>p f. map_of fs p = Some f \<and> b \<in> set (fi_blocks f))"
  by (force simp: file_blocks_def)

lemma blocks_apartI:
  assumes "\<And>p f. m p = Some f \<Longrightarrow> distinct (fi_blocks f)"
    and "\<And>p q f g. m p = Some f \<Longrightarrow> m q = Some g \<Longrightarrow> p \<noteq> q \<Longrightarrow> set (fi_blocks f) \<inter> set (fi_blocks g) = {}"
  shows "blocks_apart m"
  unfolding blocks_apart_def using assms by blast

lemma blocks_apartD:
  assumes "blocks_apart m"
  shows "m p = Some f \<Longrightarrow> distinct (fi_blocks f)"
    "m p = Some f \<Longrightarrow> m q = Some g \<Longrightarrow> p \<noteq> q \<Longrightarrow> set (fi_blocks f) \<inter> set (fi_blocks g) = {}"
  using assms unfolding blocks_apart_def by blast+

lemma blocks_apart_upd:
  assumes "m q = None"
  shows "blocks_apart (m(q \<mapsto> g)) \<longleftrightarrow> distinct (fi_blocks g) \<and> blocks_apart m \<and>
    (\<forall>p f. m p = Some f \<longrightarrow> set (fi_blocks g) \<inter> set (fi_blocks f) = {})" (is "?L \<longleftrightarrow> ?R")
proof
  assume L: ?L
  have m: "(m(q \<mapsto> g)) p = Some f \<and> p \<noteq> q" if "m p = Some f" for p f using that assms by auto
  have "distinct (fi_blocks g)" by (rule blocks_apartD(1) [OF L, of q]) simp
  moreover have "blocks_apart m" using blocks_apartD [OF L] m by (intro blocks_apartI) metis+
  moreover have "set (fi_blocks g) \<inter> set (fi_blocks f) = {}" if "m p = Some f" for p f
    using blocks_apartD(2) [OF L, of q g p f] m [OF that] by auto
  ultimately show ?R by blast
next
  assume R: ?R
  then show ?L
    by (intro blocks_apartI) (auto dest: blocks_apartD split: if_splits)
qed

lemma distinct_file_blocks:
  "distinct (map fst fs) \<Longrightarrow> distinct (file_blocks fs) \<longleftrightarrow> blocks_apart (map_of fs)"
proof (induction fs)
  case (Cons a fs)
  obtain q g where a: "a = (q, g)" by (cases a)
  have q: "map_of fs q = None" "distinct (map fst fs)" using Cons.prems a by (auto simp: map_of_eq_None_iff)
  have "distinct (file_blocks (a # fs)) \<longleftrightarrow> distinct (fi_blocks g) \<and> blocks_apart (map_of fs) \<and>
      set (fi_blocks g) \<inter> set (file_blocks fs) = {}"
    using Cons.IH [OF q(2)] a by (auto simp: file_blocks_def)
  moreover have "set (fi_blocks g) \<inter> set (file_blocks fs) = {} \<longleftrightarrow>
      (\<forall>p f. map_of fs p = Some f \<longrightarrow> set (fi_blocks g) \<inter> set (fi_blocks f) = {})"
    using set_file_blocks [OF q(2)] by blast
  moreover have "map_of (a # fs) = (map_of fs)(q \<mapsto> g)" using a by auto
  ultimately show ?case using blocks_apart_upd [of "map_of fs" q g, OF q(1)] by (simp only:)
qed (simp add: file_blocks_def blocks_apart_def)

section \<open>Deleting a file\<close>

definition same_namespace :: "name_node \<Rightarrow> name_node \<Rightarrow> bool" where
  "same_namespace s t \<longleftrightarrow> nn_files t = nn_files s \<and> nn_directories t = nn_directories s \<and>
     nn_datanodes t = nn_datanodes s \<and> nn_safe_mode t = nn_safe_mode s \<and>
     nn_default_replication t = nn_default_replication s \<and>
     nn_default_block_size t = nn_default_block_size s"

lemma same_namespaceD:
  assumes "same_namespace s t"
  shows "nn_files t = nn_files s" "nn_directories t = nn_directories s"
  using assms by (simp_all add: same_namespace_def)

lemma delete_block_frame: "same_namespace s (state_of (delete_block b s))"
  by (simp add: same_namespace_def delete_block_def Let_def)

lemma delete_blocks_frame: "same_namespace s (state_of (for_each delete_block bs s))"
proof (rule for_each_inv)
  show "same_namespace s s" by (simp add: same_namespace_def)
  show "same_namespace s (state_of (delete_block x t))" if "same_namespace s t" for x t
    using that delete_block_frame [of t x] by (simp add: same_namespace_def)
qed

lemma delete_blocks_ok:
  assumes "set bs \<subseteq> keys_of (nn_blocks s)" and "distinct bs"
  shows "\<exists>t. for_each delete_block bs s = (Inr (), t) \<and>
    keys_of (nn_blocks t) = keys_of (nn_blocks s) - set bs \<and>
    keys_of (nn_block_to_nodes t) = keys_of (nn_block_to_nodes s) - set bs \<and>
    (distinct (map fst (nn_blocks s)) \<longrightarrow> distinct (map fst (nn_blocks t))) \<and>
    (distinct (map fst (nn_block_to_nodes s)) \<longrightarrow> distinct (map fst (nn_block_to_nodes t)))"
  using assms
proof (induction bs arbitrary: s)
  case (Cons b bs)
  define u where "u = state_of (delete_block b s)"
  have b: "delete_block b s = (Inr (), u)"
    using Cons.prems(1) by (simp add: u_def delete_block_def Let_def)
  have k: "keys_of (nn_blocks u) = keys_of (nn_blocks s) - {b}"
    "keys_of (nn_block_to_nodes u) = keys_of (nn_block_to_nodes s) - {b}"
    "distinct (map fst (nn_blocks s)) \<longrightarrow> distinct (map fst (nn_blocks u))"
    "distinct (map fst (nn_block_to_nodes s)) \<longrightarrow> distinct (map fst (nn_block_to_nodes u))"
    using Cons.prems(1) by (simp_all add: u_def delete_block_def Let_def)
  have "set bs \<subseteq> keys_of (nn_blocks u)" "distinct bs" using Cons.prems k(1) by auto
  from Cons.IH [OF this] show ?case using b k by auto
qed simp

lemma delete_file_ok:
  assumes "blk_inv s" and p: "p \<in> file_paths s"
  shows "\<exists>t. delete_file s p = (Inr True, t) \<and> blk_inv t \<and>
    nn_files t = AList.delete p (nn_files s) \<and>
    nn_directories t = AList.map_entry (get_parent_path p) (discard_child (get_filename p))
      (nn_directories s)"
proof -
  obtain f where f: "map_of (nn_files s) p = Some f" using p by (auto simp: keys_of_iff)
  note d = file_blocks_delete [OF _ f]
  have inv: "distinct (map fst (nn_files s))" "distinct (map fst (nn_blocks s))"
    "distinct (map fst (nn_block_to_nodes s))" "distinct (file_blocks (nn_files s))"
    "set (file_blocks (nn_files s)) \<subseteq> keys_of (nn_blocks s)"
    using assms(1) by (simp_all add: blk_inv_def)
  have "set (fi_blocks f) \<subseteq> keys_of (nn_blocks s)" "distinct (fi_blocks f)"
    using d [OF inv(1)] inv(4,5) by auto
  then obtain t where t: "for_each delete_block (fi_blocks f) s = (Inr (), t)"
    "keys_of (nn_blocks t) = keys_of (nn_blocks s) - set (fi_blocks f)"
    "distinct (map fst (nn_blocks t))" "distinct (map fst (nn_block_to_nodes t))"
    using delete_blocks_ok [of "fi_blocks f" s] inv(2,3) by auto
  have same: "nn_files t = nn_files s" "nn_directories t = nn_directories s"
    using same_namespaceD [OF delete_blocks_frame [of s "fi_blocks f"]] t(1) by auto
  define u where "u = state_of (delete_file s p)"
  have u: "delete_file s p = (Inr True, u)" using f t(1) by (simp add: u_def delete_file_def)
  have fields: "nn_files u = AList.delete p (nn_files s)" "nn_blocks u = nn_blocks t"
    "nn_block_to_nodes u = nn_block_to_nodes t"
    "nn_directories u = AList.map_entry (get_parent_path p) (discard_child (get_filename p))
      (nn_directories s)"
    using f t(1) same by (simp_all add: u_def delete_file_def)
  have "blk_inv u"
    unfolding blk_inv_def fields using inv t d [OF inv(1)] by (auto simp: distinct_delete)
  then show ?thesis using u fields by blast
qed

lemma ns_delete_file:
  assumes inv: "ns_inv s" and "p \<in> file_paths s"
    and t: "nn_files t = AList.delete p (nn_files s)"
      "nn_directories t = AList.map_entry (get_parent_path p) (discard_child (get_filename p))
        (nn_directories s)"
  shows "ns_inv t" "file_paths t = file_paths s - {p}" "dir_paths t = dir_paths s"
proof -
  note d = ns_invD [OF inv] and tr = tree_okD [OF ns_invD(1) [OF inv]]
  show F: "file_paths t = file_paths s - {p}" and D: "dir_paths t = dir_paths s"
    using t by simp_all
  have p: "norm_path p" "p \<noteq> ''/''" "p \<notin> dir_paths s" using assms(2) tr(2,3,7) by auto
  have "all_paths t = all_paths s - {p}" using F D p(3) by auto
  then have "dirs_ok (all_paths t) (nn_directories t)"
    using dirs_ok_discard [OF d(2) p(1,2)] t(2) by simp
  moreover have "tree_ok (file_paths t) (dir_paths t)"
    using d(1) F D by (auto simp: tree_ok_def)
  moreover have "files_ok (nn_files t)" using d(3) t(1) by (auto simp: files_ok_def)
  ultimately show "ns_inv t" by (simp add: ns_inv_def)
qed

text \<open>Also when it raises, \<open>delete_file\<close> leaves a well-formed name space.\<close>

lemma delete_file_cases:
  "(nn_files (state_of (delete_file s p)) = nn_files s \<and>
      nn_directories (state_of (delete_file s p)) = nn_directories s \<and>
      (\<exists>e. result_of (delete_file s p) = Inl e)) \<or>
   (p \<in> file_paths s \<and> result_of (delete_file s p) = Inr True \<and>
      nn_files (state_of (delete_file s p)) = AList.delete p (nn_files s) \<and>
      nn_directories (state_of (delete_file s p)) = AList.map_entry (get_parent_path p)
        (discard_child (get_filename p)) (nn_directories s))"
proof (cases "map_of (nn_files s) p")
  case (Some f)
  then show ?thesis
    using delete_blocks_frame [of s "fi_blocks f"]
    by (cases "for_each delete_block (fi_blocks f) s")
      (auto simp: delete_file_def and_then_def same_namespace_def keys_of_iff split: sum.splits)
qed (simp add: delete_file_def)

lemma delete_file_ns: "ns_inv s \<Longrightarrow> ns_inv (state_of (delete_file s p))"
  using delete_file_cases [of s p] ns_delete_file(1) ns_inv_cong by metis

lemma delete_file_blk:
  assumes "blk_inv s"
  shows "blk_inv (state_of (delete_file s p))"
proof (cases "p \<in> file_paths s")
  case True
  from delete_file_ok [OF assms this] show ?thesis by auto
next
  case False
  then have "map_of (nn_files s) p = None" by (simp add: map_of_eq_None_keys)
  then show ?thesis using assms by (simp add: delete_file_def)
qed

section \<open>Creating files and directories\<close>

lemma ns_add_file:
  assumes inv: "ns_inv s" and p: "norm_path p" "p \<notin> all_paths s" "get_parent_path p \<in> dir_paths s"
    and t: "nn_files t = AList.update p f (nn_files s)" "fi_path f = p"
      "nn_directories t = AList.map_entry (get_parent_path p) g (nn_directories s)"
    and g: "\<And>i. di_path (g i) = di_path i \<and> di_children (g i) = set_add (get_filename p) (di_children i)"
  shows "ns_inv t" "file_paths t = insert p (file_paths s)" "dir_paths t = dir_paths s"
proof -
  note d = ns_invD [OF inv] and tr = tree_okD [OF ns_invD(1) [OF inv]]
  show F: "file_paths t = insert p (file_paths s)" and D: "dir_paths t = dir_paths s"
    using t by simp_all
  have root: "p \<noteq> ''/''" using p(2) tr(1) by blast
  have "dirs_ok (all_paths t) (nn_directories t)"
    using dirs_ok_add [OF d(2) p(1) root, of g] g t(3) F D by simp
  moreover have "tree_ok (file_paths t) (dir_paths t)"
    using d(1) F D p by (auto simp: tree_ok_def)
  moreover have "files_ok (nn_files t)" using d(3) t by (auto simp: files_ok_def)
  ultimately show "ns_inv t" by (simp add: ns_inv_def)
qed

lemma create_file_ns:
  assumes inv: "ns_inv s" and p: "norm_path p" "p \<notin> dir_paths s"
  shows "ns_inv (state_of (create_file s p r b ov now))"
proof -
  let ?g = "\<lambda>d. (add_child (get_filename p) d)\<lparr>di_modification_time := now\<rparr>"
  define m where "m = (if p \<in> file_paths s
    then if \<not> ov then (Inl FileExistsError, s) else delete_file s p else (Inr True, s))"
  have m: "ns_inv (state_of m)" "dir_paths (state_of m) = dir_paths s"
    "\<And>x. result_of m = Inr x \<Longrightarrow> p \<notin> file_paths (state_of m)"
    using inv delete_file_ns [OF inv, of p] delete_file_cases [of s p]
    by (auto simp: m_def split: if_splits)
  show ?thesis
  proof (cases m)
    case (Pair v t)
    show ?thesis
    proof (cases v)
      case (Inr x)
      then have t: "ns_inv t" "p \<notin> all_paths t" using m Pair p(2) by auto
      let ?f = "new_file p (py_or r (nn_default_replication t)) (py_or b (nn_default_block_size t)) now"
      let ?u = "t\<lparr>nn_files := AList.update p ?f (nn_files t),
        nn_directories := AList.map_entry (get_parent_path p) ?g (nn_directories t)\<rparr>"
      have "ns_inv ?u" if "get_parent_path p \<in> dir_paths t"
        by (rule ns_add_file(1) [OF t(1) p(1) t(2) that, where f = ?f and g = ?g])
          (simp_all add: new_file_def add_child_def)
      then show ?thesis
        using Pair Inr t(1) by (simp add: create_file_def m_def [symmetric] Let_def)
    qed (use Pair m(1) in \<open>simp add: create_file_def m_def [symmetric]\<close>)
  qed
qed

lemma blk_inv_new_file:
  assumes "blk_inv s" "p \<notin> file_paths s" "fi_blocks f = []"
    and "nn_files t = AList.update p f (nn_files s)" "nn_blocks t = nn_blocks s"
      "nn_block_to_nodes t = nn_block_to_nodes s"
  shows "blk_inv t"
proof -
  have "file_blocks (nn_files t) = file_blocks (nn_files s)"
    using assms(2-4) by (simp add: update_new_key file_blocks_def)
  then show ?thesis using assms by (simp add: blk_inv_def)
qed

lemma create_file_blk:
  assumes inv: "blk_inv s"
  shows "blk_inv (state_of (create_file s p r b ov now))"
proof -
  define m where "m = (if p \<in> file_paths s
    then if \<not> ov then (Inl FileExistsError, s) else delete_file s p else (Inr True, s))"
  have m: "blk_inv (state_of m)" "\<And>x. result_of m = Inr x \<Longrightarrow> p \<notin> file_paths (state_of m)"
    using inv delete_file_blk [OF inv, of p] delete_file_cases [of s p]
    by (auto simp: m_def split: if_splits)
  show ?thesis
  proof (cases m)
    case (Pair v t)
    show ?thesis
    proof (cases v)
      case (Inr x)
      then have t: "blk_inv t" "p \<notin> file_paths t" using m Pair by auto
      let ?f = "new_file p (py_or r (nn_default_replication t)) (py_or b (nn_default_block_size t)) now"
      have "blk_inv (t\<lparr>nn_files := AList.update p ?f (nn_files t), nn_directories := ds\<rparr>)" for ds
        by (rule blk_inv_new_file [OF t, where f = ?f]) (simp_all add: new_file_def)
      then show ?thesis
        using Pair Inr t(1) by (simp add: create_file_def m_def [symmetric] Let_def)
    qed (use Pair m(1) in \<open>simp add: create_file_def m_def [symmetric]\<close>)
  qed
qed

text \<open>A directory that is not there yet has nothing below it.\<close>

lemma names_in_empty:
  assumes "tree_ok F D" "p \<notin> D" "norm_path p"
  shows "names_in (insert p (F \<union> D)) p = {}"
proof -
  have "False" if "is_name n" "child_path p n \<in> insert p (F \<union> D)" for n
  proof -
    have "child_path p n \<noteq> p" using that(1) by simp
    then have "get_parent_path (child_path p n) \<in> D" using that assms(1) by (auto simp: tree_ok_def)
    then show False using that assms(2,3) by simp
  qed
  then show ?thesis by (auto simp: names_in_def)
qed

lemma ns_add_directory:
  fixes now
  assumes inv: "ns_inv s" and p: "norm_path p" "p \<notin> all_paths s" "get_parent_path p \<in> dir_paths s"
  defines "t \<equiv> state_of (add_directory s p now)"
  shows "ns_inv t" "file_paths t = file_paths s" "dir_paths t = insert p (dir_paths s)"
proof -
  note d = ns_invD [OF inv] and tr = tree_okD [OF ns_invD(1) [OF inv]]
  have f: "nn_files t = nn_files s" "nn_directories t = AList.map_entry (get_parent_path p)
      (add_child (get_filename p)) (AList.update p (new_directory p now) (nn_directories s))"
    by (simp_all add: t_def add_directory_def Let_def)
  show F: "file_paths t = file_paths s" and D: "dir_paths t = insert p (dir_paths s)"
    using f by simp_all
  have root: "p \<noteq> ''/''" using p(2) tr(1) by blast
  have "names_in (all_paths s) p = {}"
    using names_in_empty [OF d(1) _ p(1)] p(2) by (auto simp: names_in_def)
  then have "dirs_ok (all_paths s) (AList.update p (new_directory p now) (nn_directories s))"
    using d(2) p(1) by (auto simp: dirs_ok_def new_directory_def)
  then have "dirs_ok (insert p (all_paths s)) (nn_directories t)"
    unfolding f(2) by (rule dirs_ok_add [OF _ p(1) root]) (simp add: add_child_def)
  then have "dirs_ok (all_paths t) (nn_directories t)" using F D by simp
  moreover have "tree_ok (file_paths t) (dir_paths t)"
    using d(1) F D p by (auto simp: tree_ok_def)
  moreover have "files_ok (nn_files t)" using d(3) f by simp
  ultimately show "ns_inv t" by (simp add: ns_inv_def)
qed

lemma norm_parent_neq: "norm_path p \<Longrightarrow> p \<noteq> ''/'' \<Longrightarrow> get_parent_path p \<noteq> p"
  using parent_not_in_subtree by force

lemma root_dir: "ns_inv s \<Longrightarrow> ''/'' \<in> dir_paths s"
  using ns_invD(1) tree_okD(1) by blast

text \<open>
  \<open>mkdir(path, create_parents=True)\<close> creates the missing directories on the way, and nothing else,
  when no file stands in the way.
\<close>

lemma mkdir_parents_ok:
  assumes "ns_inv s" "norm_path p" "p \<notin> dir_paths s" "\<forall>q\<in>file_paths s. p \<notin> subtree q"
  shows "\<exists>t. mkdir s p True now = (Inr (new_directory p now), t) \<and> ns_inv t \<and>
    file_paths t = file_paths s \<and>
    dir_paths t = dir_paths s \<union> {q. norm_path q \<and> q \<noteq> ''/'' \<and> p \<in> subtree q} \<and>
    nn_files t = nn_files s \<and> nn_blocks t = nn_blocks s \<and> nn_block_to_nodes t = nn_block_to_nodes s"
  using assms(2-4)
proof (induction rule: norm_path.induct)
  case root
  then show ?case using root_dir [OF assms(1)] by simp
next
  case (child d n)
  let ?p = "child_path d n" and ?Q = "\<lambda>p. {q. norm_path q \<and> q \<noteq> ''/'' \<and> p \<in> subtree q}"
  have p: "norm_path ?p" "?p \<noteq> ''/''" "get_parent_path ?p = d" "d \<noteq> ?p"
    using norm_path.child [OF child.hyps(1,2)] child.hyps(1,2) by simp_all
  have Q: "?Q ?p = insert ?p (?Q d)"
    using subtree_child [OF child.hyps(1,2)] p(1,2) by auto
  have files: "\<forall>q\<in>file_paths s. d \<notin> subtree q" "?p \<notin> file_paths s"
    using child.prems(2) tree_okD(3,7) [OF ns_invD(1) [OF assms(1)]]
      subtree_child [OF child.hyps(1,2)] by auto
  show ?case
  proof (cases "d \<in> dir_paths s")
    case True
    have up: "norm_path q \<Longrightarrow> q \<noteq> ''/'' \<Longrightarrow> d \<in> subtree q \<Longrightarrow> q \<in> dir_paths s" for q
      using child.hyps(1) True
    proof (induction rule: norm_path.induct)
      case (child e m)
      then show ?case
        using subtree_child [OF child.hyps(1,2) child.prems(1,2)]
          tree_okD(6) [OF ns_invD(1) [OF assms(1)] child.prems(4)] by auto
    qed (use root_not_in_subtree in blast)
    have "mkdir s ?p True now = (Inr (new_directory ?p now), state_of (add_directory s ?p now))"
      using child.prems(1) p True by (subst mkdir.simps) (simp add: add_directory_def Let_def)
    then show ?thesis
      using ns_add_directory [OF assms(1) p(1), of now] child.prems(1) files(2) p(3) True Q up
      by (auto simp: add_directory_def Let_def)
  next
    case False
    from child.IH [OF False files(1)] obtain t where
      t: "mkdir s d True now = (Inr (new_directory d now), t)" "ns_inv t"
        "file_paths t = file_paths s" "dir_paths t = dir_paths s \<union> ?Q d"
        "nn_files t = nn_files s" "nn_blocks t = nn_blocks s"
        "nn_block_to_nodes t = nn_block_to_nodes s" by blast
    have "d \<noteq> ''/''" using False root_dir [OF assms(1)] by blast
    then have d: "d \<in> dir_paths t" using t(4) child.hyps(1) by simp
    have "?p \<notin> ?Q d" using parent_not_in_subtree [OF p(1,2)] p(3) by simp
    then have "?p \<notin> all_paths t" using child.prems(1) files(2) t(3,4) by simp
    from ns_add_directory [OF t(2) p(1) this, of now] d p(3)
    have "ns_inv (state_of (add_directory t ?p now))"
      "file_paths (state_of (add_directory t ?p now)) = file_paths s"
      "dir_paths (state_of (add_directory t ?p now)) = dir_paths s \<union> ?Q ?p"
      using t(3,4) Q by auto
    moreover have "mkdir s ?p True now = add_directory t ?p now"
      using child.prems(1) p False t(1) by (subst mkdir.simps) simp
    ultimately show ?thesis using t(5-7) by (auto simp: add_directory_def Let_def)
  qed
qed

lemma mkdir_blk:
  "nn_files (state_of (mkdir s p cp now)) = nn_files s \<and>
   nn_blocks (state_of (mkdir s p cp now)) = nn_blocks s \<and>
   nn_block_to_nodes (state_of (mkdir s p cp now)) = nn_block_to_nodes s"
proof (induction s p cp now rule: mkdir.induct)
  case (1 s p cp now)
  then show ?case
    by (subst (1 2 3) mkdir.simps)
      (auto simp: Let_def add_directory_def and_then_def split: prod.splits sum.splits)
qed

lemma mkdir_ns:
  assumes "ns_inv s" "norm_path p" "\<forall>q\<in>file_paths s. p \<notin> subtree q"
  shows "ns_inv (state_of (mkdir s p cp now))"
proof (cases "p \<in> dir_paths s \<or> cp")
  case True
  then show ?thesis
  proof
    assume "p \<in> dir_paths s"
    then show ?thesis using assms(1) by (subst mkdir.simps) simp
  next
    assume cp: cp
    show ?thesis
    proof (cases "p \<in> dir_paths s")
      case True
      then show ?thesis using assms(1) by (subst mkdir.simps) simp
    next
      case False
      from mkdir_parents_ok [OF assms(1,2) False assms(3), of now] cp show ?thesis by auto
    qed
  qed
next
  case False
  have "p \<notin> file_paths s" using assms(3) by auto
  then show ?thesis
    using False assms(1) ns_add_directory(1) [OF assms(1,2)]
    by (subst mkdir.simps) (auto simp: Let_def)
qed

end
