(* ===== verification/Hdfs_Delete.thy ===== *)
theory Hdfs_Delete
  imports Hdfs_Tree
begin

text \<open>
  Recursive deletion of a directory: it removes exactly the subtree, never runs out of its depth
  bound, and keeps the invariants.
\<close>

section \<open>Subtrees of a well-formed tree\<close>

lemma child_parent_in:
  assumes "tree_ok F D" "norm_path d" "is_name n" "child_path d n \<in> F \<union> D"
  shows "d \<in> D"
  using tree_okD(5,6) [OF assms(1), of "child_path d n"] assms by auto

lemma subtree_closed:
  assumes "tree_ok F D" "norm_path p" "p \<noteq> ''/''" "q \<in> F \<union> D" "q \<in> subtree p"
  shows "q = p \<or> p \<in> D"
proof -
  have "norm_path q" using assms by (auto simp: tree_ok_def)
  then show ?thesis
    using assms(4,5)
  proof (induction rule: norm_path.induct)
    case root
    then show ?case using root_not_in_subtree [OF assms(2,3)] by blast
  next
    case (child d n)
    have "d \<in> D" using child_parent_in [OF assms(1) child.hyps(1,2) child.prems(1)] .
    then show ?case
      using child subtree_child [OF child.hyps(1,2) assms(2,3)] by auto
  qed
qed

lemma subtree_file:
  assumes "tree_ok F D" "p \<in> F"
  shows "subtree p \<inter> (F \<union> D) = {p}"
proof -
  have "norm_path p" "p \<noteq> ''/''" "p \<notin> D" using tree_okD(2,3,7) [OF assms(1)] assms(2) by auto
  then show ?thesis using subtree_closed [OF assms(1), of p] assms(2) by auto
qed

lemma subtree_children:
  assumes "tree_ok F D" "norm_path p" "p \<noteq> ''/''" "q \<in> F \<union> D" "q \<in> subtree p"
  shows "q = p \<or> (\<exists>c\<in>names_in (F \<union> D) p. q \<in> subtree (child_path p c))"
proof -
  have "norm_path q" using assms by (auto simp: tree_ok_def)
  then show ?thesis
    using assms(4,5)
  proof (induction rule: norm_path.induct)
    case root
    then show ?case using root_not_in_subtree [OF assms(2,3)] by blast
  next
    case (child d n)
    have d: "d \<in> D" using child_parent_in [OF assms(1) child.hyps(1,2) child.prems(1)] .
    have "child_path d n = p \<or> d \<in> subtree p"
      using child.prems(2) subtree_child [OF child.hyps(1,2) assms(2,3)] by simp
    then show ?case
    proof
      assume "d \<in> subtree p"
      then have "d = p \<or> (\<exists>c\<in>names_in (F \<union> D) p. d \<in> subtree (child_path p c))"
        using child.IH d by blast
      then show ?thesis
      proof
        assume "d = p"
        then show ?thesis using child.prems(1) child.hyps(2) by (auto simp: names_in_def)
      next
        assume "\<exists>c\<in>names_in (F \<union> D) p. d \<in> subtree (child_path p c)"
        then obtain c where c: "c \<in> names_in (F \<union> D) p" "d \<in> subtree (child_path p c)" by blast
        then have "is_name c" by (simp add: names_in_def)
        then have "child_path d n \<in> subtree (child_path p c)"
          using subtree_child [OF child.hyps(1,2) norm_path.child [OF assms(2)]] c(2) by simp
        then show ?thesis using c(1) by blast
      qed
    qed simp
  qed
qed

lemma subtree_trans: "q \<in> subtree p \<Longrightarrow> r \<in> subtree q \<Longrightarrow> r \<in> subtree p"
  by (auto simp: subtree_iff)

lemma child_in_subtree: "p \<noteq> ''/'' \<Longrightarrow> child_path p c \<in> subtree p"
  by (auto simp: subtree_iff child_path_def)

lemma siblings_disjoint:
  assumes "norm_path p" "is_name c" "is_name c'" "c \<noteq> c'"
  shows "child_path p c' \<notin> subtree (child_path p c)"
  using subtree_child [OF assms(1,3) norm_path.child [OF assms(1,2)]]
    parent_not_in_subtree [OF norm_path.child [OF assms(1,2)]] assms child_path_inj
  by auto

section \<open>What a deletion leaves behind\<close>

definition removed :: "string set \<Rightarrow> name_node \<Rightarrow> name_node \<Rightarrow> bool" where
  "removed R s t \<longleftrightarrow> ns_inv t \<and> blk_inv t \<and> file_paths t = file_paths s - R \<and>
     dir_paths t = dir_paths s - R \<and>
     (\<forall>q. q \<notin> R \<longrightarrow> map_of (nn_files t) q = map_of (nn_files s) q)"

lemma removed_refl: "ns_inv s \<Longrightarrow> blk_inv s \<Longrightarrow> removed {} s s"
  by (simp add: removed_def)

lemma removed_trans: "removed R s t \<Longrightarrow> removed R' t u \<Longrightarrow> removed (R \<union> R') s u"
  by (auto simp: removed_def)

lemma removed_weaken:
  "removed R s t \<Longrightarrow> R \<subseteq> R' \<Longrightarrow> R' \<inter> all_paths s \<subseteq> R \<Longrightarrow> removed R' s t"
  unfolding removed_def by (auto simp: set_eq_iff)

lemma delete_file_removed:
  assumes "ns_inv s" "blk_inv s" "p \<in> file_paths s"
  shows "\<exists>t. delete_file s p = (Inr True, t) \<and> removed (subtree p) s t"
proof -
  obtain t where t: "delete_file s p = (Inr True, t)" "blk_inv t"
    "nn_files t = AList.delete p (nn_files s)"
    "nn_directories t = AList.map_entry (get_parent_path p) (discard_child (get_filename p))
      (nn_directories s)"
    using delete_file_ok [OF assms(2,3)] by blast
  note n = ns_delete_file [OF assms(1,3) t(3,4)]
  have "p \<notin> dir_paths s" using tree_okD(2) [OF ns_invD(1) [OF assms(1)]] assms(3) by blast
  then have "removed {p} s t" using n t(2,3) by (simp add: removed_def)
  then have "removed (subtree p) s t"
    by (rule removed_weaken) (use subtree_file [OF ns_invD(1) [OF assms(1)] assms(3)] in auto)
  then show ?thesis using t(1) by blast
qed

lemma remove_empty_dir:
  assumes inv: "ns_inv s" "blk_inv s" and p: "p \<in> dir_paths s" "p \<noteq> ''/''"
    and none: "names_in (all_paths s) p = {}"
  defines "t \<equiv> s\<lparr>nn_directories := AList.delete p (AList.map_entry (get_parent_path p)
    (discard_child (get_filename p)) (nn_directories s))\<rparr>"
  shows "removed {p} s t"
proof -
  note d = ns_invD [OF inv(1)] and tr = tree_okD [OF ns_invD(1) [OF inv(1)]]
  have f: "nn_files t = nn_files s" "nn_directories t = AList.delete p (AList.map_entry
      (get_parent_path p) (discard_child (get_filename p)) (nn_directories s))"
    "nn_blocks t = nn_blocks s" "nn_block_to_nodes t = nn_block_to_nodes s"
    by (simp_all add: t_def)
  have norm: "norm_path p" and out: "p \<notin> file_paths s" using p tr(2,4) by auto
  have D: "dir_paths t = dir_paths s - {p}" and F: "file_paths t = file_paths s"
    using f by simp_all
  have all: "all_paths t = all_paths s - {p}" using D F out by auto
  have "dirs_ok (all_paths s - {p}) (nn_directories t)"
    unfolding f(2) using d(2) norm p(2) by (intro dirs_ok_delete dirs_ok_discard)
  moreover have par: "get_parent_path q \<noteq> p" if q: "q \<in> all_paths s - {p}" for q
  proof
    assume *: "get_parent_path q = p"
    have "norm_path q" using q tr(3,4) by auto
    then show False
    proof (cases rule: norm_path_cases)
      case root
      then show ?thesis using * p(2) by (simp add: get_parent_path_def)
    next
      case (child e n)
      then show ?thesis using * q none by (auto simp: names_in_def)
    qed
  qed
  moreover have "tree_ok (file_paths t) (dir_paths t)"
  proof -
    have "norm_path q \<and> get_parent_path q \<in> dir_paths s - {p}" if "q \<in> all_paths s - {p}" for q
      using that tr(3-6) par [OF that] by blast
    then show ?thesis
      unfolding tree_ok_def using tr(1,2) p(2) D F all by auto
  qed
  ultimately have "ns_inv t" using d(3) f(1) all by (simp add: ns_inv_def)
  moreover have "blk_inv t" using inv(2) f by (simp add: blk_inv_def)
  ultimately show ?thesis using D F f out by (auto simp: removed_def)
qed

section \<open>The loop over the children and the recursion\<close>

lemma for_each_removed:
  assumes p: "norm_path p"
    and body: "\<And>c t. c \<in> set cs \<Longrightarrow> ns_inv t \<Longrightarrow> blk_inv t \<Longrightarrow> dir_paths t \<subseteq> B \<Longrightarrow>
        child_path p c \<in> all_paths t \<Longrightarrow>
        \<exists>u. f c t = (Inr (), u) \<and> removed (subtree (child_path p c)) t u"
    and cs: "distinct cs" "\<forall>c\<in>set cs. is_name c \<and> child_path p c \<in> all_paths s"
    and s: "ns_inv s" "blk_inv s" "dir_paths s \<subseteq> B"
  shows "\<exists>t. for_each f cs s = (Inr (), t) \<and> removed (\<Union>c\<in>set cs. subtree (child_path p c)) s t"
  using body cs s
proof (induction cs arbitrary: s)
  case Nil
  then show ?case using removed_refl by simp
next
  case (Cons c cs)
  have "child_path p c \<in> all_paths s" using Cons.prems(3) by simp
  then obtain u where u: "f c s = (Inr (), u)" "removed (subtree (child_path p c)) s u"
    using Cons.prems(1) [of c s] Cons.prems(4-6) by auto
  have ui: "ns_inv u" "blk_inv u" "dir_paths u \<subseteq> B"
    using u(2) Cons.prems(6) by (auto simp: removed_def)
  have "\<forall>c'\<in>set cs. is_name c' \<and> child_path p c' \<in> all_paths u"
    using u(2) Cons.prems(2,3) siblings_disjoint [OF p, of c] by (auto simp: removed_def)
  then obtain t where t: "for_each f cs u = (Inr (), t)"
    "removed (\<Union>c\<in>set cs. subtree (child_path p c)) u t"
    using Cons.IH [of u] Cons.prems(1,2) ui by auto
  then show ?case using removed_trans [OF u(2) t(2)] u(1) by simp
qed

lemma delete_directory_depth_ok:
  assumes "ns_inv s" "blk_inv s" "p \<in> dir_paths s" "p \<noteq> ''/''"
    and "\<forall>q\<in>dir_paths s. length q \<le> B" "B < length p + n"
  shows "\<exists>t. delete_directory_depth n s p True = (Inr True, t) \<and> removed (subtree p) s t"
  using assms
proof (induction n arbitrary: s p)
  case (Suc n)
  note d = ns_invD [OF Suc.prems(1)] and tr = tree_okD [OF ns_invD(1) [OF Suc.prems(1)]]
  obtain i where i: "map_of (nn_directories s) p = Some i"
    using Suc.prems(3) by (auto simp: keys_of_iff)
  let ?cs = "di_children i"
  have cs: "distinct ?cs" "set ?cs = names_in (all_paths s) p" and p: "norm_path p"
    using d(2) i by (auto simp: dirs_ok_def)
  let ?f = "\<lambda>c t. let q = child_path p c
     in if q \<in> dir_paths t
        then and_then (delete_directory_depth n t q True) (\<lambda>_ u. (Inr (), u))
        else if q \<in> file_paths t then and_then (delete_file t q) (\<lambda>_ u. (Inr (), u))
        else (Inr (), t)"
  have "\<exists>t. for_each ?f ?cs s = (Inr (), t) \<and>
      removed (\<Union>c\<in>set ?cs. subtree (child_path p c)) s t"
  proof (rule for_each_removed [OF p, where B = "dir_paths s"])
    fix c t
    assume c: "c \<in> set ?cs" and t: "ns_inv t" "blk_inv t" "dir_paths t \<subseteq> dir_paths s"
      and mem: "child_path p c \<in> all_paths t"
    have "is_name c" using c cs(2) by (simp add: names_in_def)
    moreover have "\<forall>q\<in>dir_paths t. length q \<le> B" using t(3) Suc.prems(5) by blast
    moreover have "length (child_path p c) > length p" using Suc.prems(4) by (simp add: child_path_def)
    ultimately show "\<exists>u. ?f c t = (Inr (), u) \<and> removed (subtree (child_path p c)) t u"
      using Suc.IH [OF t(1,2), of "child_path p c"] Suc.prems(5,6) t mem
        delete_file_removed [OF t(1,2), of "child_path p c"]
      by (cases "child_path p c \<in> dir_paths t") (auto simp: Let_def)
  qed (use cs Suc.prems in \<open>auto simp: names_in_def\<close>)
  then obtain t where t: "for_each ?f ?cs s = (Inr (), t)"
    "removed (\<Union>c\<in>set ?cs. subtree (child_path p c)) s t" by blast
  let ?R = "\<Union>c\<in>set ?cs. subtree (child_path p c)"
  have pR: "p \<notin> ?R"
    using cs(2) parent_not_in_subtree [OF norm_path.child [OF p]] p by (auto simp: names_in_def)
  have ti: "ns_inv t" "blk_inv t" "p \<in> dir_paths t"
    using t(2) pR Suc.prems(3) by (auto simp: removed_def)
  have "names_in (all_paths t) p = {}"
    using t(2) cs(2) by (auto simp: removed_def names_in_def)
  from remove_empty_dir [OF ti Suc.prems(4) this]
  have rm: "removed {p} t (t\<lparr>nn_directories := AList.delete p (AList.map_entry (get_parent_path p)
      (discard_child (get_filename p)) (nn_directories t))\<rparr>)" (is "removed _ _ ?u") .
  have "removed (subtree p) s ?u"
  proof (rule removed_weaken [OF removed_trans [OF t(2) rm]])
    show "?R \<union> {p} \<subseteq> subtree p"
      using child_in_subtree [OF Suc.prems(4)] subtree_trans by auto
    show "subtree p \<inter> all_paths s \<subseteq> ?R \<union> {p}"
      using subtree_children [OF d(1) p Suc.prems(4)] cs(2) by auto
  qed
  moreover have "delete_directory_depth (Suc n) s p True = (Inr True, ?u)"
    using i t(1) Suc.prems(4) by simp
  ultimately show ?case by blast
qed auto

lemma length_le_foldr_max: "x \<in> set xs \<Longrightarrow> f x \<le> foldr max (map f xs) (0::nat)"
  by (induction xs) auto

lemma delete_directory_ok:
  assumes "ns_inv s" "blk_inv s" "p \<in> dir_paths s" "p \<noteq> ''/''"
  shows "\<exists>t. delete_directory s p True = (Inr True, t) \<and> removed (subtree p) s t"
  unfolding delete_directory_def
proof (rule delete_directory_depth_ok [OF assms])
  let ?B = "foldr max (map (length \<circ> fst) (nn_directories s)) 0"
  show "\<forall>q\<in>dir_paths s. length q \<le> ?B"
    using length_le_foldr_max [of _ "nn_directories s" "length \<circ> fst"] by (force simp: keys_of_def)
  show "?B < length p + depth_bound s" by (simp add: depth_bound_def)
qed

lemma delete_directory_flat:
  assumes "map_of (nn_directories s) p = Some i"
  shows "delete_directory s p False =
    (if p = ''/'' then (Inl Value_Error, s)
     else if di_children i \<noteq> [] then (Inl DirectoryNotEmptyError, s)
     else (Inr True, s\<lparr>nn_directories := AList.delete p (AList.map_entry (get_parent_path p)
       (discard_child (get_filename p)) (nn_directories s))\<rparr>))"
  using assms by (simp add: delete_directory_def depth_bound_def)

lemma delete_directory_inv:
  assumes inv: "ns_inv s" "blk_inv s"
  shows "ns_inv (state_of (delete_directory s p r))" "blk_inv (state_of (delete_directory s p r))"
proof -
  have "ns_inv (state_of (delete_directory s p r)) \<and> blk_inv (state_of (delete_directory s p r))"
  proof (cases "map_of (nn_directories s) p")
    case None
    then show ?thesis using inv by (simp add: delete_directory_def depth_bound_def)
  next
    case (Some i)
    then have p: "p \<in> dir_paths s" by (auto simp: keys_of_iff)
    have ch: "set (di_children i) = names_in (all_paths s) p"
      using ns_invD(2) [OF inv(1)] Some by (auto simp: dirs_ok_def)
    show ?thesis
    proof (cases "p = ''/''")
      case True
      then show ?thesis using Some inv by (simp add: delete_directory_def depth_bound_def)
    next
      case root: False
      show ?thesis
      proof (cases r)
        case True
        then show ?thesis using delete_directory_ok [OF inv p root] by (auto simp: removed_def)
      next
        case False
        then show ?thesis
          using delete_directory_flat [OF Some] inv root ch remove_empty_dir [OF inv p root]
          by (auto simp: removed_def)
      qed
    qed
  qed
  then show "ns_inv (state_of (delete_directory s p r))" "blk_inv (state_of (delete_directory s p r))"
    by simp_all
qed

end
