(* ===== verification/Hdfs_Rename.thy ===== *)
theory Hdfs_Rename
  imports Hdfs_Delete
begin

text \<open>
  \<open>rename\<close> moves a file or a whole subtree: the entry at \<open>src/x\<close> is found at \<open>dst/x\<close> afterwards and
  every other path keeps its entry. With a destination whose parent exists and that is not below
  the source it keeps the invariants.
\<close>

section \<open>Moving the keys below a prefix\<close>

lemma starts_with_prefix:
  "starts_with q (p @ ''/'') \<Longrightarrow> starts_with (r @ drop (length p) q) (r @ ''/'')"
  by (auto simp: starts_with_iff)

lemma prefix_back:
  "starts_with q (p @ ''/'') \<Longrightarrow> p @ drop (length r) (r @ drop (length p) q) = q"
  by (auto simp: starts_with_iff)

lemma fold_move_entry:
  assumes "distinct ks"
    and fresh: "\<And>k. starts_with k (old @ ''/'') \<Longrightarrow> \<not> starts_with (new @ drop (length old) k) (old @ ''/'')"
  shows "map_of (fold (move_entry sp old new) ks d) q =
    (let k = old @ drop (length new) q
     in if starts_with q (old @ ''/'') then if q \<in> set ks then None else map_of d q
        else if starts_with q (new @ ''/'') \<and> k \<in> set ks \<and> map_of d k \<noteq> None
        then map_option (\<lambda>v. sp v q) (map_of d k) else map_of d q)"
  using assms(1)
proof (induction ks arbitrary: d)
  case (Cons k ks)
  let ?P = "\<lambda>k. starts_with k (old @ ''/'')" and ?d1 = "move_entry sp old new k d"
  let ?g = "\<lambda>k. new @ drop (length old) k" and ?b = "old @ drop (length new) q"
  have b: "?P ?b \<and> ?g ?b = q" if "starts_with q (new @ ''/'')"
    using that starts_with_prefix [OF that, of old] prefix_back [OF that, of old] by simp
  have gk: "starts_with (?g k) (new @ ''/'') \<and> old @ drop (length new) (?g k) = k \<and> \<not> ?P (?g k)"
    if "?P k" using that starts_with_prefix [OF that, of new] prefix_back [OF that, of new] fresh by simp
  have IH: "map_of (fold (move_entry sp old new) ks ?d1) q =
    (if ?P q then if q \<in> set ks then None else map_of ?d1 q
     else if starts_with q (new @ ''/'') \<and> ?b \<in> set ks \<and> map_of ?d1 ?b \<noteq> None
     then map_option (\<lambda>v. sp v q) (map_of ?d1 ?b) else map_of ?d1 q)"
    using Cons.IH [of ?d1] Cons.prems by (simp add: Let_def)
  show ?case
  proof (cases "?P k \<and> map_of d k \<noteq> None")
    case False
    then have d1: "map_of ?d1 = map_of d" by (auto simp: move_entry_def Let_def)
    show ?thesis using IH False b unfolding d1 by (auto simp: Let_def)
  next
    case True
    then obtain v where v: "map_of d k = Some v" and k: "?P k" by auto
    have d1: "map_of ?d1 x = (if x = ?g k then Some (sp v (?g k)) else if x = k then None else map_of d x)"
      for x using k v by (simp add: move_entry_def Let_def)
    show ?thesis
      using IH Cons.prems b gk [OF k] v k unfolding d1 by (auto simp: Let_def)
  qed
qed (simp add: Let_def)

lemma distinct_move_entries:
  "distinct (map fst d) \<Longrightarrow> distinct (map fst (move_entries sp old new d))"
proof -
  have "distinct (map fst (fold (move_entry sp old new) ks d))" if "distinct (map fst d)" for ks
    using that
    by (induction ks arbitrary: d) (auto simp: move_entry_def Let_def split: option.splits)
  then show "distinct (map fst d) \<Longrightarrow> distinct (map fst (move_entries sp old new d))"
    by (simp add: move_entries_def)
qed

section \<open>Relocation of a subtree\<close>

definition relocate ::
  "('v \<Rightarrow> string \<Rightarrow> 'v) \<Rightarrow> string \<Rightarrow> string \<Rightarrow> (string \<rightharpoonup> 'v) \<Rightarrow> (string \<rightharpoonup> 'v)" where
  "relocate sp src dst m q =
     (if q \<in> subtree src then None
      else if q \<in> subtree dst then map_option (\<lambda>v. sp v q) (m (src @ drop (length dst) q))
      else m q)"

lemma subtree_meet: "q \<in> subtree a \<Longrightarrow> q \<in> subtree b \<Longrightarrow> a \<in> subtree b \<or> b \<in> subtree a"
proof -
  assume a: "q \<in> subtree a" and b: "q \<in> subtree b"
  have "a @ slash # r = b @ slash # s \<Longrightarrow> a = b \<or> (\<exists>x. a = b @ slash # x) \<or> (\<exists>x. b = a @ slash # x)" for r s
    by (auto simp: append_eq_append_conv2 append_eq_Cons_conv Cons_eq_append_conv)
  then show ?thesis using a b by (auto simp: subtree_iff)
qed

lemma move_entries_lookup:
  assumes "distinct (map fst d)" "src \<notin> subtree dst" "dst \<notin> subtree src"
  shows "map_of (move_entries sp src dst d) q =
    (if starts_with q (src @ ''/'') then None
     else if starts_with q (dst @ ''/'') \<and> map_of d (src @ drop (length dst) q) \<noteq> None
     then map_option (\<lambda>v. sp v q) (map_of d (src @ drop (length dst) q)) else map_of d q)"
proof -
  have "\<not> starts_with (dst @ drop (length src) k) (src @ ''/'')" if "starts_with k (src @ ''/'')" for k
  proof
    assume "starts_with (dst @ drop (length src) k) (src @ ''/'')"
    then have "dst @ drop (length src) k \<in> subtree src" by (simp add: subtree_def)
    moreover have "dst @ drop (length src) k \<in> subtree dst"
      using starts_with_prefix [OF that, of dst] by (simp add: subtree_def)
    ultimately show False using subtree_meet assms(2,3) by blast
  qed
  note fold_move_entry [OF assms(1) this, of sp d q]
  moreover have "k \<in> set (map fst d) \<longleftrightarrow> map_of d k \<noteq> None" for k
    by (metis list.set_map map_of_eq_None_iff)
  ultimately show ?thesis unfolding move_entries_def by (simp add: Let_def del: set_map)
qed

lemma norm_moved:
  assumes "norm_path src" "src \<noteq> ''/''" "norm_path dst" "dst \<noteq> ''/''"
    and "norm_path q" "q \<in> subtree src"
  shows "norm_path (dst @ drop (length src) q) \<and>
    (q \<noteq> src \<longrightarrow> get_parent_path (dst @ drop (length src) q) = dst @ drop (length src) (get_parent_path q))"
  using assms(5,6)
proof (induction rule: norm_path.induct)
  case root
  then show ?case using root_not_in_subtree [OF assms(1,2)] by blast
next
  case (child d n)
  show ?case
  proof (cases "child_path d n = src")
    case False
    then have d: "d \<in> subtree src"
      using child.prems subtree_child [OF child.hyps(1,2) assms(1,2)] by simp
    have "d \<noteq> ''/''" using d root_not_in_subtree [OF assms(1,2)] by blast
    moreover have "dst @ drop (length src) d \<noteq> ''/''"
    proof
      assume *: "dst @ drop (length src) d = ''/''"
      then show False using norm_path_head [OF assms(3)] assms(4) by auto
    qed
    ultimately have "dst @ drop (length src) (child_path d n) = child_path (dst @ drop (length src) d) n"
      using d by (auto simp: child_path_def subtree_iff)
    then show ?thesis
      using child.IH [OF d] child.hyps norm_path.child by simp
  qed (use assms(3) in simp)
qed

section \<open>The lookups after a rename\<close>

lemma below_new:
  assumes "ns_inv s" "norm_path dst" "dst \<notin> all_paths s" "q \<in> subtree dst"
  shows "map_of (nn_files s) q = None" "map_of (nn_directories s) q = None"
proof -
  have "dst \<noteq> ''/''" using root_dir [OF assms(1)] assms(3) by blast
  then have "q \<notin> all_paths s"
    using subtree_closed [OF ns_invD(1) [OF assms(1)] assms(2) _ _ assms(4)] assms(3) by auto
  then show "map_of (nn_files s) q = None" "map_of (nn_directories s) q = None"
    by (simp_all add: map_of_eq_None_keys)
qed

lemma below_file:
  assumes "ns_inv s" "p \<in> file_paths s" "q \<in> subtree p" "q \<noteq> p"
  shows "map_of (nn_files s) q = None" "map_of (nn_directories s) q = None"
  using subtree_file [OF ns_invD(1) [OF assms(1)] assms(2)] assms(3,4)
  by (auto simp: map_of_eq_None_keys)

lemma back_in_subtree: "q \<in> subtree dst \<Longrightarrow> src @ drop (length dst) q \<in> subtree src"
  by (auto simp: subtree_iff)

lemma back_eq_src: "q \<in> subtree dst \<Longrightarrow> src @ drop (length dst) q = src \<longleftrightarrow> q = dst"
  by (auto simp: subtree_iff)

lemma moved_facts:
  assumes "src \<notin> subtree dst" "dst \<notin> subtree src" "q \<in> subtree src"
  shows "dst @ drop (length src) q \<in> subtree dst" "dst @ drop (length src) q \<notin> subtree src"
    "src @ drop (length dst) (dst @ drop (length src) q) = q"
proof -
  show "dst @ drop (length src) q \<in> subtree dst" using back_in_subtree [OF assms(3)] .
  then show "dst @ drop (length src) q \<notin> subtree src" using subtree_meet assms(1,2) by blast
  show "src @ drop (length dst) (dst @ drop (length src) q) = q"
    using assms(3) by (auto simp: subtree_iff)
qed

lemma rename_file_lookup:
  assumes inv: "ns_inv s" and src: "map_of (nn_files s) src = Some f"
    and dst: "norm_path dst" "dst \<notin> all_paths s" "dst \<notin> subtree src"
  shows "map_of (AList.update dst (set_file_path f dst) (AList.delete src (nn_files s))) =
      relocate set_file_path src dst (map_of (nn_files s))"
    "map_of (nn_directories s) = relocate set_dir_path src dst (map_of (nn_directories s))"
proof -
  have F: "src \<in> file_paths s" using src by (auto simp: keys_of_iff)
  have D: "map_of (nn_directories s) src = None"
    using F tree_okD(2) [OF ns_invD(1) [OF inv]] by (auto simp: map_of_eq_None_keys)
  note out = below_file [OF inv F] and new = below_new [OF inv dst(1,2)]
  have b: "q \<in> subtree dst \<Longrightarrow> q \<noteq> dst \<Longrightarrow> src @ drop (length dst) q \<in> subtree src \<and>
      src @ drop (length dst) q \<noteq> src" for q
    using back_in_subtree back_eq_src by blast
  have "dst \<noteq> src" using F dst(2) by blast
  then show "map_of (AList.update dst (set_file_path f dst) (AList.delete src (nn_files s))) =
      relocate set_file_path src dst (map_of (nn_files s))"
    using src dst(3) b out(1) new(1) by (intro ext) (auto simp: relocate_def)
  have "map_of (nn_directories s) (src @ drop (length dst) q) = None" if "q \<in> subtree dst" for q
    using b [OF that] D out(2) by (cases "q = dst") auto
  moreover have "map_of (nn_directories s) q = None" if "q \<in> subtree src" for q
    using D out(2) [OF that] by (cases "q = src") auto
  ultimately show "map_of (nn_directories s) = relocate set_dir_path src dst (map_of (nn_directories s))"
    using new(2) by (intro ext) (auto simp: relocate_def)
qed

lemma rename_dir_lookup:
  assumes inv: "ns_inv s" and src: "map_of (nn_directories s) src = Some d"
    and dst: "norm_path dst" "dst \<notin> all_paths s" "dst \<notin> subtree src"
  defines "ds \<equiv> AList.update dst (set_dir_path d dst) (AList.delete src (nn_directories s))"
  shows "map_of (move_entries set_file_path src dst (nn_files s)) =
      relocate set_file_path src dst (map_of (nn_files s))"
    "map_of (move_entries set_dir_path src dst ds) =
      relocate set_dir_path src dst (map_of (nn_directories s))"
proof -
  have D: "src \<in> dir_paths s" using src by (auto simp: keys_of_iff)
  have F: "map_of (nn_files s) src = None"
    using D tree_okD(2) [OF ns_invD(1) [OF inv]] by (auto simp: map_of_eq_None_keys)
  note new = below_new [OF inv dst(1,2)]
  have out: "src \<notin> subtree dst" using new(2) [of src] src by auto
  have dist: "distinct (map fst (nn_files s))" "distinct (map fst ds)"
    using ns_invD(2,3) [OF inv] by (simp_all add: ds_def files_ok_def dirs_ok_def)
  have st: "starts_with q (p @ ''/'') \<longleftrightarrow> q \<in> subtree p \<and> q \<noteq> p" for p q
    by (auto simp: subtree_iff starts_with_iff)
  note b = back_eq_src [of _ dst src]
  show "map_of (move_entries set_file_path src dst (nn_files s)) =
      relocate set_file_path src dst (map_of (nn_files s))"
    using move_entries_lookup [OF dist(1) out dst(3), of set_file_path] F new(1) dst(3) out
    by (intro ext) (auto simp: relocate_def st)
  have ds: "map_of ds q = (if q = dst then Some (set_dir_path d dst) else
      if q = src then None else map_of (nn_directories s) q)" for q
    by (simp add: ds_def)
  have nd: "src @ drop (length dst) q \<noteq> dst" if "q \<in> subtree dst" for q
    using back_in_subtree [OF that, of src] dst(3) by auto
  show "map_of (move_entries set_dir_path src dst ds) =
      relocate set_dir_path src dst (map_of (nn_directories s))"
    using move_entries_lookup [OF dist(2) out dst(3), of set_dir_path] src new(2) dst(3) out b nd
    by (intro ext) (auto simp: relocate_def st ds)
qed

definition renamed :: "name_node \<Rightarrow> string \<Rightarrow> string \<Rightarrow> name_node \<Rightarrow> bool" where
  "renamed s src dst t \<longleftrightarrow>
     map_of (nn_files t) = relocate set_file_path src dst (map_of (nn_files s)) \<and>
     distinct (map fst (nn_files t)) \<and>
     (\<exists>ds. nn_directories t = AList.map_entry (get_parent_path dst) (add_child (get_filename dst))
         (AList.map_entry (get_parent_path src) (discard_child (get_filename src)) ds) \<and>
        distinct (map fst ds) \<and>
        map_of ds = relocate set_dir_path src dst (map_of (nn_directories s)))"

lemma rename_renamed:
  assumes inv: "ns_inv s" and src: "src \<in> all_paths s"
    and dst: "norm_path dst" "dst \<notin> all_paths s" "dst \<notin> subtree src"
  shows "\<exists>t. rename s src dst = (Inr True, t) \<and> renamed s src dst t"
proof -
  have dist: "distinct (map fst (nn_files s))" "distinct (map fst (nn_directories s))"
    using ns_invD(2,3) [OF inv] by (simp_all add: files_ok_def dirs_ok_def)
  define t where "t = state_of (rename s src dst)"
  show ?thesis
  proof (cases "map_of (nn_files s) src")
    case (Some f)
    have r: "rename s src dst = (Inr True, t)" using dst(2) Some by (simp add: rename_def t_def)
    have "nn_files t = AList.update dst (set_file_path f dst) (AList.delete src (nn_files s))"
      "nn_directories t = AList.map_entry (get_parent_path dst) (add_child (get_filename dst))
         (AList.map_entry (get_parent_path src) (discard_child (get_filename src)) (nn_directories s))"
      using dst(2) Some by (simp_all add: rename_def t_def)
    then have "renamed s src dst t"
      using rename_file_lookup [OF inv Some dst] dist by (auto simp: renamed_def)
    then show ?thesis using r by blast
  next
    case None
    then obtain d where d: "map_of (nn_directories s) src = Some d"
      using src by (auto simp: keys_of_iff)
    let ?ds = "AList.update dst (set_dir_path d dst) (AList.delete src (nn_directories s))"
    have r: "rename s src dst = (Inr True, t)" using dst(2) None d by (simp add: rename_def t_def)
    have "nn_files t = move_entries set_file_path src dst (nn_files s)"
      "nn_directories t = AList.map_entry (get_parent_path dst) (add_child (get_filename dst))
         (AList.map_entry (get_parent_path src) (discard_child (get_filename src))
           (move_entries set_dir_path src dst ?ds))"
      using dst(2) None d by (simp_all add: rename_def t_def update_subtree_paths_def)
    moreover have "distinct (map fst (move_entries set_dir_path src dst ?ds))"
      using dist by (intro distinct_move_entries) simp
    ultimately have "renamed s src dst t"
      using rename_dir_lookup [OF inv d dst] distinct_move_entries [OF dist(1)]
      by (auto simp: renamed_def)
    then show ?thesis using r by blast
  qed
qed

section \<open>Rename keeps the invariants\<close>

lemma relocate_keys:
  "relocate sp src dst m q \<noteq> None \<longleftrightarrow>
     q \<notin> subtree src \<and> (if q \<in> subtree dst then m (src @ drop (length dst) q) \<noteq> None else m q \<noteq> None)"
  by (auto simp: relocate_def)

lemma keys_iff_lookup: "k \<in> keys_of d \<longleftrightarrow> map_of d k \<noteq> None"
  by (simp add: map_of_eq_None_keys)

lemma renamed_paths:
  assumes "renamed s src dst t"
  shows "q \<in> file_paths t \<longleftrightarrow> q \<notin> subtree src \<and>
      (if q \<in> subtree dst then src @ drop (length dst) q \<in> file_paths s else q \<in> file_paths s)"
    "q \<in> dir_paths t \<longleftrightarrow> q \<notin> subtree src \<and>
      (if q \<in> subtree dst then src @ drop (length dst) q \<in> dir_paths s else q \<in> dir_paths s)"
proof -
  show "q \<in> file_paths t \<longleftrightarrow> q \<notin> subtree src \<and>
      (if q \<in> subtree dst then src @ drop (length dst) q \<in> file_paths s else q \<in> file_paths s)"
    using assms unfolding keys_iff_lookup renamed_def by (metis relocate_keys)
  obtain ds where "dir_paths t = keys_of ds"
    "map_of ds = relocate set_dir_path src dst (map_of (nn_directories s))"
    using assms by (auto simp: renamed_def)
  then show "q \<in> dir_paths t \<longleftrightarrow> q \<notin> subtree src \<and>
      (if q \<in> subtree dst then src @ drop (length dst) q \<in> dir_paths s else q \<in> dir_paths s)"
    unfolding keys_iff_lookup by (metis keys_iff_lookup relocate_keys)
qed

lemma back_norm:
  assumes "norm_path src" "src \<noteq> ''/''" "norm_path dst" "dst \<noteq> ''/''"
    and "q \<in> subtree dst" "norm_path (src @ drop (length dst) q)"
  shows "norm_path q"
    "q \<noteq> dst \<Longrightarrow> get_parent_path q \<in> subtree dst \<and>
       src @ drop (length dst) (get_parent_path q) = get_parent_path (src @ drop (length dst) q)"
proof -
  let ?k = "src @ drop (length dst) q"
  have q: "dst @ drop (length src) ?k = q" using assms(5) by (auto simp: subtree_iff)
  note n = norm_moved [OF assms(1-4) assms(6) back_in_subtree [OF assms(5)]]
  show norm: "norm_path q" using n q by simp
  assume ne: "q \<noteq> dst"
  then have "?k \<noteq> src" using back_eq_src [OF assms(5)] by simp
  then have par: "get_parent_path q = dst @ drop (length src) (get_parent_path ?k)" using n q by simp
  have "q \<noteq> ''/''" using assms(5) root_not_in_subtree [OF assms(3,4)] by blast
  then have "get_parent_path q \<in> subtree dst"
    using subtree_parent [OF norm _ assms(3,4)] assms(5) ne by simp
  moreover have "get_parent_path ?k \<in> subtree src"
  proof -
    have "?k \<noteq> ''/''" using back_in_subtree [OF assms(5), of src] root_not_in_subtree [OF assms(1,2)]
      by metis
    then show ?thesis
      using subtree_parent [OF assms(6) _ assms(1,2)] \<open>?k \<noteq> src\<close> back_in_subtree [OF assms(5), of src]
      by blast
  qed
  ultimately show "get_parent_path q \<in> subtree dst \<and>
      src @ drop (length dst) (get_parent_path q) = get_parent_path ?k"
    using par by (auto simp: subtree_iff)
qed

lemma rename_tree_ok:
  assumes inv: "ns_inv s" and src: "src \<in> all_paths s" "src \<noteq> ''/''"
    and dst: "norm_path dst" "dst \<notin> all_paths s" "dst \<notin> subtree src" "get_parent_path dst \<in> dir_paths s"
    and t: "renamed s src dst t"
  shows "tree_ok (file_paths t) (dir_paths t)"
proof -
  note tr = tree_okD [OF ns_invD(1) [OF inv]] and k = renamed_paths [OF t]
  have ns: "norm_path src" using src tr(3,4) by auto
  have nd: "dst \<noteq> ''/''" using dst(2) tr(1) by blast
  have out: "get_parent_path dst \<notin> subtree src" "get_parent_path dst \<notin> subtree dst"
    using dst(3) subtree_parent [OF dst(1) nd ns src(2)] parent_not_in_subtree [OF dst(1) nd] by auto
  have "norm_path q \<and> get_parent_path q \<in> dir_paths t" if q: "q \<in> all_paths t" for q
  proof (cases "q \<in> subtree dst")
    case True
    let ?k = "src @ drop (length dst) q"
    have kin: "?k \<in> all_paths s" "q \<notin> subtree src" using q k True by auto
    have nk: "norm_path ?k" using kin tr(3,4) by auto
    have nq: "norm_path q" by (rule back_norm(1) [OF ns src(2) dst(1) nd True nk])
    show ?thesis
    proof (cases "q = dst")
      case True
      then show ?thesis using nq out dst(4) k(2) [of "get_parent_path dst"] by simp
    next
      case False
      note b = back_norm(2) [OF ns src(2) dst(1) nd True nk False]
      have "get_parent_path ?k \<in> dir_paths s" using kin tr(5,6) by auto
      moreover have "get_parent_path q \<notin> subtree src"
        using b subtree_meet [of "get_parent_path q" dst src] below_new [OF inv dst(1,2), of src]
          src(1) dst(3) by (auto simp: keys_of_iff)
      ultimately show ?thesis using nq b k(2) [of "get_parent_path q"] by simp
    qed
  next
    case False
    then have q': "q \<in> all_paths s" "q \<notin> subtree src" using q k by auto
    then have nq: "norm_path q" "get_parent_path q \<in> dir_paths s" using tr(3-6) by auto
    show ?thesis
    proof (cases "q = ''/''")
      case True
      then show ?thesis using False q' nq k(2) [of "''/''"] by (simp add: get_parent_path_def)
    next
      case root: False
      have "get_parent_path q \<notin> subtree src" "get_parent_path q \<notin> subtree dst"
        using False q' subtree_parent [OF nq(1) root] ns src(2) dst(1) nd by auto
      then show ?thesis using nq k(2) [of "get_parent_path q"] by simp
    qed
  qed
  moreover have "''/'' \<in> dir_paths t"
    using k(2) [of "''/''"] tr(1) root_not_in_subtree [OF ns src(2)] root_not_in_subtree [OF dst(1) nd]
    by simp
  moreover have "file_paths t \<inter> dir_paths t = {}" using k tr(2) by (auto split: if_splits)
  ultimately show ?thesis by (auto simp: tree_ok_def)
qed

lemma rename_names_moved:
  assumes "renamed s src dst t" "d \<in> subtree dst" "norm_path dst" "dst \<noteq> ''/''" "src \<noteq> ''/''"
    "norm_path src" "src \<notin> subtree dst" "dst \<notin> subtree src"
  shows "names_in (all_paths t) d = names_in (all_paths s) (src @ drop (length dst) d)"
proof -
  have e: "d \<noteq> ''/''" using assms root_not_in_subtree [OF assms(3,4)] by blast
  have e': "src @ drop (length dst) d \<noteq> ''/''"
    using back_in_subtree [OF assms(2), of src] root_not_in_subtree [OF assms(6,5)] by metis
  have c: "child_path d n \<in> subtree dst" "src @ drop (length dst) (child_path d n) =
      child_path (src @ drop (length dst) d) n" for n
    using assms(2) e e' by (auto simp: subtree_iff child_path_def)
  have "child_path d n \<notin> subtree src" for n using subtree_meet c(1) assms(7,8) by blast
  then show ?thesis
    using renamed_paths [OF assms(1)] c by (auto simp: names_in_def)
qed

lemma rename_names_rest:
  assumes "renamed s src dst t" "norm_path d" "d \<notin> subtree dst" "d \<notin> subtree src"
    and "norm_path dst" "dst \<noteq> ''/''" "src \<noteq> ''/''" "norm_path src"
    and "src \<in> all_paths s" "dst \<notin> subtree src"
  shows "names_in (all_paths t) d = names_in (insert dst (all_paths s - {src})) d"
proof -
  have "child_path d n \<in> all_paths t \<longleftrightarrow> child_path d n \<in> insert dst (all_paths s - {src})"
    if n: "is_name n" for n
  proof -
    have "child_path d n \<in> subtree src \<longleftrightarrow> child_path d n = src"
      "child_path d n \<in> subtree dst \<longleftrightarrow> child_path d n = dst"
      using subtree_child [OF assms(2) n] assms by blast+
    then show ?thesis
      using renamed_paths [OF assms(1), of "child_path d n"] assms(9,10)
        back_eq_src [OF subtree_self, of src dst] by auto
  qed
  then show ?thesis by (auto simp: names_in_def)
qed

lemma rename_ns:
  assumes inv: "ns_inv s" and src: "src \<in> all_paths s" "src \<noteq> ''/''"
    and dst: "norm_path dst" "dst \<notin> all_paths s" "dst \<notin> subtree src" "get_parent_path dst \<in> dir_paths s"
    and t: "renamed s src dst t"
  shows "ns_inv t"
proof -
  note tr = tree_okD [OF ns_invD(1) [OF inv]] and d = ns_invD [OF inv]
  have ns: "norm_path src" using src tr(3,4) by auto
  have nd: "dst \<noteq> ''/''" using dst(2) tr(1) by blast
  have sd: "src \<notin> subtree dst" using below_new [OF inv dst(1,2), of src] src(1) by (auto simp: keys_of_iff)
  have tok: "tree_ok (file_paths t) (dir_paths t)" by (rule rename_tree_ok [OF inv src dst t])
  obtain ds where ds: "nn_directories t = AList.map_entry (get_parent_path dst) (add_child (get_filename dst))
       (AList.map_entry (get_parent_path src) (discard_child (get_filename src)) ds)"
    "distinct (map fst ds)" "map_of ds = relocate set_dir_path src dst (map_of (nn_directories s))"
    using t by (auto simp: renamed_def)
  have par: "get_parent_path dst \<notin> subtree dst" "get_parent_path src \<notin> subtree dst"
    using parent_not_in_subtree [OF dst(1) nd] sd subtree_parent [OF ns src(2) dst(1) nd] by auto
  have fin: "norm_path q \<and> di_path i = q \<and> distinct (di_children i) \<and>
      set (di_children i) = names_in (all_paths t) q"
    if i: "map_of (nn_directories t) q = Some i" for q i
  proof -
    have nq: "norm_path q" using i tok by (auto simp: tree_ok_def keys_of_iff)
    obtain j where j: "map_of ds q = Some j" using i by (auto simp: ds(1) split: if_splits)
    show ?thesis
    proof (cases "q \<in> subtree dst")
      case True
      then have "i = j" using i j par by (auto simp: ds(1) split: if_splits)
      moreover obtain k where k: "map_of (nn_directories s) (src @ drop (length dst) q) = Some k"
        "j = set_dir_path k q"
        using j True by (auto simp: ds(3) relocate_def split: if_splits)
      ultimately show ?thesis
        using d(2) nq rename_names_moved [OF t True dst(1) nd src(2) ns sd dst(3)]
        by (auto simp: dirs_ok_def set_dir_path_def)
    next
      case False
      then have q: "q \<notin> subtree src" "map_of (nn_directories s) q = Some j"
        using j by (auto simp: ds(3) relocate_def split: if_splits)
      have j': "di_path j = q" "distinct (di_children j)" "set (di_children j) = names_in (all_paths s) q"
        using q(2) d(2) by (auto simp: dirs_ok_def)
      have "names_in (all_paths t) q = names_in (insert dst (all_paths s - {src})) q"
        by (rule rename_names_rest [OF t nq False q(1) dst(1) nd src(2) ns src(1) dst(3)])
      also have "\<dots> = (if q = get_parent_path dst then insert (get_filename dst) else id)
          ((if q = get_parent_path src then \<lambda>A. A - {get_filename src} else id) (set (di_children j)))"
        unfolding j'(3) names_in_insert [OF dst(1) nd nq] names_in_remove [OF ns src(2) nq] by simp
      finally have names: "names_in (all_paths t) q = \<dots>" .
      have "i = (if q = get_parent_path dst then add_child (get_filename dst) else id)
          ((if q = get_parent_path src then discard_child (get_filename src) else id) j)"
        using i j unfolding ds(1) by (simp split: if_splits)
      then show ?thesis
        using j'(1,2) nq unfolding names by (simp add: add_child_def discard_child_def)
    qed
  qed
  moreover have "files_ok (nn_files t)"
    using d(3) t by (auto simp: files_ok_def renamed_def relocate_def set_file_path_def split: if_splits)
  moreover have "distinct (map fst (nn_directories t))" using ds(1,2) by simp
  ultimately show ?thesis using tok by (simp add: ns_inv_def dirs_ok_def)
qed

lemma relocate_SomeD:
  assumes "relocate set_file_path src dst m p = Some f"
  shows "\<exists>g. m (if p \<in> subtree dst then src @ drop (length dst) p else p) = Some g \<and>
    fi_blocks f = fi_blocks g" "p \<notin> subtree src"
  using assms by (auto simp: relocate_def set_file_path_def split: if_splits)

lemma relocate_blocks_apart:
  assumes "blocks_apart m"
  shows "blocks_apart (relocate set_file_path src dst m)"
proof -
  let ?k = "\<lambda>p. if p \<in> subtree dst then src @ drop (length dst) p else p"
  have inj: "p = q" if "?k p = ?k q" "p \<notin> subtree src" "q \<notin> subtree src" for p q
  proof (cases "p \<in> subtree dst \<longleftrightarrow> q \<in> subtree dst")
    case True
    then show ?thesis using that by (auto simp: subtree_iff split: if_splits)
  next
    case False
    then show ?thesis
      using that back_in_subtree [of p dst src] back_in_subtree [of q dst src] by (auto split: if_splits)
  qed
  show ?thesis
  proof (rule blocks_apartI)
    fix p f assume "relocate set_file_path src dst m p = Some f"
    then obtain g where "m (?k p) = Some g" "fi_blocks f = fi_blocks g"
      using relocate_SomeD(1) by blast
    then show "distinct (fi_blocks f)" using blocks_apartD(1) [OF assms] by simp
  next
    fix p q f g
    assume pq: "relocate set_file_path src dst m p = Some f" "relocate set_file_path src dst m q = Some g"
      "p \<noteq> q"
    have "?k p \<noteq> ?k q" using inj [of p q] relocate_SomeD(2) pq by blast
    moreover obtain f' g' where "m (?k p) = Some f'" "fi_blocks f = fi_blocks f'"
      "m (?k q) = Some g'" "fi_blocks g = fi_blocks g'"
      using relocate_SomeD(1) [OF pq(1)] relocate_SomeD(1) [OF pq(2)] by blast
    ultimately show "set (fi_blocks f) \<inter> set (fi_blocks g) = {}"
      using blocks_apartD(2) [OF assms, of "?k p" f' "?k q" g'] by simp
  qed
qed

lemma rename_frame:
  "nn_blocks (state_of (rename s src dst)) = nn_blocks s"
  "nn_block_to_nodes (state_of (rename s src dst)) = nn_block_to_nodes s"
  by (simp_all add: rename_def update_subtree_paths_def split: option.splits)

lemma rename_blk:
  assumes inv: "blk_inv s" and r: "rename s src dst = (Inr True, t)" "renamed s src dst t"
  shows "blk_inv t"
proof -
  have "nn_blocks t = nn_blocks s" "nn_block_to_nodes t = nn_block_to_nodes s"
    using rename_frame [of s src dst] r(1) by simp_all
  moreover have d: "distinct (map fst (nn_files s))" "distinct (map fst (nn_files t))"
    "map_of (nn_files t) = relocate set_file_path src dst (map_of (nn_files s))"
    using inv r(2) by (simp_all add: blk_inv_def renamed_def)
  moreover have "distinct (file_blocks (nn_files t))"
    using inv d relocate_blocks_apart [of "map_of (nn_files s)" src dst]
    by (simp add: blk_inv_def distinct_file_blocks)
  moreover have "set (file_blocks (nn_files t)) \<subseteq> set (file_blocks (nn_files s))"
  proof
    fix b assume "b \<in> set (file_blocks (nn_files t))"
    then obtain p f where "map_of (nn_files t) p = Some f" "b \<in> set (fi_blocks f)"
      using set_file_blocks [OF d(2)] by blast
    then show "b \<in> set (file_blocks (nn_files s))"
      using set_file_blocks [OF d(1)] relocate_SomeD(1) [of src dst _ p f] d(3) by metis
  qed
  ultimately show ?thesis using inv by (auto simp: blk_inv_def)
qed

text \<open>A refused rename changes nothing.\<close>

lemma rename_error:
  "result_of (rename s src dst) = Inl e \<Longrightarrow> state_of (rename s src dst) = s"
  by (auto simp: rename_def split: option.splits if_splits)

lemma rename_error_iff:
  "(\<exists>e. result_of (rename s src dst) = Inl e) \<longleftrightarrow> dst \<in> all_paths s \<or> src \<notin> all_paths s"
  by (cases "map_of (nn_files s) src"; cases "map_of (nn_directories s) src")
    (simp_all add: rename_def keys_iff_lookup)

lemma rename_inv:
  assumes inv: "ns_inv s" "blk_inv s" and src: "src \<noteq> ''/''"
    and dst: "norm_path dst" "dst \<notin> subtree src" "get_parent_path dst \<in> dir_paths s"
  shows "ns_inv (state_of (rename s src dst)) \<and> blk_inv (state_of (rename s src dst))"
proof (cases "dst \<in> all_paths s \<or> src \<notin> all_paths s")
  case True
  then show ?thesis using rename_error_iff [of s src dst] rename_error [of s src dst] inv by auto
next
  case False
  then have "src \<in> all_paths s" "dst \<notin> all_paths s" by auto
  note a = this
  from rename_renamed [OF inv(1) a(1) dst(1) a(2) dst(2)]
  obtain t where "rename s src dst = (Inr True, t)" "renamed s src dst t" by blast
  then show ?thesis
    using rename_ns [OF inv(1) a(1) src dst(1) a(2) dst(2,3)] rename_blk [OF inv(2)] by simp
qed

end
