(* ===== verification/Hdfs_Server.thy ===== *)
theory Hdfs_Server
  imports Hdfs_Rename
begin

text \<open>
  The message loop of \<open>NameNodeServer\<close> (\<open>_process_message\<close>): one request type per branch, errors
  turned into ERROR replies, and the connections of \<open>_handle_client\<close>. The value None means that a
  handler does not return.
\<close>

section \<open>Requests and replies\<close>

text \<open>
  The messages with their payloads. \<open>UNKNOWN\<close> is a message of a type that the server does not handle
  or without a key that its handler needs; the latter raises before the name node is called.
\<close>

datatype message =
    CREATE_FILE string "int option" "int option" bool
  | ADD_BLOCK string
  | COMPLETE_FILE string int
  | GET_BLOCK_LOCATIONS string
  | LIST_DIR string
  | GET_FILE_INFO string
  | MKDIR string bool
  | DELETE_FILE string
  | REGISTER_DATANODE node_id string int int int "int option" string
  | HEARTBEAT node_id int int
  | BLOCK_REPORT node_id "block_id list"
  | BLOCK_RECEIVED node_id block_id int
  | UNKNOWN

datatype reply =
    ERROR
  | SUCCESS
  | Path string
  | NewBlock block_id "(node_id \<times> string \<times> int) list"
  | Size int
  | Locations "(block_id \<times> string \<times> int) list list"
  | Entries "string list"
  | Info info_dict
  | Commands "command list"

text \<open>The two \<open>except\<close> clauses: every exception of the name node becomes an ERROR reply.\<close>

definition answer :: "('a \<Rightarrow> reply) \<Rightarrow> 'a nn_outcome \<Rightarrow> reply \<times> name_node" where
  "answer f r = (case r of (Inl _, t) \<Rightarrow> (ERROR, t) | (Inr x, t) \<Rightarrow> (f x, t))"

fun process_message :: "block_id \<Rightarrow> real \<Rightarrow> name_node \<Rightarrow> message \<Rightarrow> (reply \<times> name_node) option" where
  "process_message new_id now s (CREATE_FILE p r b ov) =
     Some (answer (\<lambda>f. Path (fi_path f)) (create_file s p r b ov now))"
| "process_message new_id now s (ADD_BLOCK p) =
     Some (answer (\<lambda>(b, ls). NewBlock (bk_block_id b)
       (map (\<lambda>l. (bl_node_id l, bl_host l, bl_port l)) ls)) (add_block s p new_id now))"
| "process_message new_id now s (COMPLETE_FILE p n) =
     map_option (answer (\<lambda>f. Size (fi_size f))) (complete_file s p n now)"
| "process_message new_id now s (GET_BLOCK_LOCATIONS p) =
     Some (case get_block_locations_for_file s p now of
         Inl _ \<Rightarrow> (ERROR, s)
       | Inr ls \<Rightarrow> (Locations (map (map (\<lambda>l. (bl_block_id l, bl_host l, bl_port l))) ls), s))"
| "process_message new_id now s (LIST_DIR p) =
     Some (case list_directory s p of Inl _ \<Rightarrow> (ERROR, s) | Inr ns \<Rightarrow> (Entries ns, s))"
| "process_message new_id now s (GET_FILE_INFO p) =
     Some (case get_file_info_dict s p of None \<Rightarrow> (ERROR, s) | Some i \<Rightarrow> (Info i, s))"
| "process_message new_id now s (MKDIR p create_parents) =
     Some (answer (\<lambda>_. SUCCESS) (mkdir s p create_parents now))"
| "process_message new_id now s (DELETE_FILE p) = Some (answer (\<lambda>_. SUCCESS) (delete_file s p))"
| "process_message new_id now s (REGISTER_DATANODE n host port capacity used remaining rack) =
     Some (SUCCESS, snd (register_datanode s n host port capacity used remaining rack now))"
| "process_message new_id now s (HEARTBEAT n used remaining) =
     Some (map_prod Commands id (heartbeat s n used remaining now))"
| "process_message new_id now s (BLOCK_REPORT n bs) =
     Some (SUCCESS, block_report s \<lparr>br_node_id = n, br_blocks = bs\<rparr>)"
| "process_message new_id now s (BLOCK_RECEIVED n b sz) = Some (SUCCESS, block_received s n b sz)"
| "process_message new_id now s UNKNOWN = Some (ERROR, s)"

text \<open>
  What a connection delivers: a message, or bytes that \<open>deserialize_message\<close> rejects (no JSON, or no
  member of \<open>MessageType\<close>).
\<close>

datatype client_frame = Request message | Malformed

text \<open>
  One round of \<open>replication_monitor_loop\<close>, with the default time-out of \<open>check_and_remove_dead_nodes\<close>.
\<close>

definition replication_monitor_round :: "real \<Rightarrow> name_node \<Rightarrow> name_node" where
  "replication_monitor_round now s =
     snd (scan_and_schedule_replication now (snd (check_and_remove_dead_nodes 30 now s)))"

text \<open>
  What happens to a running server: a frame arrives on one of its connections, with the clock and the
  id that \<open>generate_block_id\<close> would return for it, or the monitor wakes up. A handler runs without
  interruption from reading a message to writing the reply.
\<close>

datatype server_event = Arrives nat block_id real client_frame | Monitor real

text \<open>
  \<open>_handle_client\<close> on all connections: each request is answered on its connection; a malformed frame
  raises out of the loop, which closes that connection without a reply, and nothing that comes after
  it on that connection is read.
\<close>

fun serve ::
  "nat list \<Rightarrow> server_event list \<Rightarrow> name_node \<Rightarrow> ((nat \<times> reply) list \<times> name_node) option" where
  "serve gone [] s = Some ([], s)"
| "serve gone (Monitor now # es) s = serve gone es (replication_monitor_round now s)"
| "serve gone (Arrives c i now f # es) s =
     (if c \<in> set gone then serve gone es s
      else case f of
          Malformed \<Rightarrow> serve (c # gone) es s
        | Request m \<Rightarrow>
            (case process_message i now s m of
               None \<Rightarrow> None
             | Some (r, t) \<Rightarrow> map_option (map_prod ((#) (c, r)) id) (serve gone es t)))"

section \<open>Paths that hang below the root\<close>

definition rooted :: "string \<Rightarrow> bool" where
  "rooted p \<longleftrightarrow> p = [] \<or> hd p = slash"

lemma rsplit_slash_cases:
  obtains "slash \<notin> set q" "rsplit_slash q = [q]"
  | x n where "q = x @ slash # n" "slash \<notin> set n" "rsplit_slash q = [x, n]"
proof (cases "slash \<in> set q")
  case True
  then obtain x n where "q = x @ slash # n" "slash \<notin> set n"
    by (metis split_list_last)
  then show ?thesis using that(2) rsplit_slash_append by blast
qed (use that(1) in \<open>simp add: rsplit_slash_def\<close>)

lemma rstrip_slash_hd: "rstrip_slash p \<noteq> [] \<Longrightarrow> hd (rstrip_slash p) = hd p"
  using rstrip_slash_prefix [of p] by (metis hd_append2)

lemma rooted_parent: "rooted p \<Longrightarrow> rooted (get_parent_path p)"
proof -
  assume p: "rooted p"
  show ?thesis
  proof (cases "p = ''/'' \<or> rstrip_slash p = []")
    case True
    then show ?thesis by (auto simp: rooted_def get_parent_path_def rsplit_slash_def)
  next
    case False
    then have hd: "hd (rstrip_slash p) = hd p" "p \<noteq> []"
      by (auto simp: rstrip_slash_hd) (simp add: rstrip_slash_def)
    show ?thesis
    proof (cases "rstrip_slash p" rule: rsplit_slash_cases)
      case 1
      then show ?thesis using hd p False by (auto simp: rooted_def get_parent_path_def)
    next
      case (2 x n)
      then show ?thesis
        using hd p by (cases x) (auto simp: rooted_def get_parent_path_def)
    qed
  qed
qed

text \<open>A path whose parent hangs below the root does so itself.\<close>

lemma rooted_child:
  assumes "rooted (get_parent_path p)"
  shows "rooted p"
proof (cases "p = [] \<or> rstrip_slash p = []")
  case True
  then show ?thesis
  proof
    assume "rstrip_slash p = []"
    then have "\<forall>c\<in>set p. c = slash" by (auto simp: rstrip_slash_def dropWhile_eq_Nil_conv)
    then show ?thesis by (cases p) (auto simp: rooted_def)
  qed (simp add: rooted_def)
next
  case False
  then have hd: "hd (rstrip_slash p) = hd p" by (simp add: rstrip_slash_hd)
  show ?thesis
  proof (cases "rstrip_slash p" rule: rsplit_slash_cases)
    case 1
    then show ?thesis
      using hd assms False by (auto simp: rooted_def get_parent_path_def split: if_splits)
  next
    case (2 x n)
    then show ?thesis
      using hd assms by (cases x) (auto simp: rooted_def get_parent_path_def split: if_splits)
  qed
qed

lemma rooted_parent_neq:
  assumes "rooted p" "p \<noteq> ''/''"
  shows "get_parent_path p \<noteq> p"
proof
  assume *: "get_parent_path p = p"
  then have "p \<noteq> []" using get_parent_path_ne by metis
  then have hd: "slash \<in> set p" "hd p = slash" 
    using assms(1) hd_in_set [of p] by (auto simp: rooted_def)
  show False
  proof (cases "rstrip_slash p" rule: rsplit_slash_cases)
    case 1
    then have "rstrip_slash p = []"
      using hd rstrip_slash_hd [of p] hd_in_set [of "rstrip_slash p"] by metis
    then show False using * assms(2) by (simp add: get_parent_path_def rsplit_slash_def)
  next
    case (2 x n)
    then have "length x < length p" using rstrip_slash_length [of p] by simp
    then show False using * 2 assms(2) by (auto simp: get_parent_path_def split: if_splits)
  qed
qed

section \<open>The quota loop\<close>

text \<open>From a path below the root the walk up the tree ends; every ancestor is examined.\<close>

lemma check_quota_returns:
  "rooted p \<Longrightarrow> \<exists>r. check_quota_for_write s p n = Some r"
proof (induction "if p = [] then 2 else length p" arbitrary: p rule: less_induct)
  case less
  show ?case
  proof (cases "p = ''/''")
    case True
    then show ?thesis by (simp add: check_quota_for_write.simps)
  next
    case False
    let ?q = "get_parent_path p"
    have "?q \<noteq> p" "rooted ?q" using rooted_parent_neq [OF less.prems False] rooted_parent [OF less.prems] by auto
    moreover have "(if ?q = [] then 2 else length ?q) < (if p = [] then 2 else length p)"
      using parent_shorter [OF \<open>?q \<noteq> p\<close>] by auto
    ultimately obtain r where "check_quota_for_write s ?q n = Some r" using less.hyps by blast
    then show ?thesis using False by (subst check_quota_for_write.simps) (auto simp: Let_def)
  qed
qed

text \<open>A path without a slash is its own parent: the loop never ends, unless a quota stops it.\<close>

lemma check_quota_diverges:
  assumes "get_parent_path p = p" "p \<noteq> ''/''" "\<not> quota_exceeded s p n"
  shows "check_quota_for_write s p n = None"
proof -
  have "\<not> (s' = s \<and> q = p \<and> n' = n)" if "check_quota_for_write s' q n' = Some r" for s' q n' r
    by (rule check_quota_for_write.raw_induct [OF _ that, where P = "\<lambda>s' q n' _. \<not> (s' = s \<and> q = p \<and> n' = n)"])
      (use assms in \<open>auto simp: Let_def split: if_splits\<close>)
  then show ?thesis by (cases "check_quota_for_write s p n") auto
qed

lemma check_quota_ok:
  assumes "check_quota_for_write s p n = Some (Inr ())" "norm_path p" "norm_path d" "d \<noteq> ''/''"
    and "get_parent_path p \<in> subtree d" "p \<noteq> ''/''"
  shows "\<not> quota_exceeded s d n"
  using assms(2,1,5,6)
proof (induction rule: norm_path.induct)
  case (child e m)
  have step: "\<not> quota_exceeded s e n" "check_quota_for_write s e n = Some (Inr ())"
    using child.prems child.hyps
    by (auto simp: check_quota_for_write.simps [of s "child_path e m"] Let_def split: if_splits)
  show ?case
  proof (cases "e = d")
    case False
    have e: "e \<noteq> ''/''" using child.prems child.hyps root_not_in_subtree [OF assms(3,4)] by auto
    have "get_parent_path e \<in> subtree d"
      using subtree_parent [OF child.hyps(1) e assms(3,4)] child.prems(2) child.hyps False by simp
    then show ?thesis using child.IH step(2) e by blast
  qed (use step in simp)
qed simp

end
