(* ===== verification/Hdfs_Session.thy ===== *)
theory Hdfs_Session
  imports Hdfs_Server
begin

text \<open>
  Which operations leave the name space alone, and the invariant of a server session: whatever
  requests arrive, every one is answered and the block lists stay consistent.
\<close>

section \<open>Operations on data nodes and replicas keep the name space\<close>

definition keeps :: "name_node \<Rightarrow> name_node \<Rightarrow> bool" where
  "keeps s t \<longleftrightarrow> nn_files t = nn_files s \<and> nn_directories t = nn_directories s \<and>
     map fst (nn_blocks t) = map fst (nn_blocks s) \<and>
     (distinct (map fst (nn_block_to_nodes s)) \<longrightarrow> distinct (map fst (nn_block_to_nodes t)))"

lemma keeps_refl [simp]: "keeps s s"
  by (simp add: keeps_def)

lemma keeps_trans: "keeps s t \<Longrightarrow> keeps t u \<Longrightarrow> keeps s u"
  by (simp add: keeps_def)

lemma keeps_fold: "(\<And>x t. keeps t (f x t)) \<Longrightarrow> keeps s (fold f xs s)"
  by (induction xs arbitrary: s) (auto intro: keeps_trans)

lemma keeps_fold_snd: "(\<And>x r. keeps (snd r) (snd (f x r))) \<Longrightarrow> keeps (snd r) (snd (fold f xs r))"
proof (induction xs arbitrary: r)
  case (Cons x xs)
  show ?case
    using keeps_trans [OF Cons.prems [of r x] Cons.IH [OF Cons.prems, of "f x r"]] by simp
qed simp

lemma keeps_blocks: "keeps s t \<Longrightarrow> keys_of (nn_blocks t) = keys_of (nn_blocks s)"
  unfolding keeps_def keys_of_def by (metis list.set_map)

lemma keeps_inv:
  assumes "keeps s t"
  shows "blk_inv s \<Longrightarrow> blk_inv t" "ns_inv s \<Longrightarrow> ns_inv t" "all_paths t = all_paths s"
    "dir_paths t = dir_paths s"
  using assms keeps_blocks [OF assms] by (auto simp: keeps_def blk_inv_def ns_inv_def)

lemma map_fst_forget_node [simp]: "map fst (forget_node n d) = map fst d"
  by (simp add: forget_node_def case_prod_beta comp_def)

lemma schedule_keeps: "keeps s (schedule_target b n m s)"
  by (simp add: schedule_target_def keeps_def)

lemma scan_block_keeps: "keeps (snd r) (snd (scan_block now b r))"
  by (simp add: scan_block_def Let_def case_prod_beta keeps_fold schedule_keeps)

lemma scan_keeps: "keeps s (snd (scan_and_schedule_replication now s))"
  unfolding scan_and_schedule_replication_def
  using keeps_fold_snd [of "scan_block now" "(0, s)"] scan_block_keeps by simp

lemma remove_datanode_keeps: "keeps s (remove_datanode now n s)"
proof -
  let ?t = "s\<lparr>nn_block_to_nodes := forget_node n (nn_block_to_nodes s),
    nn_datanodes := AList.delete n (nn_datanodes s)\<rparr>"
  have "keeps s ?t" by (simp add: keeps_def)
  then show ?thesis using keeps_trans [OF _ scan_keeps [of ?t now]] by (simp add: remove_datanode_def)
qed

lemma dead_nodes_keeps: "keeps s (snd (check_and_remove_dead_nodes timeout now s))"
  by (simp add: check_and_remove_dead_nodes_def Let_def keeps_fold remove_datanode_keeps)

lemma touch_keeps: "keeps s (touch_node n u r c now s)"
  by (simp add: touch_node_def keeps_def)

lemma take_deletions_keeps: "keeps s (snd (take_deletions n s))"
  by (simp add: take_deletions_def keeps_def split: option.splits)

lemma deliver_keeps: "keeps (snd r) (snd (deliver_replication now n e r))"
  by (cases e; cases r) (auto simp: deliver_replication_def keeps_def Let_def split: option.splits)

lemma heartbeat_keeps: "keeps s (snd (heartbeat s n used remaining now))"
proof (cases "n \<in> keys_of (nn_datanodes s)")
  case True
  let ?s2 = "snd (check_and_remove_dead_nodes 30 now (touch_node n used remaining None now s))"
  have "keeps s ?s2" by (rule keeps_trans [OF touch_keeps dead_nodes_keeps])
  then have "keeps s (snd (take_deletions n ?s2))" by (rule keeps_trans [OF _ take_deletions_keeps])
  then have "keeps s (snd (fold (deliver_replication now n) es (take_deletions n ?s2)))" for es
    by (rule keeps_trans) (rule keeps_fold_snd, rule deliver_keeps)
  then show ?thesis using True by (simp add: heartbeat_def Let_def case_prod_beta)
qed (simp add: heartbeat_def)

lemma handle_heartbeat_keeps: "keeps s (snd (handle_heartbeat s n used remaining c now))"
proof (cases "n \<in> keys_of (nn_datanodes s)")
  case True
  let ?s2 = "snd (check_and_remove_dead_nodes 30 now (touch_node n used remaining c now s))"
  have "keeps s ?s2" by (rule keeps_trans [OF touch_keeps dead_nodes_keeps])
  then show ?thesis
    using True keeps_trans [OF _ take_deletions_keeps] by (simp add: handle_heartbeat_def Let_def)
qed (simp add: handle_heartbeat_def)

lemma check_safe_mode_keeps: "keeps s (check_safe_mode s)"
  by (simp add: check_safe_mode_def keeps_def)

lemma distinct_add_replica:
  "distinct (map fst d) \<Longrightarrow> distinct (map fst (add_replica n b d))"
  by (simp add: add_replica_def)

lemma record_report_keeps: "keeps s (record_report known n bs s)"
proof -
  have "distinct (map fst (fold (\<lambda>b d. if known b then add_replica n b d else d) bs d))"
    if "distinct (map fst d)" for d
    using that by (induction bs arbitrary: d) (auto simp: distinct_add_replica)
  then show ?thesis by (simp add: record_report_def keeps_def)
qed

lemma block_report_keeps: "keeps s (block_report s r)"
  unfolding block_report_def using keeps_trans [OF record_report_keeps check_safe_mode_keeps] by simp

lemma handle_block_report_keeps: "keeps s (handle_block_report s n bs)"
  unfolding handle_block_report_def using keeps_trans [OF record_report_keeps check_safe_mode_keeps]
  by simp

lemma block_received_keeps: "keeps s (block_received s n b sz)"
  by (simp add: block_received_def keeps_def Let_def distinct_add_replica)

lemma register_keeps: "keeps s (snd (register_datanode s n h p c u r rack now))"
  by (simp add: register_datanode_def keeps_def)

lemmas keeps_rules = heartbeat_keeps handle_heartbeat_keeps block_report_keeps
  handle_block_report_keeps block_received_keeps register_keeps scan_keeps dead_nodes_keeps

section \<open>Adding blocks and completing files\<close>

lemma file_blocks_append:
  assumes "distinct (map fst fs)" "map_of fs p = Some f"
  shows "set (file_blocks (AList.map_entry p (\<lambda>f. f\<lparr>fi_blocks := fi_blocks f @ [i]\<rparr>) fs)) =
      insert i (set (file_blocks fs))"
    "distinct (file_blocks fs) \<Longrightarrow> i \<notin> set (file_blocks fs) \<Longrightarrow>
      distinct (file_blocks (AList.map_entry p (\<lambda>f. f\<lparr>fi_blocks := fi_blocks f @ [i]\<rparr>) fs))"
  using assms
proof (induction fs)
  case (Cons a fs)
  obtain q g where a: "a = (q, g)" by (cases a)
  {
    case 1
    then show ?case using Cons.IH(1) a by (auto simp: file_blocks_def split: if_splits)
  next
    case 2
    then show ?case using Cons.IH a by (auto simp: file_blocks_def split: if_splits)
  }
qed (simp_all add: file_blocks_def)

lemma add_block_cases:
  "(\<exists>e. add_block s p i now = (Inl e, s)) \<or>
   (\<exists>r f b. add_block s p i now = (Inr r, s\<lparr>nn_blocks := AList.update i b (nn_blocks s),
      nn_files := AList.map_entry p (\<lambda>f. f\<lparr>fi_blocks := fi_blocks f @ [i]\<rparr>) (nn_files s)\<rparr>) \<and>
      map_of (nn_files s) p = Some f)"
  by (auto simp: add_block_def Let_def split: option.splits sum.splits)

lemma add_block_blk:
  assumes inv: "blk_inv s" and fresh: "i \<notin> keys_of (nn_blocks s)"
  shows "blk_inv (state_of (add_block s p i now))"
  using add_block_cases [of s p i now]
proof
  assume "\<exists>r f b. add_block s p i now = (Inr r, s\<lparr>nn_blocks := AList.update i b (nn_blocks s),
      nn_files := AList.map_entry p (\<lambda>f. f\<lparr>fi_blocks := fi_blocks f @ [i]\<rparr>) (nn_files s)\<rparr>) \<and>
      map_of (nn_files s) p = Some f"
  then obtain r f b where r: "state_of (add_block s p i now) =
      s\<lparr>nn_blocks := AList.update i b (nn_blocks s),
        nn_files := AList.map_entry p (\<lambda>f. f\<lparr>fi_blocks := fi_blocks f @ [i]\<rparr>) (nn_files s)\<rparr>"
    and f: "map_of (nn_files s) p = Some f" by auto
  have d: "distinct (map fst (nn_files s))" using inv by (simp add: blk_inv_def)
  have "i \<notin> set (file_blocks (nn_files s))" using inv fresh by (auto simp: blk_inv_def)
  then show ?thesis
    using inv file_blocks_append [OF d f, of i] by (auto simp: r blk_inv_def)
qed (use inv in auto)

lemma complete_file_cases:
  assumes "complete_file s p n now = Some r"
  shows "(\<exists>e. r = (Inl e, s)) \<or>
    (\<exists>f. map_of (nn_files s) p = Some f \<and> check_quota_for_write s p n = Some (Inr ()) \<and>
       r = (Inr (f\<lparr>fi_size := n, fi_modification_time := now\<rparr>),
            s\<lparr>nn_files := AList.update p (f\<lparr>fi_size := n, fi_modification_time := now\<rparr>) (nn_files s)\<rparr>))"
  using assms by (auto simp: complete_file_def Let_def split: option.splits sum.splits)

lemma file_blocks_update:
  assumes "map_of fs p = Some f" "fi_blocks g = fi_blocks f"
  shows "file_blocks (AList.update p g fs) = file_blocks fs"
  using assms by (induction fs) (auto simp: file_blocks_def)

lemma complete_file_blk:
  assumes "blk_inv s" "complete_file s p n now = Some r"
  shows "blk_inv (state_of r)" "ns_inv s \<Longrightarrow> ns_inv (state_of r)" "all_paths (state_of r) = all_paths s"
proof -
  let ?g = "\<lambda>f. f\<lparr>fi_size := n, fi_modification_time := now\<rparr>"
  have "blk_inv (state_of r) \<and> (ns_inv s \<longrightarrow> ns_inv (state_of r)) \<and> all_paths (state_of r) = all_paths s"
    using complete_file_cases [OF assms(2)]
  proof (elim disjE exE conjE)
    fix f assume f: "map_of (nn_files s) p = Some f" and r: "r = (Inr (?g f),
      s\<lparr>nn_files := AList.update p (?g f) (nn_files s)\<rparr>)"
    have p: "insert p (file_paths s) = file_paths s" using f by (auto simp: keys_of_iff)
    then show ?thesis
      using assms(1) file_blocks_update [OF f, of "?g f"] f
      by (auto simp: r blk_inv_def ns_inv_def files_ok_def)
  qed (use assms(1) in auto)
  then show "blk_inv (state_of r)" "ns_inv s \<Longrightarrow> ns_inv (state_of r)"
    "all_paths (state_of r) = all_paths s" by auto
qed

section \<open>The invariant of a session\<close>

definition srv_inv :: "name_node \<Rightarrow> bool" where
  "srv_inv s \<longleftrightarrow> blk_inv s \<and> (\<forall>p\<in>all_paths s. rooted p)"

lemma mkdir_rooted:
  assumes "\<forall>p\<in>dir_paths s. rooted p"
  shows "(\<forall>q\<in>dir_paths (state_of (mkdir s p cp now)). rooted q) \<and>
    (\<forall>d. result_of (mkdir s p cp now) = Inr d \<longrightarrow> p \<in> dir_paths (state_of (mkdir s p cp now)))"
  using assms
proof (induction s p cp now rule: mkdir.induct)
  case (1 s p cp now)
  have add: "(\<forall>q\<in>dir_paths (state_of (add_directory t p now)). rooted q) \<and>
      p \<in> dir_paths (state_of (add_directory t p now))"
    if "\<forall>q\<in>dir_paths t. rooted q" "get_parent_path p \<in> dir_paths t" for t
    using that rooted_child [of p] by (auto simp: add_directory_def Let_def)
  show ?case
  proof (cases "p \<notin> dir_paths s \<and> get_parent_path p \<notin> dir_paths s \<and> cp \<and> get_parent_path p \<noteq> p")
    case True
    obtain v t where m: "mkdir s (get_parent_path p) True now = (v, t)" by force
    have "(\<forall>q\<in>dir_paths t. rooted q) \<and> (\<forall>d. v = Inr d \<longrightarrow> get_parent_path p \<in> dir_paths t)"
      using 1(1) [OF _ refl] True 1(2) m by simp
    then show ?thesis
      using True m add [of t] by (cases v) (simp_all add: mkdir.simps [of s p])
  next
    case False
    then show ?thesis using 1(2) add [of s] by (auto simp: mkdir.simps [of s p] Let_def)
  qed
qed

lemma create_file_rooted:
  assumes "\<forall>p\<in>all_paths s. rooted p"
  shows "\<forall>q\<in>all_paths (state_of (create_file s p r b ov now)). rooted q"
proof -
  define m where "m = (if p \<in> file_paths s
    then if \<not> ov then (Inl FileExistsError, s) else delete_file s p else (Inr True, s))"
  have m: "\<forall>q\<in>all_paths (state_of m). rooted q"
    using assms delete_file_cases [of s p] by (auto simp: m_def)
  obtain v t where vt: "m = (v, t)" by force
  show ?thesis
  proof (cases v)
    case (Inr x)
    have "get_parent_path p \<in> dir_paths t \<Longrightarrow> rooted p" using m vt rooted_child [of p] by auto
    then show ?thesis
      using m vt Inr by (auto simp: create_file_def m_def [symmetric] Let_def)
  qed (use m vt in \<open>auto simp: create_file_def m_def [symmetric]\<close>)
qed

lemma create_file_blocks:
  "keys_of (nn_blocks (state_of (delete_file s p))) \<subseteq> keys_of (nn_blocks s)"
  "keys_of (nn_blocks (state_of (create_file s p r b ov now))) \<subseteq> keys_of (nn_blocks s)"
proof -
  have fe: "keys_of (nn_blocks (state_of (for_each delete_block bs s))) \<subseteq> keys_of (nn_blocks s)" for bs
    by (rule for_each_inv) (auto simp: delete_block_def Let_def)
  show df: "keys_of (nn_blocks (state_of (delete_file s p))) \<subseteq> keys_of (nn_blocks s)" for s p
  proof (cases "map_of (nn_files s) p")
    case (Some f)
    have "keys_of (nn_blocks (state_of (for_each delete_block (fi_blocks f) s))) \<subseteq> keys_of (nn_blocks s)"
      by (rule for_each_inv) (auto simp: delete_block_def Let_def)
    then show ?thesis
      using Some by (cases "for_each delete_block (fi_blocks f) s")
        (auto simp: delete_file_def and_then_def split: sum.splits)
  qed (simp add: delete_file_def)
  show "keys_of (nn_blocks (state_of (create_file s p r b ov now))) \<subseteq> keys_of (nn_blocks s)"
    using df [of s p] by (cases "delete_file s p")
      (auto simp: create_file_def and_then_def Let_def split: sum.splits)
qed

lemma answer_state [simp]: "snd (answer f r) = state_of r"
  by (auto simp: answer_def split: prod.splits sum.splits)

lemma answer_ok:
  assumes "x = Some (answer f r)" "srv_inv (state_of r)" "keys_of (nn_blocks (state_of r)) \<subseteq> K"
  shows "\<exists>v t. x = Some (v, t) \<and> srv_inv t \<and> keys_of (nn_blocks t) \<subseteq> K"
  using assms answer_state [of f r] by (cases "answer f r") auto

lemma process_message_inv:
  assumes inv: "srv_inv s" and fresh: "i \<notin> keys_of (nn_blocks s)"
  shows "\<exists>r t. process_message i now s m = Some (r, t) \<and> srv_inv t \<and>
    keys_of (nn_blocks t) \<subseteq> insert i (keys_of (nn_blocks s))"
proof -
  have blk: "blk_inv s" and ro: "\<forall>p\<in>all_paths s. rooted p" using inv by (auto simp: srv_inv_def)
  have kept: "srv_inv t \<and> keys_of (nn_blocks t) \<subseteq> insert i (keys_of (nn_blocks s))" if "keeps s t" for t
    using keeps_inv [OF that] keeps_blocks [OF that] inv by (auto simp: srv_inv_def)
  show ?thesis
  proof (cases m)
    case (CREATE_FILE p r b ov)
    let ?t = "state_of (create_file s p r b ov now)"
    have "srv_inv ?t" using create_file_blk [OF blk] create_file_rooted [OF ro] by (simp add: srv_inv_def)
    moreover have "keys_of (nn_blocks ?t) \<subseteq> insert i (keys_of (nn_blocks s))"
      using create_file_blocks(2) by blast
    ultimately show ?thesis using CREATE_FILE by (intro answer_ok) simp_all
  next
    case (COMPLETE_FILE p n)
    have "\<exists>x. complete_file s p n now = Some x"
    proof (cases "map_of (nn_files s) p")
      case (Some f)
      then have "rooted p" using ro by (auto simp: keys_of_iff)
      from check_quota_returns [OF this, of s n] show ?thesis
        using Some by (auto simp: complete_file_def Let_def split: sum.splits)
    qed (simp add: complete_file_def)
    then obtain x where x: "complete_file s p n now = Some x" ..
    have "keys_of (nn_blocks (state_of x)) = keys_of (nn_blocks s)"
      using complete_file_cases [OF x] by auto
    then have "srv_inv (state_of x)" "keys_of (nn_blocks (state_of x)) \<subseteq> insert i (keys_of (nn_blocks s))"
      using complete_file_blk [OF blk x] ro by (auto simp: srv_inv_def)
    then show ?thesis using COMPLETE_FILE x by (intro answer_ok) simp_all
  next
    case (ADD_BLOCK p)
    let ?t = "state_of (add_block s p i now)"
    have "blk_inv ?t" by (rule add_block_blk [OF blk fresh])
    moreover have "all_paths ?t = all_paths s" "keys_of (nn_blocks ?t) \<subseteq> insert i (keys_of (nn_blocks s))"
      using add_block_cases [of s p i now] by auto
    ultimately have "srv_inv ?t" using ro by (simp add: srv_inv_def)
    then show ?thesis
      using ADD_BLOCK \<open>keys_of (nn_blocks ?t) \<subseteq> _\<close> by (intro answer_ok) simp_all
  next
    case (MKDIR p cp)
    let ?t = "state_of (mkdir s p cp now)"
    have "srv_inv ?t" "nn_blocks ?t = nn_blocks s"
      using mkdir_blk [of s p cp now] blk ro mkdir_rooted [of s p cp now]
      by (auto simp: srv_inv_def blk_inv_def)
    then show ?thesis
      using MKDIR by (intro answer_ok [where r = "mkdir s p cp now"]) auto
  next
    case (DELETE_FILE p)
    let ?t = "state_of (delete_file s p)"
    have "srv_inv ?t"
      using delete_file_blk [OF blk, of p] ro delete_file_cases [of s p] by (auto simp: srv_inv_def)
    then show ?thesis
      using DELETE_FILE create_file_blocks(1) [of s p]
      by (intro answer_ok [where r = "delete_file s p"]) auto
  next
    case (HEARTBEAT n used remaining)
    then show ?thesis
      using kept [OF heartbeat_keeps [of s n used remaining now]]
      by (cases "heartbeat s n used remaining now") simp
  qed (use inv kept keeps_rules in \<open>auto split: sum.splits option.splits\<close>)
qed

text \<open>The ids that events bring, the frames of a connection, and those of them that are read.\<close>

fun fresh_ids :: "server_event list \<Rightarrow> block_id list" where
  "fresh_ids [] = []"
| "fresh_ids (Arrives c i now f # es) = i # fresh_ids es"
| "fresh_ids (Monitor now # es) = fresh_ids es"

fun frames_of :: "nat \<Rightarrow> server_event list \<Rightarrow> client_frame list" where
  "frames_of c [] = []"
| "frames_of c (Arrives c' i now f # es) = (if c' = c then f # frames_of c es else frames_of c es)"
| "frames_of c (Monitor now # es) = frames_of c es"

definition requests_of :: "nat \<Rightarrow> server_event list \<Rightarrow> client_frame list" where
  "requests_of c es = takeWhile (\<lambda>f. f \<noteq> Malformed) (frames_of c es)"

definition replies_to :: "nat \<Rightarrow> (nat \<times> reply) list \<Rightarrow> reply list" where
  "replies_to c rs = map snd (filter (\<lambda>r. fst r = c) rs)"

lemma monitor_keeps: "keeps s (replication_monitor_round now s)"
  unfolding replication_monitor_round_def by (rule keeps_trans [OF dead_nodes_keeps scan_keeps])

definition read_of :: "nat list \<Rightarrow> nat \<Rightarrow> server_event list \<Rightarrow> client_frame list" where
  "read_of gone c es = (if c \<in> set gone then [] else requests_of c es)"

lemma read_of_simps:
  "read_of gone c [] = []"
  "read_of gone c (Monitor now # es) = read_of gone c es"
  "c' \<in> set gone \<Longrightarrow> read_of gone c (Arrives c' i now f # es) = read_of gone c es"
  "read_of gone c (Arrives c' i now Malformed # es) = read_of (c' # gone) c es"
  "c' \<notin> set gone \<Longrightarrow> read_of gone c (Arrives c' i now (Request m) # es) =
     (if c' = c then Request m # read_of gone c es else read_of gone c es)"
  by (auto simp: read_of_def requests_of_def)

lemma replies_to_Cons:
  "replies_to c ((c', r) # rs) = (if c' = c then r # replies_to c rs else replies_to c rs)"
  by (simp add: replies_to_def)

lemma serve_answers:
  assumes "srv_inv s" "distinct (fresh_ids es)" "set (fresh_ids es) \<inter> keys_of (nn_blocks s) = {}"
  shows "\<exists>rs t. serve gone es s = Some (rs, t) \<and> srv_inv t \<and>
    (\<forall>c. length (replies_to c rs) = length (read_of gone c es))"
  using assms
proof (induction gone es s rule: serve.induct)
  case (2 gone now es s)
  note k = monitor_keeps [of s now]
  have "srv_inv (replication_monitor_round now s)"
    using keeps_inv [OF k] 2(2) by (auto simp: srv_inv_def)
  moreover have "set (fresh_ids es) \<inter> keys_of (nn_blocks (replication_monitor_round now s)) = {}"
    using 2(4) keeps_blocks [OF k] by simp
  ultimately show ?case using 2(1) 2(3) by (simp add: read_of_simps)
next
  case (3 gone c i now f es s)
  have ids: "distinct (fresh_ids es)" "set (fresh_ids es) \<inter> keys_of (nn_blocks s) = {}" "i \<notin> keys_of (nn_blocks s)"
    using 3(5,6) by auto
  consider "c \<in> set gone" | "c \<notin> set gone" "f = Malformed" | m where "c \<notin> set gone" "f = Request m"
    by (cases f) auto
  then show ?case
  proof cases
    case 1
    from 3(1) [OF 1 3(4) ids(1,2)] show ?thesis using 1 by (simp add: read_of_simps)
  next
    case 2
    from 3(3) [OF 2 3(4) ids(1,2)] show ?thesis using 2 by (simp add: read_of_simps)
  next
    case (3 m)
    from process_message_inv [OF "3.prems"(1) ids(3), of now m] obtain r t where
      t: "process_message i now s m = Some (r, t)" "srv_inv t"
        "keys_of (nn_blocks t) \<subseteq> insert i (keys_of (nn_blocks s))" by blast
    have "set (fresh_ids es) \<inter> keys_of (nn_blocks t) = {}" using "3.prems"(2,3) t(3) by auto
    from "3.IH"(2) [OF 3 t(1) refl t(2) ids(1) this] obtain rs u where
      u: "serve gone es t = Some (rs, u)" "srv_inv u"
        "\<forall>c. length (replies_to c rs) = length (read_of gone c es)" by blast
    have "serve gone (Arrives c i now f # es) s = Some ((c, r) # rs, u)" using 3 t(1) u(1) by simp
    then show ?thesis using u(2,3) 3 by (simp add: read_of_simps replies_to_Cons)
  qed
qed (simp add: read_of_simps replies_to_def)

lemma srv_inv_init: "srv_inv (name_node_init r b now)"
  by (simp add: srv_inv_def blk_inv_def name_node_init_def file_blocks_def rooted_def)

end
