(* ===== verification/Hdfs_Image.thy ===== *)
theory Hdfs_Image
  imports Hdfs_Session
begin

text \<open>
  Checkpoints of the name node: \<open>save_checkpoint\<close>, \<open>load_checkpoint\<close>, the atomic write and the
  recovery at start-up. A checkpoint file holds a dictionary of the shape that the code builds
  (writing and reading it as JSON gives the same value back, its keys being strings) or text that
  does not parse; None stands for an entry of the dictionary that lacks a key the loader reads.
\<close>

section \<open>The checkpoint dictionary\<close>

record ck_file =
  cf_path :: string
  cf_size :: int
  cf_block_size :: int
  cf_replication :: int
  cf_blocks :: "block_id list"
  cf_modification_time :: real
  cf_owner :: string
  cf_group :: string
  cf_permission :: int

record ck_dir =
  cd_path :: string
  cd_children :: "string list"
  cd_modification_time :: real
  cd_owner :: string
  cd_group :: string
  cd_permission :: int

record ck_node =
  cn_node_id :: node_id
  cn_host :: string
  cn_port :: int
  cn_rack :: string
  cn_capacity :: int
  cn_used :: int
  cn_remaining :: int

record checkpoint =
  ck_files :: "(string \<times> ck_file option) list"
  ck_directories :: "(string \<times> ck_dir option) list"
  ck_blocks :: "(block_id \<times> block option) list"
  ck_datanodes :: "(node_id \<times> ck_node option) list"
  ck_block_to_nodes :: "(block_id \<times> node_id list) list"

definition save_file :: "file_info \<Rightarrow> ck_file" where
  "save_file f = \<lparr>cf_path = fi_path f, cf_size = fi_size f, cf_block_size = fi_block_size f,
     cf_replication = fi_replication f, cf_blocks = fi_blocks f,
     cf_modification_time = fi_modification_time f, cf_owner = fi_owner f, cf_group = fi_group f,
     cf_permission = fi_permission f\<rparr>"

definition save_dir :: "directory_info \<Rightarrow> ck_dir" where
  "save_dir d = \<lparr>cd_path = di_path d, cd_children = di_children d,
     cd_modification_time = di_modification_time d, cd_owner = di_owner d, cd_group = di_group d,
     cd_permission = di_permission d\<rparr>"

definition save_node :: "data_node_info \<Rightarrow> ck_node" where
  "save_node n = \<lparr>cn_node_id = dn_node_id n, cn_host = dn_host n, cn_port = dn_port n,
     cn_rack = dn_rack n, cn_capacity = dn_capacity n, cn_used = dn_used n,
     cn_remaining = dn_remaining n\<rparr>"

definition save_checkpoint :: "name_node \<Rightarrow> checkpoint" where
  "save_checkpoint s =
     \<lparr>ck_files = map (\<lambda>(p, f). (p, Some (save_file f))) (nn_files s),
      ck_directories = map (\<lambda>(p, d). (p, Some (save_dir d))) (nn_directories s),
      ck_blocks = map (\<lambda>(i, b). (i, Some b)) (nn_blocks s),
      ck_datanodes = map (\<lambda>(i, n). (i, Some (save_node n))) (nn_datanodes s),
      ck_block_to_nodes = nn_block_to_nodes s\<rparr>"

text \<open>The constructor calls of \<open>load_checkpoint\<close>; fields that are not passed get their defaults.\<close>

definition load_file :: "real \<Rightarrow> ck_file \<Rightarrow> file_info" where
  "load_file now c = \<lparr>fi_path = cf_path c, fi_size = cf_size c, fi_block_size = cf_block_size c,
     fi_replication = cf_replication c, fi_blocks = cf_blocks c,
     fi_modification_time = cf_modification_time c, fi_access_time = now, fi_owner = cf_owner c,
     fi_group = cf_group c, fi_permission = cf_permission c\<rparr>"

definition load_dir :: "ck_dir \<Rightarrow> directory_info" where
  "load_dir c = \<lparr>di_path = cd_path c, di_children = remdups (cd_children c),
     di_modification_time = cd_modification_time c, di_owner = cd_owner c, di_group = cd_group c,
     di_permission = cd_permission c, di_namespace_quota = None, di_space_quota = None\<rparr>"

definition load_node :: "real \<Rightarrow> ck_node \<Rightarrow> data_node_info" where
  "load_node now c = \<lparr>dn_node_id = cn_node_id c, dn_host = cn_host c, dn_port = cn_port c,
     dn_rack = cn_rack c, dn_capacity = cn_capacity c, dn_used = cn_used c,
     dn_remaining = cn_remaining c, dn_last_heartbeat = now, dn_blocks = []\<rparr>"

definition load_block :: "real \<Rightarrow> block \<Rightarrow> block" where
  "load_block now b = mk_block (bk_block_id b) (bk_size b) (bk_generation_stamp b) now"

text \<open>
  The loops of \<open>load_checkpoint\<close>: each fills a dictionary that starts empty, and an entry without
  one of its keys raises \<open>KeyError\<close> with the dictionary filled so far.
\<close>

fun load_dict ::
  "('v \<Rightarrow> 'w) \<Rightarrow> (string \<times> 'v option) list \<Rightarrow> (string \<times> 'w) list \<Rightarrow>
   (hdfs_error, unit, (string \<times> 'w) list) outcome" where
  "load_dict f [] d = (Inr (), d)"
| "load_dict f ((k, None) # items) d = (Inl Key_Error, d)"
| "load_dict f ((k, Some v) # items) d = load_dict f items (AList.update k (f v) d)"

definition load_section ::
  "('v \<Rightarrow> 'w) \<Rightarrow> (string \<times> 'v option) list \<Rightarrow> ((string \<times> 'w) list \<Rightarrow> name_node) \<Rightarrow> unit nn_outcome" where
  "load_section f items store = map_prod id store (load_dict f items [])"

definition fill_dict :: "('v \<Rightarrow> 'w) \<Rightarrow> (string \<times> 'v) list \<Rightarrow> (string \<times> 'w) list" where
  "fill_dict f items = fold (\<lambda>(k, v). AList.update k (f v)) items []"

definition load_checkpoint :: "checkpoint \<Rightarrow> real \<Rightarrow> name_node \<Rightarrow> unit nn_outcome" where
  "load_checkpoint c now s =
     and_then (load_section (load_file now) (ck_files c) (\<lambda>d. s\<lparr>nn_files := d\<rparr>)) (\<lambda>_ s.
     and_then (load_section load_dir (ck_directories c) (\<lambda>d. s\<lparr>nn_directories := d\<rparr>)) (\<lambda>_ s.
     and_then (load_section (load_block now) (ck_blocks c) (\<lambda>d. s\<lparr>nn_blocks := d\<rparr>)) (\<lambda>_ s.
     and_then (load_section (load_node now) (ck_datanodes c) (\<lambda>d. s\<lparr>nn_datanodes := d\<rparr>)) (\<lambda>_ s.
       (Inr (), s\<lparr>nn_block_to_nodes := fill_dict remdups (ck_block_to_nodes c)\<rparr>)))))"

section \<open>Checkpoint files\<close>

datatype content = Checkpoint checkpoint | Unparsable

type_synonym disk = "string \<rightharpoonup> content"

definition write_checkpoint_atomic :: "name_node \<Rightarrow> string \<Rightarrow> disk \<Rightarrow> disk" where
  "write_checkpoint_atomic s path d =
     (let tmp_path = path @ ''.tmp''; d1 = d(tmp_path \<mapsto> Checkpoint (save_checkpoint s))
      in (d1(path := d1 tmp_path))(tmp_path := None))"

text \<open>
  \<open>configure_checkpointing\<close>: the new checkpoint path and the state after the optional recovery. A
  file that does not parse raises \<open>ValueError\<close>, which is logged, and the state is kept; a missing key
  raises \<open>KeyError\<close>, which is logged too, and the state stays as far as it was replaced.
\<close>

definition configure_checkpointing ::
  "name_node \<Rightarrow> string \<Rightarrow> bool \<Rightarrow> disk \<Rightarrow> real \<Rightarrow> string \<times> name_node" where
  "configure_checkpointing s path load d now =
     (path, if load then (case d path of Some (Checkpoint c) \<Rightarrow> state_of (load_checkpoint c now s) | _ \<Rightarrow> s)
      else s)"

section \<open>Round trip\<close>

text \<open>The representation of dictionaries and sets: distinct keys, no duplicates.\<close>

definition dicts_ok :: "name_node \<Rightarrow> bool" where
  "dicts_ok s \<longleftrightarrow> distinct (map fst (nn_files s)) \<and> distinct (map fst (nn_directories s)) \<and>
     distinct (map fst (nn_blocks s)) \<and> distinct (map fst (nn_datanodes s)) \<and>
     distinct (map fst (nn_block_to_nodes s)) \<and>
     (\<forall>(_, d)\<in>set (nn_directories s). distinct (di_children d)) \<and>
     (\<forall>(_, ns)\<in>set (nn_block_to_nodes s). distinct ns)"

lemma fold_update_new:
  assumes "distinct (map fst items)" "keys_of d \<inter> fst ` set items = {}"
  shows "fold (\<lambda>(k, v). AList.update k (f v)) items d = d @ map (\<lambda>(k, v). (k, f v)) items"
  using assms
proof (induction items arbitrary: d)
  case (Cons a items)
  obtain k v where a: "a = (k, v)" by (cases a)
  have "k \<notin> keys_of d" using Cons.prems(2) a by auto
  moreover have "keys_of (d @ [(k, f v)]) \<inter> fst ` set items = {}" using Cons.prems a by auto
  ultimately show ?case
    using Cons.IH [of "d @ [(k, f v)]"] Cons.prems(1) a by (simp add: update_new_key)
qed simp

lemma load_dict_saved:
  "load_dict f (map (\<lambda>(k, v). (k, Some (g v))) xs) d =
   (Inr (), fold (\<lambda>(k, v). AList.update k (f (g v))) xs d)"
  by (induction xs arbitrary: d) auto

lemma load_section_saved:
  "load_section f (map (\<lambda>(k, v). (k, Some (g v))) xs) store = (Inr (), store (fill_dict (\<lambda>v. f (g v)) xs))"
  by (simp add: load_section_def load_dict_saved fill_dict_def)

lemma fill_dict_map: "distinct (map fst xs) \<Longrightarrow> fill_dict f xs = map (\<lambda>(k, v). (k, f v)) xs"
  using fold_update_new [of xs "[]" f] by (simp add: fill_dict_def)

lemma load_save_file: "load_file now (save_file f) = f\<lparr>fi_access_time := now\<rparr>"
  by (simp add: load_file_def save_file_def)

lemma load_save_dir:
  "distinct (di_children d) \<Longrightarrow>
   load_dir (save_dir d) = d\<lparr>di_namespace_quota := None, di_space_quota := None\<rparr>"
  by (simp add: load_dir_def save_dir_def distinct_remdups_id)

lemma load_save_node: "load_node now (save_node n) = n\<lparr>dn_last_heartbeat := now, dn_blocks := []\<rparr>"
  by (simp add: load_node_def save_node_def)

lemma load_block_same: "bk_generation_stamp b \<noteq> 0 \<Longrightarrow> load_block now b = b"
  by (simp add: load_block_def mk_block_def)

text \<open>Loading what another name node saved does not raise, and replaces the five dictionaries.\<close>

lemma load_saved:
  "load_checkpoint (save_checkpoint s) now u =
   (Inr (), u\<lparr>nn_files := fill_dict (\<lambda>f. load_file now (save_file f)) (nn_files s),
      nn_directories := fill_dict (\<lambda>d. load_dir (save_dir d)) (nn_directories s),
      nn_blocks := fill_dict (load_block now) (nn_blocks s),
      nn_datanodes := fill_dict (\<lambda>n. load_node now (save_node n)) (nn_datanodes s),
      nn_block_to_nodes := fill_dict remdups (nn_block_to_nodes s)\<rparr>)"
  by (simp add: load_checkpoint_def save_checkpoint_def load_section_saved
      load_section_saved [where g = "\<lambda>b. b"])

lemma load_save_names:
  fixes now u
  assumes "distinct (map fst (nn_files s))" "distinct (map fst (nn_directories s))"
    and "\<forall>(_, d)\<in>set (nn_directories s). distinct (di_children d)"
  defines "t \<equiv> state_of (load_checkpoint (save_checkpoint s) now u)"
  shows "nn_files t = map (\<lambda>(p, f). (p, f\<lparr>fi_access_time := now\<rparr>)) (nn_files s)"
    "nn_directories t =
      map (\<lambda>(p, i). (p, i\<lparr>di_namespace_quota := None, di_space_quota := None\<rparr>)) (nn_directories s)"
proof -
  show "nn_files t = map (\<lambda>(p, f). (p, f\<lparr>fi_access_time := now\<rparr>)) (nn_files s)"
    using assms(1) by (simp add: t_def load_saved fill_dict_map load_save_file)
  show "nn_directories t =
      map (\<lambda>(p, i). (p, i\<lparr>di_namespace_quota := None, di_space_quota := None\<rparr>)) (nn_directories s)"
    using assms(2,3) by (simp add: t_def load_saved fill_dict_map) (auto simp: load_save_dir)
qed

lemma load_save_fields:
  fixes now u
  assumes "dicts_ok s" "\<forall>(_, b)\<in>set (nn_blocks s). bk_generation_stamp b \<noteq> 0"
  defines "t \<equiv> state_of (load_checkpoint (save_checkpoint s) now u)"
  shows "nn_files t = map (\<lambda>(p, f). (p, f\<lparr>fi_access_time := now\<rparr>)) (nn_files s)"
    "nn_directories t =
      map (\<lambda>(p, i). (p, i\<lparr>di_namespace_quota := None, di_space_quota := None\<rparr>)) (nn_directories s)"
    "nn_blocks t = nn_blocks s" "nn_block_to_nodes t = nn_block_to_nodes s"
    "nn_datanodes t =
      map (\<lambda>(n, i). (n, i\<lparr>dn_last_heartbeat := now, dn_blocks := []\<rparr>)) (nn_datanodes s)"
proof -
  note d = assms(1) [unfolded dicts_ok_def]
  show "nn_files t = map (\<lambda>(p, f). (p, f\<lparr>fi_access_time := now\<rparr>)) (nn_files s)"
    "nn_directories t =
      map (\<lambda>(p, i). (p, i\<lparr>di_namespace_quota := None, di_space_quota := None\<rparr>)) (nn_directories s)"
    unfolding t_def using d by (simp_all add: load_save_names)
  show "nn_blocks t = nn_blocks s"
    using d assms(2) by (simp add: t_def load_saved fill_dict_map)
      (auto simp: load_block_same intro!: map_idI)
  show "nn_block_to_nodes t = nn_block_to_nodes s"
    using d by (simp add: t_def load_saved fill_dict_map)
      (auto simp: distinct_remdups_id intro!: map_idI)
  show "nn_datanodes t =
      map (\<lambda>(n, i). (n, i\<lparr>dn_last_heartbeat := now, dn_blocks := []\<rparr>)) (nn_datanodes s)"
    using d by (simp add: t_def load_saved fill_dict_map load_save_node)
qed

lemma map_of_map_values: "map_of (map (\<lambda>(k, v). (k, g v)) xs) q = map_option g (map_of xs q)"
  by (induction xs) auto

lemma map_fst_map_values: "map fst (map (\<lambda>(k, v). (k, g v)) xs) = map fst xs"
  by auto

text \<open>A change of the entries that keeps paths, children and blocks keeps the invariants.\<close>

lemma inv_map_values:
  assumes files: "nn_files t = map (\<lambda>(p, f). (p, g f)) (nn_files s)"
    and g: "\<And>f. fi_path (g f) = fi_path f \<and> fi_blocks (g f) = fi_blocks f"
    and dirs: "nn_directories t = map (\<lambda>(p, d). (p, h d)) (nn_directories s)"
    and h: "\<And>d. di_path (h d) = di_path d \<and> di_children (h d) = di_children d"
  shows "ns_inv s \<Longrightarrow> ns_inv t" "list_directory t p = list_directory s p"
    "file_blocks (nn_files t) = file_blocks (nn_files s)" "map fst (nn_files t) = map fst (nn_files s)"
proof -
  have lf: "map_of (nn_files t) q = map_option g (map_of (nn_files s) q)" for q
    unfolding files by (rule map_of_map_values)
  have ld: "map_of (nn_directories t) q = map_option h (map_of (nn_directories s) q)" for q
    unfolding dirs by (rule map_of_map_values)
  show k: "map fst (nn_files t) = map fst (nn_files s)" unfolding files by (rule map_fst_map_values)
  have k': "map fst (nn_directories t) = map fst (nn_directories s)"
    unfolding dirs by (rule map_fst_map_values)
  have paths: "file_paths t = file_paths s" "dir_paths t = dir_paths s"
    using k k' unfolding keys_of_def by (metis list.set_map)+
  show "file_blocks (nn_files t) = file_blocks (nn_files s)"
    unfolding files file_blocks_def using g by (simp add: comp_def case_prod_beta)
  show "list_directory t p = list_directory s p"
    using ld [of p] h by (simp add: list_directory_def split: option.splits)
  assume inv: "ns_inv s"
  have "dirs_ok (all_paths t) (nn_directories t)"
    unfolding dirs_ok_def k' paths
  proof (intro conjI allI impI)
    fix d i assume "map_of (nn_directories t) d = Some i"
    then obtain j where j: "map_of (nn_directories s) d = Some j" "i = h j" using ld [of d] by auto
    have "norm_path d \<and> di_path j = d \<and> distinct (di_children j) \<and>
        set (di_children j) = names_in (all_paths s) d"
      using ns_invD(2) [OF inv] j(1) unfolding dirs_ok_def by blast
    then show "norm_path d" "di_path i = d" "distinct (di_children i)"
      "set (di_children i) = names_in (all_paths s) d" using h j(2) by simp_all
  qed (use ns_invD(2) [OF inv] in \<open>simp add: dirs_ok_def\<close>)
  moreover have "fi_path f = q" if f: "map_of (nn_files t) q = Some f" for q f
  proof -
    obtain f' where "map_of (nn_files s) q = Some f'" "f = g f'" using f lf [of q] by auto
    then show ?thesis using ns_invD(3) [OF inv] g unfolding files_ok_def by metis
  qed
  ultimately show "ns_inv t"
    using ns_invD(1,3) [OF inv] unfolding ns_inv_def files_ok_def paths k by blast
qed

text \<open>Loading a saved checkpoint keeps both invariants.\<close>

lemma fill_dict_keys: "distinct (map fst (fill_dict f xs))" "keys_of (fill_dict f xs) = keys_of xs"
proof -
  have "distinct (map fst d) \<Longrightarrow> distinct (map fst (fold (\<lambda>(k, v). AList.update k (f v)) xs d))"
    "keys_of (fold (\<lambda>(k, v). AList.update k (f v)) xs d) = keys_of d \<union> keys_of xs" for d
    by (induction xs arbitrary: d) (auto simp: distinct_update)
  then show "distinct (map fst (fill_dict f xs))" "keys_of (fill_dict f xs) = keys_of xs"
    by (simp_all add: fill_dict_def)
qed

lemma load_saved_inv:
  assumes "ns_inv s" "blk_inv s"
  shows "ns_inv (state_of (load_checkpoint (save_checkpoint s) now u)) \<and>
    blk_inv (state_of (load_checkpoint (save_checkpoint s) now u))"
proof -
  let ?t = "state_of (load_checkpoint (save_checkpoint s) now u)"
  have d: "distinct (map fst (nn_files s))" "distinct (map fst (nn_directories s))"
    using ns_invD(2,3) [OF assms(1)] by (simp_all add: files_ok_def dirs_ok_def)
  have c: "\<forall>(_, d)\<in>set (nn_directories s). distinct (di_children d)"
    using ns_invD(2) [OF assms(1)] d(2) unfolding dirs_ok_def by (auto simp: map_of_eq_Some_iff)
  note n = load_save_names [OF d c, of now u]
  note i = inv_map_values [OF n(1) _ n(2)]
  have "ns_inv ?t" using i(1) assms(1) by simp
  moreover have "blk_inv ?t"
  proof -
    have "file_blocks (nn_files ?t) = file_blocks (nn_files s)" "map fst (nn_files ?t) = map fst (nn_files s)"
      using i(3,4) by simp_all
    moreover have "nn_blocks ?t = fill_dict (load_block now) (nn_blocks s)"
      "nn_block_to_nodes ?t = fill_dict remdups (nn_block_to_nodes s)" by (simp_all add: load_saved)
    ultimately show ?thesis using assms(2) by (simp add: blk_inv_def fill_dict_keys)
  qed
  ultimately show ?thesis by simp
qed

end
