(* ===== verification/Hdfs_Reach.thy ===== *)
theory Hdfs_Reach
  imports Hdfs_Image
begin

text \<open>
  The states a name node can reach through its methods, as an inductive predicate with one rule
  per method, and the properties of the name space that follow.
\<close>

section \<open>Reachable states\<close>

text \<open>
  The premises are what the callers have to respect because the code does not check it: normalised
  paths, no file made over a directory and no directory made at or below a file, a destination of
  \<open>rename\<close> whose parent exists and that is not inside the source, fresh block ids from \<open>uuid\<close>, and
  checkpoints written by a name node whose callers respected the same rules.
\<close>

inductive reach :: "name_node \<Rightarrow> bool" where
  init: "reach (name_node_init r b now)"
| create: "reach s \<Longrightarrow> norm_path p \<Longrightarrow> p \<notin> dir_paths s \<Longrightarrow>
    reach (state_of (create_file s p r b ov now))"
| delete: "reach s \<Longrightarrow> reach (state_of (delete_file s p))"
| make_dir: "reach s \<Longrightarrow> norm_path p \<Longrightarrow> \<forall>q\<in>file_paths s. p \<notin> subtree q \<Longrightarrow>
    reach (state_of (mkdir s p cp now))"
| delete_dir: "reach s \<Longrightarrow> reach (state_of (delete_directory s p rec))"
| move: "reach s \<Longrightarrow> src \<noteq> ''/'' \<Longrightarrow> norm_path dst \<Longrightarrow> dst \<notin> subtree src \<Longrightarrow>
    get_parent_path dst \<in> dir_paths s \<Longrightarrow> reach (state_of (rename s src dst))"
| add: "reach s \<Longrightarrow> i \<notin> keys_of (nn_blocks s) \<Longrightarrow> reach (state_of (add_block s p i now))"
| allocate: "reach s \<Longrightarrow> norm_path p \<Longrightarrow> p \<notin> dir_paths s \<Longrightarrow> \<forall>q\<in>file_paths s. p \<in> subtree q \<longrightarrow> q = p \<Longrightarrow>
    distinct js \<Longrightarrow> set js \<inter> keys_of (nn_blocks s) = {} \<Longrightarrow>
    reach (state_of (allocate_blocks s p js n now))"
| complete: "reach s \<Longrightarrow> complete_file s p n now = Some r \<Longrightarrow> reach (state_of r)"
| quota: "reach s \<Longrightarrow> reach (state_of (set_quota s p nq sq))"
| register: "reach s \<Longrightarrow> reach (snd (register_datanode s n h port c u rem rack now))"
| beat: "reach s \<Longrightarrow> reach (snd (heartbeat s n used rem now))"
| handle_beat: "reach s \<Longrightarrow> reach (snd (handle_heartbeat s n used rem c now))"
| report: "reach s \<Longrightarrow> reach (block_report s rep)"
| handle_report: "reach s \<Longrightarrow> reach (handle_block_report s n bs)"
| received: "reach s \<Longrightarrow> reach (block_received s n b sz)"
| monitor: "reach s \<Longrightarrow> reach (snd (scan_and_schedule_replication now s))"
| dead: "reach s \<Longrightarrow> reach (snd (check_and_remove_dead_nodes timeout now s))"
| load: "reach s \<Longrightarrow> reach u \<Longrightarrow> reach (state_of (load_checkpoint (save_checkpoint u) now s))"

lemma init_inv: "ns_inv (name_node_init r b now)" "blk_inv (name_node_init r b now)"
proof -
  have "names_in {''/''} ''/'' = {}" by (auto simp: names_in_def)
  then show "ns_inv (name_node_init r b now)"
    by (auto simp: ns_inv_def name_node_init_def tree_ok_def dirs_ok_def files_ok_def
        new_directory_def norm_path.root get_parent_path_def)
  show "blk_inv (name_node_init r b now)"
    using srv_inv_init [of r b now] by (simp add: srv_inv_def)
qed

lemma dirs_ok_map_entry:
  assumes "dirs_ok P ds" and "\<And>i. di_path (f i) = di_path i \<and> di_children (f i) = di_children i"
  shows "dirs_ok P (AList.map_entry p f ds)"
  unfolding dirs_ok_def
proof (intro conjI allI impI)
  show "distinct (map fst (AList.map_entry p f ds))" using assms(1) by (simp add: dirs_ok_def)
  fix d i assume i: "map_of (AList.map_entry p f ds) d = Some i"
  obtain j where j: "map_of ds d = Some j" "di_path i = di_path j \<and> di_children i = di_children j"
    using i assms(2) unfolding map_of_map_entry by (auto split: if_splits simp del: map_of_eq_Some_iff)
  have "norm_path d \<and> di_path j = d \<and> distinct (di_children j) \<and> set (di_children j) = names_in P d"
    using assms(1) j(1) unfolding dirs_ok_def by blast
  then show "norm_path d" "di_path i = d" "distinct (di_children i)" "set (di_children i) = names_in P d"
    using j(2) by simp_all
qed

lemma files_ok_map_entry:
  assumes "files_ok fs" and "\<And>f. fi_path (g f) = fi_path f"
  shows "files_ok (AList.map_entry p g fs)"
proof -
  have "fi_path f = q" if f: "map_of (AList.map_entry p g fs) q = Some f" for q f
  proof -
    obtain h where "map_of fs q = Some h" "fi_path f = fi_path h"
      using f assms(2) unfolding map_of_map_entry by (auto split: if_splits simp del: map_of_eq_Some_iff)
    then show ?thesis using assms(1) unfolding files_ok_def by metis
  qed
  moreover have "distinct (map fst (AList.map_entry p g fs))" using assms(1) by (simp add: files_ok_def)
  ultimately show ?thesis unfolding files_ok_def by blast
qed

lemma set_quota_inv:
  "ns_inv s \<Longrightarrow> ns_inv (state_of (set_quota s p nq sq))"
  "blk_inv s \<Longrightarrow> blk_inv (state_of (set_quota s p nq sq))"
  by (simp_all add: set_quota_def ns_inv_def dirs_ok_map_entry blk_inv_def)

lemma add_block_ns: "ns_inv s \<Longrightarrow> ns_inv (state_of (add_block s p i now))"
  using add_block_cases [of s p i now] by (auto simp: ns_inv_def files_ok_map_entry)

lemma add_sized_blocks_inv:
  assumes "ns_inv s" "blk_inv s" "distinct js" "set js \<inter> keys_of (nn_blocks s) = {}"
  shows "ns_inv (state_of (add_sized_blocks p n now js acc s)) \<and>
    blk_inv (state_of (add_sized_blocks p n now js acc s))"
  using assms
proof (induction js arbitrary: acc s)
  case (Cons i js)
  have i: "i \<notin> keys_of (nn_blocks s)" using Cons.prems(4) by simp
  obtain v t where vt: "add_block s p i now = (v, t)" by force
  have t: "ns_inv t" "blk_inv t"
    using add_block_ns [OF Cons.prems(1), of p i now] add_block_blk [OF Cons.prems(2) i, of p now] vt by simp_all
  show ?case
  proof (cases v)
    case (Inr r)
    obtain b ls where r: "r = (b, ls)" by force
    have k: "keys_of (nn_blocks t) = insert i (keys_of (nn_blocks s))"
      using add_block_cases [of s p i now] vt Inr by auto
    let ?u = "t\<lparr>nn_blocks := AList.update i (b\<lparr>bk_size := n\<rparr>) (nn_blocks t)\<rparr>"
    have "ns_inv ?u" "blk_inv ?u" using t k by (auto simp: ns_inv_def blk_inv_def distinct_update)
    moreover have "set js \<inter> keys_of (nn_blocks ?u) = {}" using Cons.prems(3,4) k by auto
    ultimately show ?thesis
      using Cons.IH [of ?u "acc @ [b\<lparr>bk_size := n\<rparr>]"] Cons.prems(3) vt Inr r by (simp add: Let_def)
  qed (use vt t in simp)
qed simp

text \<open>Making the file that \<open>allocate_blocks\<close> needs, its parent directories included.\<close>

lemma parents_then_create_inv:
  assumes inv: "ns_inv s" "blk_inv s" and p: "norm_path p" "p \<notin> dir_paths s"
    and free: "\<forall>q\<in>file_paths s. get_parent_path p \<notin> subtree q" "p \<noteq> ''/''"
    and m: "mkdir s (get_parent_path p) True now = (v, t)" "get_parent_path p \<notin> dir_paths s"
  shows "ns_inv t \<and> blk_inv t \<and> p \<notin> dir_paths t \<and> nn_blocks t = nn_blocks s"
proof -
  obtain u where u: "mkdir s (get_parent_path p) True now = (Inr (new_directory (get_parent_path p) now), u)"
    "ns_inv u" "dir_paths u = dir_paths s \<union> {q. norm_path q \<and> q \<noteq> ''/'' \<and> get_parent_path p \<in> subtree q}"
    "nn_files u = nn_files s" "nn_blocks u = nn_blocks s" "nn_block_to_nodes u = nn_block_to_nodes s"
    using mkdir_parents_ok [OF inv(1) norm_parent [OF p(1)] m(2) free(1), of now] by blast
  have "p \<notin> dir_paths u" using u(3) p parent_not_in_subtree [OF p(1) free(2)] by auto
  then show ?thesis using m(1) u(1,2,4-6) inv(2) by (simp add: blk_inv_def)
qed

lemma allocate_file_blocks_inv:
  assumes inv: "ns_inv s" "blk_inv s" and p: "norm_path p" "p \<notin> dir_paths s"
    and free: "\<forall>q\<in>file_paths s. p \<in> subtree q \<longrightarrow> q = p"
    and ids: "distinct js" "set js \<inter> keys_of (nn_blocks s) = {}"
  shows "ns_inv (state_of (allocate_blocks s p js n now)) \<and> blk_inv (state_of (allocate_blocks s p js n now))"
proof (cases "p \<in> file_paths s")
  case True
  then show ?thesis using add_sized_blocks_inv [OF inv ids] by (simp add: allocate_blocks_def)
next
  case False
  note tr = tree_okD [OF ns_invD(1) [OF inv(1)]]
  have root: "p \<noteq> ''/''" using p(2) tr(1) by blast
  define m where "m = (if get_parent_path p \<notin> dir_paths s \<and> get_parent_path p \<noteq> ''/''
    then and_then (mkdir s (get_parent_path p) True now) (\<lambda>_ t. (Inr (), t)) else (Inr (), s))"
  obtain v t where vt: "m = (v, t)" by force
  have t: "ns_inv t \<and> blk_inv t \<and> p \<notin> dir_paths t \<and> nn_blocks t = nn_blocks s"
  proof (cases "get_parent_path p \<notin> dir_paths s \<and> get_parent_path p \<noteq> ''/''")
    case True
    have "\<forall>q\<in>file_paths s. get_parent_path p \<notin> subtree q"
    proof
      fix q assume q: "q \<in> file_paths s"
      have "norm_path q" "q \<noteq> ''/''" using q tr by auto
      then show "get_parent_path p \<notin> subtree q"
        using subtree_parent [OF p(1) root] free q False by auto
    qed
    moreover obtain w u where wu: "mkdir s (get_parent_path p) True now = (w, u)" by force
    moreover have "t = u" using vt True wu by (cases w) (simp_all add: m_def)
    ultimately show ?thesis using parents_then_create_inv [OF inv p _ root] True by blast
  next
    case False
    then have "m = (Inr (), s)" unfolding m_def by (rule if_not_P)
    then show ?thesis using vt inv p(2) by simp
  qed
  obtain w u where wu: "create_file t p None None False now = (w, u)" by force
  have u: "ns_inv u" "blk_inv u" "keys_of (nn_blocks u) \<subseteq> keys_of (nn_blocks s)"
    using create_file_ns [of t p None None False now] create_file_blk [of t p None None False now]
      create_file_blocks(2) [of t p None None False now] t p(1) wu by auto
  have "set js \<inter> keys_of (nn_blocks u) = {}" using ids(2) u(3) by blast
  note a = add_sized_blocks_inv [OF u(1,2) ids(1) this]
  have e: "allocate_blocks s p js n now = and_then (and_then m
      (\<lambda>_ t. and_then (create_file t p None None False now) (\<lambda>_ u. (Inr (), u))))
      (\<lambda>_ t. add_sized_blocks p n now js [] t)"
    using False by (simp add: allocate_blocks_def m_def Let_def)
  show ?thesis unfolding e vt using t wu u(1,2) a by (cases v; cases w) simp_all
qed

lemma reach_inv: "reach s \<Longrightarrow> ns_inv s \<and> blk_inv s"
proof (induction rule: reach.induct)
  case (create s p r b ov now)
  then show ?case using create_file_ns create_file_blk by blast
next
  case (make_dir s p cp now)
  then show ?case using mkdir_ns [of s p cp now] mkdir_blk [of s p cp now] by (simp add: blk_inv_def)
next
  case (move s src dst)
  then show ?case using rename_inv by blast
next
  case (add s i p now)
  then show ?case using add_block_ns add_block_blk by blast
next
  case (allocate s p js n now)
  then show ?case using allocate_file_blocks_inv by blast
next
  case (complete s p n now r)
  then show ?case using complete_file_blk by blast
qed (simp_all add: init_inv load_saved_inv delete_file_ns delete_file_blk delete_directory_inv set_quota_inv
    keeps_inv(1,2) [OF register_keeps] keeps_inv(1,2) [OF heartbeat_keeps]
    keeps_inv(1,2) [OF handle_heartbeat_keeps] keeps_inv(1,2) [OF block_report_keeps]
    keeps_inv(1,2) [OF handle_block_report_keeps] keeps_inv(1,2) [OF block_received_keeps]
    keeps_inv(1,2) [OF scan_keeps] keeps_inv(1,2) [OF dead_nodes_keeps])

section \<open>Properties of the name space\<close>

definition ex_dirs :: name_node where
  "ex_dirs = state_of (mkdir (name_node_init 3 128 0) ''/a/b'' True 0)"

definition ex_files :: name_node where
  "ex_files = state_of (create_file ex_dirs ''/a/b/f'' None None False 1)"

lemma norm_ex: "norm_path ''/a''" "norm_path ''/a/b''" "norm_path ''/a/b/f''" "norm_path ''/c''"
proof -
  have n: "is_name ''a''" "is_name ''b''" "is_name ''f''" "is_name ''c''" by (simp_all add: is_name_def)
  show a: "norm_path ''/a''" and "norm_path ''/c''"
    using norm_path.child [OF norm_path.root n(1)] norm_path.child [OF norm_path.root n(4)]
    by (simp_all add: child_path_def)
  show b: "norm_path ''/a/b''" using norm_path.child [OF a n(2)] by (simp add: child_path_def)
  show "norm_path ''/a/b/f''" using norm_path.child [OF b n(3)] by (simp add: child_path_def)
qed

lemma ex_paths:
  "file_paths ex_dirs = {}" "dir_paths ex_dirs = {''/'', ''/a'', ''/a/b''}"
  "file_paths ex_files = {''/a/b/f''}" "dir_paths ex_files = {''/'', ''/a'', ''/a/b''}"
  by code_simp+

lemma ex_subtree:
  "''/a'' \<in> subtree ''/a''" "''/a/b'' \<in> subtree ''/a''" "''/a/b/f'' \<in> subtree ''/a''"
  "''/'' \<notin> subtree ''/a''" "''/c'' \<notin> subtree ''/a''" "''/c/b/f'' \<notin> subtree ''/a''"
  "''/c/b/f'' \<in> subtree ''/c''"
  by (simp_all add: subtree_def starts_with_def)

lemma ex_reach: "reach ex_dirs" "reach ex_files"
proof -
  show d: "reach ex_dirs"
    unfolding ex_dirs_def
    by (rule reach.make_dir [OF reach.init norm_ex(2)]) (simp add: name_node_init_def)
  show "reach ex_files"
    unfolding ex_files_def by (rule reach.create [OF d norm_ex(3)]) (simp add: ex_paths)
qed

text \<open>
  C1: as long as callers pass normalised paths, make no file over a directory and no directory at or
  below a file, rename only into an existing directory outside the source, and load only checkpoints
  of such name nodes (\<open>reach\<close>), every sequence of calls keeps the name space a tree (the root is
  there, every path has its parent directory, no path is both a file and a directory), listing a
  directory gives exactly the names that resolve below it, in order and without duplicates, and
  deleting a file succeeds exactly when it exists: it never raises \<open>KeyError\<close> for one of its blocks.
\<close>

theorem hdfs_namespace_tree:
  assumes "reach s"
  shows "''/'' \<in> dir_paths s \<and> file_paths s \<inter> dir_paths s = {} \<and>
    (\<forall>p\<in>file_paths s \<union> dir_paths s. norm_path p \<and> get_parent_path p \<in> dir_paths s) \<and>
    (\<forall>d ns. list_directory s d = Inr ns \<longrightarrow> sorted ns \<and> distinct ns \<and>
       set ns = {n. is_name n \<and> child_path d n \<in> file_paths s \<union> dir_paths s}) \<and>
    (\<forall>p. result_of (delete_file s p) =
       (if p \<in> file_paths s then Inr True else Inl FileNotFoundError))"
proof -
  have inv: "ns_inv s" "blk_inv s" using reach_inv [OF assms] by auto
  have "sorted ns \<and> distinct ns \<and> set ns = {n. is_name n \<and> child_path d n \<in> all_paths s}"
    if l: "list_directory s d = Inr ns" for d ns
  proof -
    obtain i where i: "map_of (nn_directories s) d = Some i" "ns = sort (di_children i)"
      using l by (auto simp: list_directory_def split: option.splits)
    have "distinct (di_children i) \<and> set (di_children i) = names_in (all_paths s) d"
      using ns_invD(2) [OF inv(1)] i(1) unfolding dirs_ok_def by blast
    then show ?thesis using i(2) by (simp add: names_in_def)
  qed
  moreover have "result_of (delete_file s p) = (if p \<in> file_paths s then Inr True else Inl FileNotFoundError)"
    for p
  proof (cases "p \<in> file_paths s")
    case True
    then show ?thesis using delete_file_ok [OF inv(2) True] by auto
  qed (simp add: delete_file_def keys_iff_lookup)
  ultimately show ?thesis using ns_invD(1) [OF inv(1)] unfolding tree_ok_def by blast
qed

theorem hdfs_namespace_tree_witness:
  "list_directory ex_files ''/a/b'' = Inr [''f''] \<and>
   result_of (delete_file ex_files ''/a/b/f'') = Inr True"
proof
  show "list_directory ex_files ''/a/b'' = Inr [''f'']" by code_simp
  show "result_of (delete_file ex_files ''/a/b/f'') = Inr True"
    using hdfs_namespace_tree [OF ex_reach(2)] by (simp add: ex_paths)
qed

text \<open>
  C14: \<open>delete_directory(path, recursive=True)\<close> on a directory other than the root succeeds and
  removes exactly the subtree: every path below goes, every other path keeps its entry.
\<close>

theorem hdfs_delete_recursive:
  assumes "reach s" "p \<in> dir_paths s" "p \<noteq> ''/''"
  shows "\<exists>t. delete_directory s p True = (Inr True, t) \<and>
    file_paths t = file_paths s - subtree p \<and> dir_paths t = dir_paths s - subtree p \<and>
    (\<forall>q. q \<notin> subtree p \<longrightarrow> map_of (nn_files t) q = map_of (nn_files s) q)"
  using delete_directory_ok [OF _ _ assms(2,3)] reach_inv [OF assms(1)] by (auto simp: removed_def)

theorem hdfs_delete_recursive_witness:
  "\<exists>t. delete_directory ex_files ''/a'' True = (Inr True, t) \<and> file_paths t = {} \<and>
     dir_paths t = {''/''}"
proof -
  have mem: "''/a'' \<in> dir_paths ex_files" "''/a'' \<noteq> ''/''" by (simp_all add: ex_paths)
  obtain t where t: "delete_directory ex_files ''/a'' True = (Inr True, t)"
    "file_paths t = file_paths ex_files - subtree ''/a''"
    "dir_paths t = dir_paths ex_files - subtree ''/a''"
    using hdfs_delete_recursive [OF ex_reach(2) mem] by blast
  have "file_paths t = {}" "dir_paths t = {''/''}"
    unfolding t(2,3) ex_paths using ex_subtree(1-4) by blast+
  then show ?thesis using t(1) by blast
qed

section \<open>Renaming forth and back\<close>

text \<open>What \<open>rename\<close> does to the children of the directory at \<open>q\<close>.\<close>

definition relink :: "string \<Rightarrow> string \<Rightarrow> string \<Rightarrow> directory_info \<Rightarrow> directory_info" where
  "relink src dst q d =
     (let d' = if q = get_parent_path src then discard_child (get_filename src) d else d
      in if q = get_parent_path dst then add_child (get_filename dst) d' else d')"

text \<open>The same directory object up to the order in which its set of children is kept.\<close>

definition same_directory :: "directory_info \<Rightarrow> directory_info \<Rightarrow> bool" where
  "same_directory d e \<longleftrightarrow>
     d\<lparr>di_children := []\<rparr> = e\<lparr>di_children := []\<rparr> \<and> set (di_children d) = set (di_children e)"

abbreviation attributes :: "directory_info \<Rightarrow> directory_info" where
  "attributes d \<equiv> d\<lparr>di_children := []\<rparr>"

lemma renamed_dirs:
  assumes "renamed s src dst t"
  shows "map_of (nn_directories t) q =
      map_option (relink src dst q) (relocate set_dir_path src dst (map_of (nn_directories s)) q)"
    "map_option attributes (map_of (nn_directories t) q) =
      relocate set_dir_path src dst (\<lambda>q. map_option attributes (map_of (nn_directories s) q)) q"
proof -
  obtain ds where ds: "nn_directories t = AList.map_entry (get_parent_path dst) (add_child (get_filename dst))
      (AList.map_entry (get_parent_path src) (discard_child (get_filename src)) ds)"
    "map_of ds = relocate set_dir_path src dst (map_of (nn_directories s))"
    using assms unfolding renamed_def by blast
  show e: "map_of (nn_directories t) q =
      map_option (relink src dst q) (relocate set_dir_path src dst (map_of (nn_directories s)) q)"
    unfolding ds(1)
    by (cases "relocate set_dir_path src dst (map_of (nn_directories s)) q")
      (auto simp: relink_def ds(2) Let_def)
  have "attributes (relink src dst q d) = attributes d" for d
    by (simp add: relink_def Let_def add_child_def discard_child_def)
  moreover have "attributes (set_dir_path d q) = set_dir_path (attributes d) q" for d q
    by (simp add: set_dir_path_def)
  ultimately show "map_option attributes (map_of (nn_directories t) q) =
      relocate set_dir_path src dst (\<lambda>q. map_option attributes (map_of (nn_directories s) q)) q"
    unfolding e by (simp add: relocate_def option.map_comp comp_def)
qed

lemma relocate_back:
  assumes "src \<notin> subtree dst" "dst \<notin> subtree src"
    and "\<And>q. q \<in> subtree dst \<Longrightarrow> m q = None"
    and "\<And>q q' v. m q = Some v \<Longrightarrow> sp (sp v q') q = v"
  shows "relocate sp dst src (relocate sp src dst m) = m"
proof
  fix q
  show "relocate sp dst src (relocate sp src dst m) q = m q"
    using moved_facts [OF assms(1,2), of q] assms(3) [of q] assms(4) [of q]
    by (cases "m q") (auto simp: relocate_def)
qed

lemma same_directoryI:
  assumes "map_option attributes (map_of (nn_directories u) q) =
      map_option attributes (map_of (nn_directories s) q)"
    and inv: "ns_inv s" "ns_inv u" and paths: "all_paths u = all_paths s"
  shows "rel_option same_directory (map_of (nn_directories u) q) (map_of (nn_directories s) q)"
proof (cases "map_of (nn_directories s) q")
  case (Some d)
  then obtain e where e: "map_of (nn_directories u) q = Some e" "attributes e = attributes d"
    using assms(1) by auto
  have "set (di_children d) = names_in (all_paths s) q" "set (di_children e) = names_in (all_paths u) q"
    using ns_invD(2) [OF inv(1)] ns_invD(2) [OF inv(2)] Some e(1) unfolding dirs_ok_def by blast+
  then show ?thesis using e Some paths by (simp add: same_directory_def)
qed (use assms(1) in simp)

text \<open>
  C7: a rename to a free normalised destination in an existing directory, not inside the source,
  moves the whole subtree: the file or directory that was found at \<open>src/x\<close> is found at \<open>dst/x\<close>, the
  same but for its path; every other file and directory keeps its entry, except that the name of the
  source leaves the children of its parent and the name of the destination joins those of its own.
  Renaming back restores the lookup of every file, and of every directory with its quotas, times and
  set of children.
\<close>

theorem hdfs_rename_roundtrip:
  assumes "reach s" "src \<in> file_paths s \<union> dir_paths s" "src \<noteq> ''/''" "norm_path dst"
    and "dst \<notin> file_paths s \<union> dir_paths s" "dst \<notin> subtree src" "get_parent_path dst \<in> dir_paths s"
  shows "\<exists>t u. rename s src dst = (Inr True, t) \<and>
    map_of (nn_files t) = relocate set_file_path src dst (map_of (nn_files s)) \<and>
    (\<forall>q. map_of (nn_directories t) q =
       map_option (relink src dst q) (relocate set_dir_path src dst (map_of (nn_directories s)) q)) \<and>
    rename t dst src = (Inr True, u) \<and> map_of (nn_files u) = map_of (nn_files s) \<and>
    (\<forall>q. rel_option same_directory (map_of (nn_directories u) q) (map_of (nn_directories s) q))"
proof -
  have inv: "ns_inv s" using reach_inv [OF assms(1)] by simp
  note tr = tree_okD [OF ns_invD(1) [OF inv]]
  have ns: "norm_path src" using assms(2) tr(3,4) by auto
  note new = below_new [OF inv assms(4,5)]
  have sd: "src \<notin> subtree dst" using new [of src] assms(2) by (auto simp: keys_of_iff)
  obtain t where t: "rename s src dst = (Inr True, t)" "renamed s src dst t"
    using rename_renamed [OF inv assms(2,4-6)] by blast
  have nst: "ns_inv t" by (rule rename_ns [OF inv assms(2-7) t(2)])
  note k = renamed_paths [OF t(2)]
  have d: "dst \<in> all_paths t" "dst \<noteq> ''/''" "src \<notin> all_paths t"
    using k [of dst] k [of src] assms(2,5,6) tr(1) by auto
  obtain u where u: "rename t dst src = (Inr True, u)" "renamed t dst src u"
    using rename_renamed [OF nst d(1) ns d(3) sd] by blast
  have "get_parent_path src \<in> dir_paths s" using assms(2) tr(5,6) by blast
  then have par: "get_parent_path src \<in> dir_paths t"
    using k(2) [of "get_parent_path src"] parent_not_in_subtree [OF ns assms(3)]
      new(2) [of "get_parent_path src"] by (auto simp: map_of_eq_None_keys)
  have nsu: "ns_inv u" by (rule rename_ns [OF nst d(1,2) ns d(3) sd par u(2)])
  have files: "map_of (nn_files u) = map_of (nn_files s)"
    using t(2) u(2) relocate_back [OF sd assms(6), of "map_of (nn_files s)" set_file_path] new(1)
      ns_invD(3) [OF inv] by (auto simp: renamed_def files_ok_def set_file_path_def)
  have attrs: "map_option attributes (map_of (nn_directories u) q) =
      map_option attributes (map_of (nn_directories s) q)" for q
  proof -
    let ?m = "\<lambda>q. map_option attributes (map_of (nn_directories s) q)"
    have "set_dir_path (set_dir_path d q') q = d" if "?m q = Some d" for q d q'
      using ns_invD(2) [OF inv] that by (auto simp: dirs_ok_def set_dir_path_def)
    then have "relocate set_dir_path dst src (relocate set_dir_path src dst ?m) = ?m"
      using relocate_back [OF sd assms(6), of ?m set_dir_path] new(2) by simp
    then show ?thesis unfolding renamed_dirs(2) [OF u(2)] renamed_dirs(2) [OF t(2)] by metis
  qed
  have "file_paths u = file_paths s" "dir_paths u = dir_paths s"
    using files attrs unfolding set_eq_iff keys_iff_lookup by (metis option.map_disc_iff)+
  then have "\<forall>q. rel_option same_directory (map_of (nn_directories u) q) (map_of (nn_directories s) q)"
    using same_directoryI [OF attrs inv nsu] by simp
  then show ?thesis using t u(1) files renamed_dirs(1) [OF t(2)] unfolding renamed_def by blast
qed

theorem hdfs_rename_roundtrip_witness:
  "\<exists>t u. rename ex_files ''/a'' ''/c'' = (Inr True, t) \<and>
     map_of (nn_files t) ''/c/b/f'' = Some (new_file ''/c/b/f'' 3 128 1) \<and>
     rename t ''/c'' ''/a'' = (Inr True, u) \<and> map_of (nn_files u) = map_of (nn_files ex_files) \<and>
     (\<forall>q. rel_option same_directory (map_of (nn_directories u) q) (map_of (nn_directories ex_files) q))"
proof -
  have e: "map_of (nn_files ex_files) ''/a/b/f'' = Some (new_file ''/a/b/f'' 3 128 1)" by code_simp
  have p: "get_parent_path ''/c'' = ''/''" by code_simp
  have h: "''/a'' \<in> file_paths ex_files \<union> dir_paths ex_files" "''/a'' \<noteq> ''/''"
    "''/c'' \<notin> file_paths ex_files \<union> dir_paths ex_files" "get_parent_path ''/c'' \<in> dir_paths ex_files"
    by (simp_all add: ex_paths p)
  obtain t u where tu: "rename ex_files ''/a'' ''/c'' = (Inr True, t)"
    "map_of (nn_files t) = relocate set_file_path ''/a'' ''/c'' (map_of (nn_files ex_files))"
    "rename t ''/c'' ''/a'' = (Inr True, u)" "map_of (nn_files u) = map_of (nn_files ex_files)"
    "\<forall>q. rel_option same_directory (map_of (nn_directories u) q) (map_of (nn_directories ex_files) q)"
    using hdfs_rename_roundtrip [OF ex_reach(2) h(1,2) norm_ex(4) h(3) ex_subtree(5) h(4)] by blast
  moreover have "relocate set_file_path ''/a'' ''/c'' (map_of (nn_files ex_files)) ''/c/b/f'' =
      Some (new_file ''/c/b/f'' 3 128 1)"
    using e ex_subtree by (simp add: relocate_def set_file_path_def new_file_def)
  ultimately show ?thesis by metis
qed

end
