(* ===== verification/Hdfs_Limits.thy ===== *)
theory Hdfs_Limits
  imports Hdfs_Reach
begin

text \<open>
  Sessions of the server, and space quotas: every request is answered; a file that is completed
  respects the quota of each directory above it; and where the quota code fails.
\<close>

section \<open>Space below a directory\<close>

lemma consumed_update:
  assumes "distinct (map fst fs)" "map_of fs p = Some f" "starts_with p d"
  shows "(\<Sum>(q, f)\<leftarrow>AList.update p g fs. if starts_with q d then fi_size f else 0) =
    (\<Sum>(q, f)\<leftarrow>fs. if starts_with q d then fi_size f else 0) - fi_size f + fi_size g"
  using assms(1,2)
proof (induction fs)
  case (Cons a fs)
  show ?case
  proof (cases "fst a = p")
    case True
    then show ?thesis using Cons.prems assms(3) by (cases a) auto
  next
    case False
    then have "map_of fs p = Some f" "distinct (map fst fs)" using Cons.prems by (cases a; simp)+
    then show ?thesis using Cons.IH False by (cases a) simp
  qed
qed simp

lemma check_quota_root:
  assumes "check_quota_for_write s p n = Some (Inr ())" "norm_path p" "p \<noteq> ''/''"
  shows "\<not> quota_exceeded s ''/'' n"
  using assms(2,1,3)
proof (induction rule: norm_path.induct)
  case (child e m)
  have step: "\<not> quota_exceeded s e n" "check_quota_for_write s e n = Some (Inr ())"
    using child.prems child.hyps
    by (auto simp: check_quota_for_write.simps [of s "child_path e m"] Let_def split: if_splits)
  then show ?case using child.IH by (cases "e = ''/''") auto
qed simp

text \<open>The directories above a path.\<close>

definition above :: "string \<Rightarrow> string \<Rightarrow> bool" where
  "above d p \<longleftrightarrow> norm_path d \<and> p \<noteq> d \<and> (d = ''/'' \<or> p \<in> subtree d)"

lemma above_starts_with: "above d p \<Longrightarrow> norm_path p \<Longrightarrow> starts_with p d"
  using norm_path_head [of p] by (auto simp: above_def subtree_iff starts_with_iff)

lemma above_not_exceeded:
  assumes "check_quota_for_write s p n = Some (Inr ())" "norm_path p" "above d p"
  shows "\<not> quota_exceeded s d n"
proof (cases "d = ''/''")
  case True
  then show ?thesis using check_quota_root [OF assms(1,2)] assms(3) by (auto simp: above_def)
next
  case False
  have p: "p \<noteq> ''/''" using assms(3) False root_not_in_subtree [of d] by (auto simp: above_def)
  have "get_parent_path p \<in> subtree d"
    using assms(3) subtree_parent [OF assms(2) p _ False] False by (auto simp: above_def)
  then show ?thesis
    using check_quota_ok [OF assms(1,2) _ False _ p] assms(3) by (auto simp: above_def)
qed

section \<open>Properties\<close>

lemma reach_srv_inv: "reach s \<Longrightarrow> srv_inv s"
proof -
  assume "reach s"
  then have inv: "ns_inv s" "blk_inv s" using reach_inv by auto
  have "rooted p" if "p \<in> all_paths s" for p
  proof -
    have "norm_path p" using tree_okD(3,4) [OF ns_invD(1) [OF inv(1)]] that by blast
    then show ?thesis using norm_path_head [of p] by (auto simp: rooted_def)
  qed
  then show ?thesis using inv(2) by (simp add: srv_inv_def)
qed

text \<open>
  C16: whatever arrives at a running server, on whatever connections, in whatever order and with
  whatever arguments, and however the monitor runs in between, no handler loops, and every connection
  gets exactly one reply for each request up to its first malformed frame and none after it: a
  malformed frame ends its own connection and no other. The name node may be in any state that
  callers respecting the rules of \<open>reach\<close> can bring about, the fresh one included, and block ids
  are fresh.
\<close>

theorem hdfs_server_answers:
  assumes "reach s" "distinct (fresh_ids es)" "set (fresh_ids es) \<inter> keys_of (nn_blocks s) = {}"
  shows "\<exists>rs t. serve [] es s = Some (rs, t) \<and>
    (\<forall>c. length (replies_to c rs) = length (requests_of c es))"
  using serve_answers [OF reach_srv_inv [OF assms(1)] assms(2,3), of "[]"] by (auto simp: read_of_def)

theorem hdfs_server_answers_witness:
  "\<exists>rs t. serve [] [Arrives 1 ''blk_1'' 0 (Request (MKDIR ''x'' True)), Arrives 2 ''blk_2'' 1 Malformed,
      Monitor 2, Arrives 2 ''blk_3'' 3 (Request UNKNOWN),
      Arrives 1 ''blk_4'' 4 (Request (COMPLETE_FILE ''x'' 5))] ex_files = Some (rs, t) \<and>
     length (replies_to 1 rs) = 2 \<and> length (replies_to 2 rs) = 0"
proof -
  define es where "es = [Arrives 1 ''blk_1'' 0 (Request (MKDIR ''x'' True)), Arrives 2 ''blk_2'' 1 Malformed,
    Monitor 2, Arrives 2 ''blk_3'' 3 (Request UNKNOWN), Arrives 1 ''blk_4'' 4 (Request (COMPLETE_FILE ''x'' 5))]"
  have "distinct (fresh_ids es)" by (simp add: es_def)
  moreover have "keys_of (nn_blocks ex_files) = {}" by code_simp
  ultimately obtain rs t where "serve [] es ex_files = Some (rs, t)"
    "\<forall>c. length (replies_to c rs) = length (requests_of c es)"
    using hdfs_server_answers [OF ex_reach(2), of es] by auto
  moreover have "length (requests_of 1 es) = 2" "length (requests_of 2 es) = 0"
    by (simp_all add: es_def requests_of_def)
  ultimately show ?thesis unfolding es_def by metis
qed

text \<open>
  C17: when \<open>complete_file\<close> succeeds, the space used below every directory above the file is within
  that directory's space quota, provided the file did not have a negative size before.
\<close>

theorem hdfs_quota_respected:
  assumes "reach s" "map_of (nn_files s) p = Some f" "0 \<le> fi_size f"
    and "complete_file s p n now = Some (Inr g, t)"
    and "above d p" "map_of (nn_directories s) d = Some i" "di_space_quota i = Some q"
  shows "calculate_space_consumed t d \<le> q"
proof -
  have inv: "ns_inv s" using reach_inv [OF assms(1)] by simp
  have p: "norm_path p"
    using tree_okD(3) [OF ns_invD(1) [OF inv]] assms(2) by (auto simp: keys_of_iff)
  have c: "check_quota_for_write s p n = Some (Inr ())"
    "t = s\<lparr>nn_files := AList.update p (f\<lparr>fi_size := n, fi_modification_time := now\<rparr>) (nn_files s)\<rparr>"
    using complete_file_cases [OF assms(4)] assms(2) by auto
  have "\<not> quota_exceeded s d n" by (rule above_not_exceeded [OF c(1) p assms(5)])
  then have "calculate_space_consumed s d + n \<le> q" using assms(6,7) by (simp add: quota_exceeded_def)
  moreover have "distinct (map fst (nn_files s))" using ns_invD(3) [OF inv] by (simp add: files_ok_def)
  then have "calculate_space_consumed t d = calculate_space_consumed s d - fi_size f + n"
    using consumed_update [OF _ assms(2) above_starts_with [OF assms(5) p]]
    by (simp add: calculate_space_consumed_def c(2))
  ultimately show ?thesis using assms(3) by linarith
qed

definition ex_quota :: name_node where
  "ex_quota = state_of (set_quota ex_files ''/a'' None (Some 10))"

theorem hdfs_quota_respected_witness:
  "\<exists>g t. complete_file ex_quota ''/a/b/f'' 7 2 = Some (Inr g, t) \<and>
     calculate_space_consumed t ''/a'' \<le> 10"
proof -
  have r: "reach ex_quota" unfolding ex_quota_def by (rule reach.quota [OF ex_reach(2)])
  have "map_of (nn_files ex_quota) ''/a/b/f'' = Some (new_file ''/a/b/f'' 3 128 1)" by code_simp
  then obtain f where f: "map_of (nn_files ex_quota) ''/a/b/f'' = Some f" "fi_size f = 0"
    by (simp add: new_file_def)
  have "map_of (nn_directories ex_quota) ''/a'' =
      Some ((new_directory ''/a'' 0)\<lparr>di_children := [''b''], di_space_quota := Some 10\<rparr>)" by code_simp
  then obtain i where i: "map_of (nn_directories ex_quota) ''/a'' = Some i" "di_space_quota i = Some 10"
    by (simp add: new_directory_def)
  have q: "\<not> quota_exceeded ex_quota ''/a/b'' 7" "\<not> quota_exceeded ex_quota ''/a'' 7"
    "\<not> quota_exceeded ex_quota ''/'' 7" by code_simp+
  have pp: "get_parent_path ''/a/b/f'' = ''/a/b''" "get_parent_path ''/a/b'' = ''/a''"
    "get_parent_path ''/a'' = ''/''" by code_simp+
  have "check_quota_for_write ex_quota ''/a/b/f'' 7 = Some (Inr ())"
    using q pp by (simp add: check_quota_for_write.simps Let_def)
  then obtain g t where gt: "complete_file ex_quota ''/a/b/f'' 7 2 = Some (Inr g, t)"
    using f by (simp add: complete_file_def Let_def)
  have "above ''/a'' ''/a/b/f''" using norm_ex(1) ex_subtree by (simp add: above_def)
  from hdfs_quota_respected [OF r f(1) _ gt this i] show ?thesis using f(2) gt by auto
qed

text \<open>
  C28: \<open>rename\<close> accepts a destination without a slash, and a file moved there can never be
  completed: the walk over its parents in \<open>_check_quota_for_write\<close> does not end.
\<close>

theorem hdfs_relative_path_hangs:
  assumes "reach s" "src \<in> file_paths s" "dst \<noteq> []" "CHR ''/'' \<notin> set dst"
  shows "result_of (rename s src dst) = Inr True \<and>
    complete_file (state_of (rename s src dst)) dst n now = None"
proof -
  note tr = tree_okD [OF ns_invD(1) [OF conjunct1 [OF reach_inv [OF assms(1)]]]]
  have out: "dst \<notin> all_paths s"
    using tr(3,4) norm_path_head [of dst] assms(4) by auto
  obtain f where f: "map_of (nn_files s) src = Some f" using assms(2) by (auto simp: keys_of_iff)
  define t where "t = state_of (rename s src dst)"
  have r: "result_of (rename s src dst) = Inr True"
    "map_of (nn_files t) dst = Some (set_file_path f dst)" "dir_paths t = dir_paths s"
    using f out by (simp_all add: rename_def t_def)
  have "last dst \<noteq> slash" using assms(3,4) last_in_set [of dst] by metis
  then have "rstrip_slash dst = dst" by (simp add: rstrip_slash_id)
  then have "get_parent_path dst = dst"
    using assms(3,4) by (auto simp: get_parent_path_def rsplit_slash_def)
  moreover have "\<not> quota_exceeded t dst n"
    using out r(3) by (simp add: quota_exceeded_def map_of_eq_None_keys split: option.splits)
      (metis keys_of_iff option.distinct(1))
  moreover have "dst \<noteq> ''/''" using assms(4) by auto
  ultimately have "check_quota_for_write t dst n = None" by (intro check_quota_diverges)
  then show ?thesis using r by (simp add: complete_file_def t_def)
qed

theorem hdfs_relative_path_hangs_witness:
  "result_of (rename ex_files ''/a/b/f'' ''g'') = Inr True \<and>
   complete_file (state_of (rename ex_files ''/a/b/f'' ''g'')) ''g'' 5 0 = None"
  by (rule hdfs_relative_path_hangs [OF ex_reach(2)]) (simp_all add: ex_paths)

text \<open>
  The space accounting compares plain string prefixes, so a directory is charged for the
  files of a sibling whose name extends its own: with a quota of 10 bytes on an empty \<open>/a\<close>, a file
  of 20 bytes in \<open>/ab\<close> makes \<open>get_quota\<close> report 20 bytes for \<open>/a\<close>.
\<close>

theorem hdfs_quota_counts_siblings:
  "let s0 = state_of (mkdir (name_node_init 3 128 0) ''/a'' False 0);
       s1 = state_of (mkdir s0 ''/ab'' False 0);
       s2 = state_of (create_file s1 ''/ab/f'' None None False 0);
       s3 = s2\<lparr>nn_files := AList.map_entry ''/ab/f'' (\<lambda>f. f\<lparr>fi_size := 20\<rparr>) (nn_files s2)\<rparr>
   in list_directory s3 ''/a'' = Inr [] \<and> calculate_space_consumed s3 ''/a'' = 20"
  by code_simp

end
