(* ===== verification/Hdfs_Replication.thy ===== *)
theory Hdfs_Replication
  imports Hdfs_Session
begin

text \<open>
  Re-replication and placement: what one scan schedules, that a second scan schedules nothing more,
  and how the nodes of a new block are chosen.
\<close>

section \<open>One scan\<close>

definition same_cluster :: "name_node \<Rightarrow> name_node \<Rightarrow> bool" where
  "same_cluster s t \<longleftrightarrow> nn_datanodes t = nn_datanodes s \<and> nn_block_to_nodes t = nn_block_to_nodes s \<and>
     nn_files t = nn_files s \<and> nn_default_replication t = nn_default_replication s"

lemma same_cluster_trans: "same_cluster s t \<Longrightarrow> same_cluster t u \<Longrightarrow> same_cluster s u"
  by (simp add: same_cluster_def)

lemma same_cluster_eqs:
  assumes "same_cluster s t"
  shows "holders t = holders s" "replication_target_for_block t = replication_target_for_block s"
    "check_under_replicated_blocks t = check_under_replicated_blocks s" "live t = live s"
    "nn_datanodes t = nn_datanodes s"
proof -
  have e: "nn_datanodes t = nn_datanodes s" "nn_block_to_nodes t = nn_block_to_nodes s"
    "nn_files t = nn_files s" "nn_default_replication t = nn_default_replication s"
    using assms by (simp_all add: same_cluster_def)
  show l: "live t = live s" by (simp add: live_def e fun_eq_iff)
  show "holders t = holders s" by (simp add: holders_def e l fun_eq_iff)
  show "replication_target_for_block t = replication_target_for_block s"
    unfolding replication_target_for_block_def fun_eq_iff e by simp
  show "check_under_replicated_blocks t = check_under_replicated_blocks s" "nn_datanodes t = nn_datanodes s"
    by (simp_all add: check_under_replicated_blocks_def e)
qed

lemma fold_schedule:
  defines "g \<equiv> \<lambda>b src ts s. fold (schedule_target b src) ts s"
  shows "nn_pending_replications (g b src ts s) =
      nn_pending_replications s @ map (\<lambda>t. (b, src, t)) ts"
    "in_flight (g b src ts s) b' = (if b' = b then fold set_add ts (in_flight s b) else in_flight s b')"
    "same_cluster s (g b src ts s)"
  unfolding g_def
  by (induction ts arbitrary: s) (auto simp: schedule_target_def in_flight_def same_cluster_def)

lemma set_fold_set_add: "set (fold set_add ts xs) = set ts \<union> set xs"
  by (induction ts arbitrary: xs) auto

lemma queued_schedule:
  "set (queued_targets (fold (schedule_target b src) ts s) b') =
     (if b' = b then set ts else {}) \<union> set (queued_targets s b')"
  by (auto simp: queued_targets_def fold_schedule set_fold_set_add comp_def)

definition effective :: "name_node \<Rightarrow> real \<Rightarrow> block_id \<Rightarrow> int" where
  "effective s now b = int (length (holders s now b)) + int (length (queued_targets s b))"

definition settled :: "name_node \<Rightarrow> real \<Rightarrow> block_id \<Rightarrow> bool" where
  "settled s now b \<longleftrightarrow> holders s now b = [] \<or> replication_target_for_block s b \<le> effective s now b \<or>
     candidates s now b = []"

text \<open>The targets a scan picks for one block.\<close>

definition new_targets :: "name_node \<Rightarrow> real \<Rightarrow> block_id \<Rightarrow> node_id list" where
  "new_targets s now b =
     (if settled s now b then []
      else take (nat (replication_target_for_block s b - effective s now b)) (sort (candidates s now b)))"

lemma scan_block_eq:
  "scan_block now b (k, s) = (k + length (new_targets s now b),
     fold (schedule_target b (hd (sort (holders s now b)))) (new_targets s now b) s)"
  by (auto simp: scan_block_def new_targets_def settled_def effective_def Let_def)

lemma set_candidates:
  "distinct (map fst (nn_datanodes s)) \<Longrightarrow>
   n \<in> set (candidates s now b) \<longleftrightarrow> live s now n \<and> n \<notin> set (holders s now b) \<and> n \<notin> set (queued_targets s b)"
proof -
  assume d: "distinct (map fst (nn_datanodes s))"
  have "n \<in> set (candidates s now b) \<longleftrightarrow> (\<exists>i. map_of (nn_datanodes s) n = Some i \<and> is_alive now i) \<and>
      n \<notin> set (holders s now b) \<and> n \<notin> set (queued_targets s b)"
    using d by (force simp: candidates_def)
  then show ?thesis by (auto simp: live_def split: option.splits)
qed

lemma distinct_candidates:
  "distinct (map fst (nn_datanodes s)) \<Longrightarrow> distinct (candidates s now b)"
  unfolding candidates_def by (rule distinct_map_filter)

lemma queued_length: "length (queued_targets s b) = card (set (queued_targets s b))"
  by (simp add: queued_targets_def length_remdups_card_conv)

lemma candidates_schedule:
  assumes "distinct (map fst (nn_datanodes s))"
  shows "set (candidates (fold (schedule_target b src) ts s) now b') =
    set (candidates s now b') - (if b' = b then set ts else {})"
proof -
  let ?t = "fold (schedule_target b src) ts s"
  note eq = same_cluster_eqs [OF fold_schedule(3) [of s b src ts]]
  have d: "distinct (map fst (nn_datanodes ?t))" using assms eq(5) by simp
  show ?thesis
    using set_candidates [OF d] set_candidates [OF assms] eq queued_schedule [of b src ts s b']
    by (auto split: if_splits)
qed

text \<open>After its turn a block is settled, and the turns of other blocks do not disturb it.\<close>

lemma scan_block_settles:
  assumes d: "distinct (map fst (nn_datanodes s))"
  shows "settled (snd (scan_block now b (k, s))) now b"
proof (cases "settled s now b")
  case True
  then show ?thesis by (simp add: scan_block_eq new_targets_def)
next
  case False
  let ?ts = "new_targets s now b" and ?src = "hd (sort (holders s now b))"
  let ?t = "fold (schedule_target b ?src) ?ts s"
  let ?need = "nat (replication_target_for_block s b - effective s now b)"
  note eq = same_cluster_eqs [OF fold_schedule(3) [of s b ?src ?ts]]
  have ts: "?ts = take ?need (sort (candidates s now b))" using False by (simp add: new_targets_def)
  have dts: "distinct ?ts" unfolding ts using distinct_candidates [OF d] by (simp add: distinct_take)
  have sub: "set ?ts \<subseteq> set (candidates s now b)" unfolding ts by (auto dest: in_set_takeD)
  have "set ?ts \<inter> set (queued_targets s b) = {}" using sub set_candidates [OF d] by blast
  then have "length (queued_targets ?t b) = length ?ts + length (queued_targets s b)"
    unfolding queued_length queued_schedule using dts
    by (simp add: card_Un_disjoint distinct_card)
  then have eff: "effective ?t now b = effective s now b + int (length ?ts)"
    using eq(1) by (simp add: effective_def)
  have "settled ?t now b"
  proof (cases "?need \<le> length (candidates s now b)")
    case True
    then have "length ?ts = ?need" unfolding ts by simp
    moreover have "replication_target_for_block s b > effective s now b"
      using False by (simp add: settled_def)
    ultimately show ?thesis using eff eq(2) by (simp add: settled_def)
  next
    case False
    then have "set ?ts = set (candidates s now b)" unfolding ts by simp
    then have "set (candidates ?t now b) = {}" using candidates_schedule [OF d, of b ?src ?ts now b] by simp
    then show ?thesis by (simp add: settled_def)
  qed
  then show ?thesis by (simp add: scan_block_eq)
qed

lemma scan_block_other:
  assumes d: "distinct (map fst (nn_datanodes s))" and "settled s now b'"
  shows "settled (snd (scan_block now b (k, s))) now b'"
proof (cases "b' = b")
  case True
  then show ?thesis using scan_block_settles [OF d] by simp
next
  case False
  let ?src = "hd (sort (holders s now b))" and ?ts = "new_targets s now b"
  let ?t = "fold (schedule_target b ?src) ?ts s"
  note eq = same_cluster_eqs [OF fold_schedule(3) [of s b ?src ?ts]]
  have "length (queued_targets ?t b') = length (queued_targets s b')"
    unfolding queued_length queued_schedule using False by simp
  moreover have "set (candidates ?t now b') = set (candidates s now b')"
    using candidates_schedule [OF d, of b ?src ?ts now b'] False by simp
  ultimately show ?thesis
    using assms(2) eq by (simp add: scan_block_eq settled_def effective_def flip: set_empty)
qed

lemma fold_scan_settles:
  assumes "distinct (map fst (nn_datanodes s))"
  shows "(\<forall>b. b \<in> set bs \<or> settled s now b \<longrightarrow> settled (snd (fold (scan_block now) bs (k, s))) now b) \<and>
    same_cluster s (snd (fold (scan_block now) bs (k, s)))"
  using assms
proof (induction bs arbitrary: s k)
  case (Cons b bs)
  let ?r = "scan_block now b (k, s)"
  have c: "same_cluster s (snd ?r)" by (simp add: scan_block_eq fold_schedule)
  then have d: "distinct (map fst (nn_datanodes (snd ?r)))"
    using Cons.prems by (simp add: same_cluster_def)
  show ?case
    using Cons.IH [OF d, of "fst ?r"] scan_block_settles [OF Cons.prems, of now b k]
      scan_block_other [OF Cons.prems, of now _ b k] same_cluster_trans [OF c]
    by auto
qed (simp add: same_cluster_def)

lemma fold_scan_settled:
  "\<forall>b\<in>set bs. settled s now b \<Longrightarrow> fold (scan_block now) bs (k, s) = (k, s)"
  by (induction bs arbitrary: k) (simp_all add: scan_block_eq new_targets_def)

lemma hd_sort_in: "xs \<noteq> [] \<Longrightarrow> hd (sort xs) \<in> set (xs :: 'a::linorder list)"
  by (metis hd_in_set set_sort length_0_conv length_sort)

definition sensible :: "name_node \<Rightarrow> real \<Rightarrow> block_id \<times> node_id \<times> node_id \<Rightarrow> bool" where
  "sensible s now = (\<lambda>(b, src, t). src \<in> set (holders s now b) \<and> live s now t \<and>
     t \<notin> set (holders s now b) \<and> t \<notin> set (queued_targets s b))"

lemma fold_scan_new:
  assumes "distinct (map fst (nn_datanodes s))"
  shows "\<exists>new. nn_pending_replications (snd (fold (scan_block now) bs (k, s))) =
      nn_pending_replications s @ new \<and> fst (fold (scan_block now) bs (k, s)) = k + length new \<and>
      (\<forall>e\<in>set new. fst e \<in> set bs \<and> sensible s now e)"
  using assms
proof (induction bs arbitrary: s k)
  case (Cons b bs)
  let ?src = "hd (sort (holders s now b))" and ?ts = "new_targets s now b"
  let ?t = "fold (schedule_target b ?src) ?ts s"
  note eq = same_cluster_eqs [OF fold_schedule(3) [of s b ?src ?ts]]
  have d: "distinct (map fst (nn_datanodes ?t))" using Cons.prems eq(5) by simp
  obtain new where new: "nn_pending_replications (snd (fold (scan_block now) bs (k + length ?ts, ?t))) =
      nn_pending_replications ?t @ new"
    "fst (fold (scan_block now) bs (k + length ?ts, ?t)) = k + length ?ts + length new"
    "\<forall>e\<in>set new. fst e \<in> set bs \<and> sensible ?t now e"
    using Cons.IH [OF d, of "k + length ?ts"] by blast
  have "sensible s now e" if "sensible ?t now e" for e
    using that eq queued_schedule [of b ?src ?ts s] by (auto simp: sensible_def)
  moreover have "sensible s now (b, ?src, t)" if "t \<in> set ?ts" for t
  proof -
    have "\<not> settled s now b" "t \<in> set (candidates s now b)"
      using that by (auto simp: new_targets_def split: if_splits dest: in_set_takeD)
    then show ?thesis
      using set_candidates [OF Cons.prems] hd_sort_in [of "holders s now b"]
      by (auto simp: sensible_def settled_def)
  qed
  ultimately show ?case
    using new fold_schedule(1) [of b ?src ?ts s]
    by (intro exI [of _ "map (\<lambda>t. (b, ?src, t)) ?ts @ new"]) (auto simp: scan_block_eq)
qed simp

section \<open>Placement of a new block\<close>

lemma fill_up_props:
  assumes "distinct (map fst xs)" "distinct sel"
  shows "distinct (fill_up r xs sel) \<and> set sel \<subseteq> set (fill_up r xs sel) \<and>
    set (fill_up r xs sel) \<subseteq> set sel \<union> fst ` set xs \<and>
    (int (length (fill_up r xs sel)) < r \<longrightarrow> fst ` set xs \<subseteq> set (fill_up r xs sel)) \<and>
    (int (length sel) \<le> r \<longrightarrow> int (length (fill_up r xs sel)) \<le> r) \<and>
    (int (length sel) \<ge> r \<longrightarrow> fill_up r xs sel = sel)"
  using assms
proof (induction r xs sel rule: fill_up.induct)
  case (2 r n i xs sel)
  let ?sel = "if n \<notin> set sel then sel @ [n] else sel"
  show ?case
  proof (cases "int (length sel) \<ge> r")
    case False
    have "distinct (map fst xs)" "distinct ?sel" using "2.prems" by auto
    note ih = "2.IH" [OF False this]
    have f: "fill_up r ((n, i) # xs) sel = fill_up r xs ?sel" using False by simp
    have "int (length ?sel) \<le> r" "set ?sel = insert n (set sel)" using False by auto
    then show ?thesis using ih False unfolding f by auto
  qed (use "2.prems" in auto)
qed simp

lemma pick_racks_props:
  assumes "distinct (map fst xs)" "distinct sel" "set sel \<inter> fst ` set xs = {}"
    and "rack ` set sel = set racks" "inj_on rack (set sel)" "\<forall>(n, i)\<in>set xs. rack n = dn_rack i"
    and "int (length sel) \<le> r"
  shows "distinct (pick_racks r xs sel racks) \<and>
    set (pick_racks r xs sel racks) \<subseteq> set sel \<union> fst ` set xs \<and>
    inj_on rack (set (pick_racks r xs sel racks)) \<and> int (length (pick_racks r xs sel racks)) \<le> r \<and>
    (int (length (pick_racks r xs sel racks)) < r \<longrightarrow>
       set racks \<union> rack ` fst ` set xs \<subseteq> rack ` set (pick_racks r xs sel racks))"
  using assms
proof (induction r xs sel racks rule: pick_racks.induct)
  case (2 r n i xs sel racks)
  have rk: "rack n = dn_rack i" "n \<notin> set sel" "n \<notin> fst ` set xs" using "2.prems" by auto
  show ?case
  proof (cases "int (length sel) \<ge> r")
    case True
    then show ?thesis using "2.prems" by auto
  next
    case small: False
    show ?thesis
    proof (cases "dn_rack i \<in> set racks")
      case True
      then show ?thesis
        using "2.IH"(2) [OF small] "2.prems" small rk by auto
    next
      case False
      have "inj_on rack (set (sel @ [n]))" using "2.prems"(4,5) False rk by auto
      moreover have "rack ` set (sel @ [n]) = set (set_add (dn_rack i) racks)" using "2.prems"(4) rk by auto
      ultimately show ?thesis
        using "2.IH"(1) [OF small False] "2.prems" small False rk by auto
    qed
  qed
qed auto

definition rack_of :: "name_node \<Rightarrow> node_id \<Rightarrow> string" where
  "rack_of s n = dn_rack (the (map_of (nn_datanodes s) n))"

lemma placement_spread:
  assumes d: "distinct (map fst xs)" and rk: "\<forall>(n, i)\<in>set xs. rack n = dn_rack i"
    and r: "0 \<le> r" "r \<le> int (length xs)"
  defines "sel \<equiv> fill_up r xs (pick_racks r xs [] [])"
  shows "distinct sel \<and> set sel \<subseteq> fst ` set xs \<and> int (length sel) = r \<and>
    (inj_on rack (set sel) \<or> rack ` set sel = rack ` fst ` set xs)"
proof -
  let ?p = "pick_racks r xs [] []"
  have "distinct ?p \<and> set ?p \<subseteq> fst ` set xs \<and> inj_on rack (set ?p) \<and> int (length ?p) \<le> r \<and>
      (int (length ?p) < r \<longrightarrow> rack ` fst ` set xs \<subseteq> rack ` set ?p)"
    using pick_racks_props [OF d, of "[]" rack "[]" r] rk r(1) by simp
  then have pd: "distinct ?p" and ps: "set ?p \<subseteq> fst ` set xs" and pi: "inj_on rack (set ?p)"
    and pl: "int (length ?p) \<le> r"
    and pr: "int (length ?p) < r \<longrightarrow> rack ` fst ` set xs \<subseteq> rack ` set ?p"
    by - (elim conjE, assumption)+
  note f = fill_up_props [OF d pd, of r, folded sel_def]
  have f1: "distinct sel" and f2: "set ?p \<subseteq> set sel" and f3: "set sel \<subseteq> set ?p \<union> fst ` set xs"
    and f4: "int (length sel) < r \<longrightarrow> fst ` set xs \<subseteq> set sel"
    and f5: "int (length ?p) \<le> r \<longrightarrow> int (length sel) \<le> r"
    and f6: "int (length ?p) \<ge> r \<longrightarrow> sel = ?p"
    using f by - (elim conjE, assumption)+
  have sub: "set sel \<subseteq> fst ` set xs" using f3 ps by blast
  have "int (length sel) = r"
  proof (rule ccontr)
    assume "int (length sel) \<noteq> r"
    then have lt: "int (length sel) < r" using f5 pl by linarith
    then have "fst ` set xs = set sel" using f4 sub by blast
    moreover have "card (fst ` set xs) = length xs" using d distinct_card [of "map fst xs"] by simp
    ultimately have "length sel = length xs" using f1 distinct_card [of sel] by simp
    then show False using lt r(2) by simp
  qed
  moreover have "inj_on rack (set sel) \<or> rack ` set sel = rack ` fst ` set xs"
  proof (cases "int (length ?p) < r")
    case True
    then have "rack ` fst ` set xs \<subseteq> rack ` set sel"
      using subset_trans [OF mp [OF pr] image_mono [OF f2]] by simp
    then show ?thesis using image_mono [OF sub, of rack] by simp
  next
    case False
    then have "sel = ?p" using f6 by simp
    then show ?thesis using pi by simp
  qed
  ultimately show ?thesis using f1 sub by blast
qed

section \<open>Properties\<close>

text \<open>
  C15: every copy that a scan schedules goes from a live holder of the block to a live node that
  neither holds it nor has a copy on the way, the returned count is the number of new tasks, and
  the scan is idempotent: scanning again at once schedules nothing and changes nothing.
\<close>

theorem hdfs_scan_idempotent:
  assumes "distinct (map fst (nn_datanodes s))"
  shows "\<exists>new k t. scan_and_schedule_replication now s = (k, t) \<and>
    nn_pending_replications t = nn_pending_replications s @ new \<and> k = length new \<and>
    (\<forall>(b, src, dst)\<in>set new. b \<in> set (check_under_replicated_blocks s) \<and>
       src \<in> set (holders s now b) \<and> live s now dst \<and> dst \<notin> set (holders s now b) \<and>
       dst \<notin> set (queued_targets s b)) \<and>
    scan_and_schedule_replication now t = (0, t)"
proof -
  let ?bs = "check_under_replicated_blocks s"
  obtain k t where kt: "scan_and_schedule_replication now s = (k, t)" by force
  then have f: "fold (scan_block now) ?bs (0, s) = (k, t)"
    by (simp add: scan_and_schedule_replication_def)
  have st: "\<forall>b\<in>set ?bs. settled t now b" "same_cluster s t"
    using fold_scan_settles [OF assms, of ?bs now 0] f by auto
  have "scan_and_schedule_replication now t = (0, t)"
    using fold_scan_settled [OF st(1), of 0] same_cluster_eqs(3) [OF st(2)]
    by (simp add: scan_and_schedule_replication_def)
  moreover obtain new where "nn_pending_replications t = nn_pending_replications s @ new"
    "k = length new" "\<forall>e\<in>set new. fst e \<in> set ?bs \<and> sensible s now e"
    using fold_scan_new [OF assms, of now ?bs 0] f by auto
  ultimately show ?thesis using kt by (fastforce simp: sensible_def)
qed

text \<open>A cluster with one block on one of two nodes.\<close>

definition ex_cluster :: name_node where
  "ex_cluster =
     (let s1 = snd (register_datanode (name_node_init 2 10 0) ''n1'' ''h1'' 1 100 0 None ''/r1'' 0);
          s2 = block_report s1 \<lparr>br_node_id = ''n1'', br_blocks = []\<rparr>;
          s3 = state_of (create_file s2 ''/f'' None None False 0);
          s4 = block_received (state_of (add_block s3 ''/f'' ''blk_1'' 0)) ''n1'' ''blk_1'' 5
      in snd (register_datanode s4 ''n2'' ''h2'' 2 100 0 None ''/r2'' 0))"

theorem hdfs_scan_idempotent_witness:
  "\<exists>k t. scan_and_schedule_replication 1 ex_cluster = (k, t) \<and>
     nn_pending_replications t = [(''blk_1'', ''n1'', ''n2'')] \<and>
     scan_and_schedule_replication 1 t = (0, t)"
proof -
  have d: "distinct (map fst (nn_datanodes ex_cluster))" by code_simp
  have "nn_pending_replications (snd (scan_and_schedule_replication 1 ex_cluster)) =
      [(''blk_1'', ''n1'', ''n2'')]" by code_simp
  then show ?thesis using hdfs_scan_idempotent [OF d, of 1] by (metis snd_conv)
qed

section \<open>Copies on the way\<close>

text \<open>The node \<open>n\<close> is a target of a copy of \<open>b\<close> that has been scheduled and not acknowledged.\<close>

abbreviation awaited :: "node_id \<Rightarrow> block_id \<Rightarrow> name_node \<Rightarrow> bool" where
  "awaited n b s \<equiv> n \<in> set (in_flight s b)"

lemma fold_snd_inv:
  assumes "\<And>x r. P (snd r) \<Longrightarrow> P (snd (f x r))" and "P (snd r)"
  shows "P (snd (fold f xs r))"
  using assms by (induction xs arbitrary: r) auto

lemma fold_state_inv:
  assumes "\<And>x t. P t \<Longrightarrow> P (f x t)" and "P s"
  shows "P (fold f xs s)"
  using assms by (induction xs arbitrary: s) auto

lemma awaited_cong: "nn_in_flight t = nn_in_flight s \<Longrightarrow> awaited n b t = awaited n b s"
  by (simp add: in_flight_def)

lemma scan_block_awaited: "awaited n b (snd r) \<Longrightarrow> awaited n b (snd (scan_block now b' r))"
  by (cases r) (auto simp: scan_block_eq fold_schedule(2) set_fold_set_add)

lemma scan_awaited: "awaited n b s \<Longrightarrow> awaited n b (snd (scan_and_schedule_replication now s))"
  unfolding scan_and_schedule_replication_def
  by (rule fold_snd_inv [where P = "awaited n b"]) (simp_all add: scan_block_awaited)

lemma dead_nodes_awaited:
  "awaited n b s \<Longrightarrow> awaited n b (snd (check_and_remove_dead_nodes timeout now s))"
proof -
  have "awaited n b (remove_datanode now m t)" if "awaited n b t" for m t
  proof -
    let ?u = "t\<lparr>nn_block_to_nodes := forget_node m (nn_block_to_nodes t),
      nn_datanodes := AList.delete m (nn_datanodes t)\<rparr>"
    have "awaited n b ?u" using that by (simp add: in_flight_def)
    then show ?thesis using that scan_awaited [of n ?u b now] by (simp add: remove_datanode_def)
  qed
  then have "awaited n b (fold (remove_datanode now) ms s)" if "awaited n b s" for ms
    using that by (rule fold_state_inv [where P = "awaited n b"])
  then show "awaited n b s \<Longrightarrow> awaited n b (snd (check_and_remove_dead_nodes timeout now s))"
    by (simp add: check_and_remove_dead_nodes_def Let_def)
qed

lemma heartbeat_awaited:
  assumes "awaited n b s" "m \<noteq> n"
  shows "awaited n b (snd (heartbeat s m used remaining now))"
proof (cases "m \<in> keys_of (nn_datanodes s)")
  case True
  let ?s1 = "touch_node m used remaining None now s"
  let ?s2 = "snd (check_and_remove_dead_nodes 30 now ?s1)"
  have "awaited n b ?s1" using assms(1) by (simp add: touch_node_def in_flight_def)
  then have "awaited n b ?s2" by (rule dead_nodes_awaited)
  then have s3: "awaited n b (snd (take_deletions m ?s2))"
    by (simp add: take_deletions_def in_flight_def split: option.splits)
  have "awaited n b (snd (deliver_replication now m e r))" if "awaited n b (snd r)" for e r
    using that assms(2) by (cases e; cases r) (auto simp: deliver_replication_def in_flight_def Let_def
        split: option.splits)
  then have "awaited n b (snd (fold (deliver_replication now m) es (take_deletions m ?s2)))" for es
    using s3 by (rule fold_snd_inv [where P = "awaited n b"])
  then show ?thesis using True by (simp add: heartbeat_def Let_def case_prod_beta)
qed (use assms(1) in \<open>simp add: heartbeat_def\<close>)

lemma delete_file_in_flight: "nn_in_flight (state_of (delete_file s p)) = nn_in_flight s"
proof (cases "map_of (nn_files s) p")
  case (Some f)
  have "nn_in_flight (state_of (for_each delete_block (fi_blocks f) s)) = nn_in_flight s"
    by (rule for_each_inv [where P = "\<lambda>t. nn_in_flight t = nn_in_flight s"])
      (auto simp: delete_block_def Let_def)
  then show ?thesis
    using Some by (cases "for_each delete_block (fi_blocks f) s") (auto simp: delete_file_def and_then_def split: sum.splits)
qed (simp add: delete_file_def)

lemma create_file_in_flight: "nn_in_flight (state_of (create_file s p r bs ov now)) = nn_in_flight s"
  unfolding create_file_def
  by (rule and_then_state_inv [where P = "\<lambda>t. nn_in_flight t = nn_in_flight s"])
    (auto simp: delete_file_in_flight Let_def)

lemma mkdir_in_flight: "nn_in_flight (state_of (mkdir s p cp now)) = nn_in_flight s"
proof (induction s p cp now rule: mkdir.induct)
  case (1 s p cp now)
  then show ?case
    by (subst mkdir.simps)
      (auto simp: Let_def add_directory_def and_then_def split: prod.splits sum.splits)
qed

lemma block_report_in_flight: "nn_in_flight (block_report s r) = nn_in_flight s"
  by (simp add: block_report_def check_safe_mode_def record_report_def)

lemma block_received_awaited:
  "awaited n b s \<Longrightarrow> \<not> (m = n \<and> b' = b) \<Longrightarrow> awaited n b (block_received s m b' sz)"
  by (auto simp: block_received_def in_flight_def Let_def)

text \<open>The messages by which the node \<open>n\<close> can end the wait for its copy of \<open>b\<close>.\<close>

fun speaks :: "node_id \<Rightarrow> block_id \<Rightarrow> server_event \<Rightarrow> bool" where
  "speaks n b (Arrives c i now (Request (HEARTBEAT m u r))) = (m = n)"
| "speaks n b (Arrives c i now (Request (BLOCK_RECEIVED m b' sz))) = (m = n \<and> b' = b)"
| "speaks n b _ = False"

lemma process_message_awaited:
  assumes "awaited n b s" "process_message i now s m = Some (r, t)"
    and "\<not> speaks n b (Arrives c i now (Request m))"
  shows "awaited n b t"
proof -
  have t: "process_message i now s m = Some x \<Longrightarrow> t = snd x" for x using assms(2) by auto
  show ?thesis
  proof (cases m)
    case (CREATE_FILE p r bs ov)
    then show ?thesis
      using t assms(1) by (simp add: awaited_cong [OF create_file_in_flight])
  next
    case (ADD_BLOCK p)
    have "nn_in_flight (state_of (add_block s p i now)) = nn_in_flight s"
      using add_block_cases [of s p i now] by auto
    then show ?thesis using ADD_BLOCK t assms(1) by (simp add: in_flight_def)
  next
    case (COMPLETE_FILE p k)
    then obtain x where x: "complete_file s p k now = Some x" "t = state_of x"
      using assms(2) by auto (metis answer_state snd_conv)
    then have "nn_in_flight t = nn_in_flight s" using complete_file_cases [OF x(1)] by auto
    then show ?thesis using assms(1) by (simp add: in_flight_def)
  next
    case (MKDIR p cp)
    then show ?thesis using t assms(1) by (simp add: awaited_cong [OF mkdir_in_flight])
  next
    case (DELETE_FILE p)
    then show ?thesis using t assms(1) by (simp add: awaited_cong [OF delete_file_in_flight])
  next
    case (REGISTER_DATANODE m h port k u rem rack)
    then show ?thesis using t assms(1) by (simp add: register_datanode_def in_flight_def)
  next
    case (HEARTBEAT m u rem)
    then show ?thesis using t assms(1,3) heartbeat_awaited [OF assms(1), of m u rem now] by simp
  next
    case (BLOCK_REPORT m bs)
    then show ?thesis using t assms(1) by (simp add: awaited_cong [OF block_report_in_flight])
  next
    case (BLOCK_RECEIVED m b' sz)
    then show ?thesis using t assms(3) block_received_awaited [OF assms(1), of m b' sz] by simp
  qed (use t assms(1) in \<open>simp_all split: sum.splits option.splits\<close>)
qed

lemma serve_awaited:
  assumes "serve gone es s = Some (rs, t)" "awaited n b s" "\<forall>e\<in>set es. \<not> speaks n b e"
  shows "awaited n b t"
  using assms
proof (induction gone es s arbitrary: rs rule: serve.induct)
  case (2 gone now es s)
  have "awaited n b (replication_monitor_round now s)"
    unfolding replication_monitor_round_def using 2(3) by (intro scan_awaited dead_nodes_awaited)
  then show ?case using 2(1,2,4) by simp
next
  case (3 gone c i now f es s)
  show ?case
  proof (cases "c \<in> set gone \<or> f = Malformed")
    case True
    then show ?thesis using "3.IH"(1,3) "3.prems" by (cases "c \<in> set gone") simp_all
  next
    case False
    then obtain m where m: "c \<notin> set gone" "f = Request m" by (cases f) auto
    then obtain r u where u: "process_message i now s m = Some (r, u)"
      using "3.prems"(1) by (auto split: option.splits)
    have "awaited n b u"
      using process_message_awaited [OF "3.prems"(2) u, of c] "3.prems"(3) m(2) by simp
    then show ?thesis using "3.IH"(2) [OF m u refl] "3.prems"(1,3) m u by auto
  qed
qed simp

lemma scan_skips_awaited:
  assumes "awaited n b s" "replication_target_for_block s b \<le> int (length (holders s now b)) + 1"
  shows "filter (\<lambda>e. fst e = b) (nn_pending_replications (snd (scan_and_schedule_replication now s))) =
    filter (\<lambda>e. fst e = b) (nn_pending_replications s)"
proof -
  let ?P = "\<lambda>t. awaited n b t \<and> same_cluster s t \<and>
    filter (\<lambda>e. fst e = b) (nn_pending_replications t) = filter (\<lambda>e. fst e = b) (nn_pending_replications s)"
  have step: "?P (snd (scan_block now b' r))" if P: "?P (snd r)" for b' r
  proof -
    let ?t = "snd r"
    have none: "new_targets ?t now b = []"
    proof -
      have "n \<in> set (queued_targets ?t b)" using P by (simp add: queued_targets_def)
      then have "1 \<le> length (queued_targets ?t b)" by (cases "queued_targets ?t b") auto
      then have "replication_target_for_block ?t b \<le> effective ?t now b"
        using assms(2) same_cluster_eqs(1,2) [of s ?t] P by (simp add: effective_def)
      then show ?thesis by (simp add: new_targets_def settled_def)
    qed
    have e: "snd (scan_block now b' r) = fold (schedule_target b' (hd (sort (holders ?t now b')))) (new_targets ?t now b') ?t"
      by (cases r) (simp add: scan_block_eq)
    have "same_cluster s (snd (scan_block now b' r))"
      unfolding e using P same_cluster_trans fold_schedule(3) by blast
    moreover have "awaited n b (snd (scan_block now b' r))" using P scan_block_awaited by blast
    moreover have "filter (\<lambda>e. fst e = b) (nn_pending_replications (snd (scan_block now b' r))) =
        filter (\<lambda>e. fst e = b) (nn_pending_replications ?t)"
      unfolding e fold_schedule(1) using none by (cases "b' = b") (auto simp: filter_empty_conv)
    ultimately show ?thesis using P by simp
  qed
  have "?P s" using assms(1) by (simp add: same_cluster_def)
  then have "?P (snd (scan_and_schedule_replication now s))"
    unfolding scan_and_schedule_replication_def
    using fold_snd_inv [where P = ?P and f = "scan_block now" and r = "(0, s)", OF step] by simp
  then show ?thesis by blast
qed

text \<open>
  C29: a copy whose target falls silent while it is in flight is never given up. Once \<open>n\<close> is awaited
  as the target of a copy of \<open>b\<close>, then whatever arrives at the server and however often the monitor
  runs and removes \<open>n\<close> as dead, as long as \<open>n\<close> sends no heartbeat and does not acknowledge \<open>b\<close>, it is
  still counted as a replica on the way: whenever \<open>b\<close> lacks just one replica, no scan at any time
  schedules a copy of it, however many live nodes could take one.
\<close>

theorem hdfs_dead_target_blocks_repair:
  assumes "n \<in> set (in_flight s b)" and "\<forall>e\<in>set es. \<not> speaks n b e" and "serve [] es s = Some (rs, t)"
  shows "n \<in> set (in_flight t b) \<and>
    (\<forall>now. replication_target_for_block t b \<le> int (length (holders t now b)) + 1 \<longrightarrow>
       filter (\<lambda>e. fst e = b) (nn_pending_replications (snd (scan_and_schedule_replication now t))) =
       filter (\<lambda>e. fst e = b) (nn_pending_replications t))"
  using serve_awaited [OF assms(3,1,2)] scan_skips_awaited by blast

text \<open>
  The node \<open>n2\<close> is told to copy the block and dies; \<open>n1\<close> lives and \<open>n3\<close> joins, and the block, which
  has one replica of two, is not copied to \<open>n3\<close>.
\<close>

theorem hdfs_dead_target_blocks_repair_witness:
  "\<exists>rs t. serve [] [Arrives 3 ''i'' 40 (Request (REGISTER_DATANODE ''n3'' ''h3'' 3 100 0 None ''/r3'')),
        Arrives 1 ''j'' 40 (Request (HEARTBEAT ''n1'' 5 95)), Monitor 41]
      (snd (heartbeat (snd (scan_and_schedule_replication 1 ex_cluster)) ''n2'' 0 100 1)) = Some (rs, t) \<and>
    keys_of (nn_datanodes t) = {''n1'', ''n3''} \<and> holders t 42 ''blk_1'' = [''n1''] \<and> live t 42 ''n3'' \<and>
    replication_target_for_block t ''blk_1'' = 2 \<and>
    filter (\<lambda>e. fst e = ''blk_1'') (nn_pending_replications (snd (scan_and_schedule_replication 42 t))) = []"
proof -
  let ?s = "snd (heartbeat (snd (scan_and_schedule_replication 1 ex_cluster)) ''n2'' 0 100 1)"
  let ?es = "[Arrives 3 ''i'' 40 (Request (REGISTER_DATANODE ''n3'' ''h3'' 3 100 0 None ''/r3'')),
    Arrives 1 ''j'' 40 (Request (HEARTBEAT ''n1'' 5 95)), Monitor 41]"
  have w: "''n2'' \<in> set (in_flight ?s ''blk_1'')" by code_simp
  have q: "\<forall>e\<in>set ?es. \<not> speaks ''n2'' ''blk_1'' e" by simp
  have "map_option (\<lambda>(rs, t). keys_of (nn_datanodes t) = {''n1'', ''n3''} \<and> holders t 42 ''blk_1'' = [''n1''] \<and>
      live t 42 ''n3'' \<and> replication_target_for_block t ''blk_1'' = 2 \<and> nn_pending_replications t = [])
      (serve [] ?es ?s) = Some True" by code_simp
  then obtain rs t where t: "serve [] ?es ?s = Some (rs, t)" "keys_of (nn_datanodes t) = {''n1'', ''n3''}"
    "holders t 42 ''blk_1'' = [''n1'']" "live t 42 ''n3''" "replication_target_for_block t ''blk_1'' = 2"
    "nn_pending_replications t = []" by auto
  have "filter (\<lambda>e. fst e = ''blk_1'') (nn_pending_replications (snd (scan_and_schedule_replication 42 t))) =
      filter (\<lambda>e. fst e = ''blk_1'') (nn_pending_replications t)"
    using hdfs_dead_target_blocks_repair [OF w q t(1)] t(3,5) by simp
  then show ?thesis using t by (intro exI [of _ rs] exI [of _ t]) simp
qed

text \<open>
  C18: the nodes chosen for a new block are distinct, alive and have room for a block; there are as
  many as the replication factor asks for, or all available ones when there are fewer; and they
  are spread over the racks: either no two share a rack, or every rack that has an available node
  is used.
\<close>

theorem hdfs_placement:
  assumes "distinct (map fst (nn_datanodes s))" "0 \<le> replication"
    and "select_datanodes_for_block s replication now = Inr sel"
  shows "distinct sel \<and> set sel \<subseteq> fst ` set (available_nodes s now) \<and>
    int (length sel) = min replication (int (length (available_nodes s now))) \<and>
    (inj_on (rack_of s) (set sel) \<or>
       rack_of s ` set sel = rack_of s ` fst ` set (available_nodes s now))"
proof -
  let ?av = "available_nodes s now"
  have d: "distinct (map fst ?av)" unfolding available_nodes_def using assms(1) by (rule distinct_map_filter)
  have rk: "\<forall>(n, i)\<in>set ?av. rack_of s n = dn_rack i"
    using assms(1) by (auto simp: available_nodes_def rack_of_def)
  show ?thesis
  proof (cases "int (length ?av) < replication")
    case True
    then have "sel = map fst ?av" using assms(3) by (simp add: select_datanodes_for_block_def)
    then show ?thesis using True d by auto
  next
    case False
    define m where "m = foldr max (map (dn_remaining \<circ> snd) (tl ?av)) (dn_remaining (snd (hd ?av)))"
    define f where "f = load_score (block_count s)
      (foldr max (map (block_count s \<circ> fst) ?av) 0 + 1) (if m = 0 then 1 else m)"
    have sel: "sel = fill_up replication (sort_key f ?av) (pick_racks replication (sort_key f ?av) [] [])"
      using False assms(3) unfolding select_datanodes_for_block_def Let_def m_def [symmetric]
        f_def [symmetric] by (simp split: if_splits)
    have "distinct (map fst (sort_key f ?av))" using d by (simp add: distinct_map)
    from placement_spread [OF this, of "rack_of s" replication] show ?thesis
      using False rk assms(2) unfolding sel by auto
  qed
qed

theorem hdfs_placement_witness:
  "\<exists>sel. select_datanodes_for_block ex_cluster 2 1 = Inr sel \<and> distinct sel \<and> length sel = 2"
proof -
  have d: "distinct (map fst (nn_datanodes ex_cluster))" by code_simp
  have s: "select_datanodes_for_block ex_cluster 2 1 = Inr [''n2'', ''n1'']" by code_simp
  then show ?thesis using hdfs_placement [OF d _ s] by simp
qed

end
