(* ===== verification/Hdfs_Checkpoint.thy ===== *)
theory Hdfs_Checkpoint
  imports Hdfs_Reach
begin

text \<open>
  Recovery from a checkpoint: what a name node that loads the file another one wrote has kept and
  what it has lost.
\<close>

text \<open>
  C13: recovery after a clean shutdown. A name node that starts with the checkpoint another one
  wrote atomically has the same files, blocks and replica map and the same directories, except
  that access times and heartbeat times are reset to the time of loading and the quotas of all
  directories and the nodes' own block sets are lost. Listings are the same, and the invariants
  hold again.
\<close>

theorem hdfs_checkpoint_roundtrip:
  assumes "dicts_ok s" "\<forall>(_, b)\<in>set (nn_blocks s). bk_generation_stamp b \<noteq> 0"
  shows "let t = snd (configure_checkpointing (name_node_init r bs t0) path True
      (write_checkpoint_atomic s path d) now)
    in nn_files t = map (\<lambda>(p, f). (p, f\<lparr>fi_access_time := now\<rparr>)) (nn_files s) \<and>
       nn_directories t =
         map (\<lambda>(p, i). (p, i\<lparr>di_namespace_quota := None, di_space_quota := None\<rparr>)) (nn_directories s) \<and>
       nn_blocks t = nn_blocks s \<and> nn_block_to_nodes t = nn_block_to_nodes s \<and>
       nn_datanodes t =
         map (\<lambda>(n, i). (n, i\<lparr>dn_last_heartbeat := now, dn_blocks := []\<rparr>)) (nn_datanodes s) \<and>
       (\<forall>p. list_directory t p = list_directory s p) \<and>
       (ns_inv s \<longrightarrow> ns_inv t) \<and> (blk_inv s \<longrightarrow> blk_inv t)"
proof -
  let ?t = "state_of (load_checkpoint (save_checkpoint s) now (name_node_init r bs t0))"
  have t: "snd (configure_checkpointing (name_node_init r bs t0) path True
      (write_checkpoint_atomic s path d) now) = ?t"
    by (simp add: configure_checkpointing_def write_checkpoint_atomic_def Let_def)
  note f = load_save_fields [OF assms, of now "name_node_init r bs t0"]
  note i = inv_map_values [OF f(1) _ f(2)]
  have "ns_inv s \<longrightarrow> ns_inv ?t" "list_directory ?t p = list_directory s p" for p
    using i(1,2) by simp_all
  moreover have "blk_inv s \<longrightarrow> blk_inv ?t" using i(3,4) f(3,4) by (simp add: blk_inv_def)
  ultimately show ?thesis using f unfolding t Let_def by blast
qed

theorem hdfs_checkpoint_roundtrip_witness:
  "dicts_ok ex_files \<and>
   list_directory (snd (configure_checkpointing (name_node_init 3 128 9) ''ck'' True
     (write_checkpoint_atomic ex_files ''ck'' Map.empty) 9)) ''/a/b'' = Inr [''f'']"
proof -
  have d: "dicts_ok ex_files" "\<forall>(_, b)\<in>set (nn_blocks ex_files). bk_generation_stamp b \<noteq> 0"
    and l: "list_directory ex_files ''/a/b'' = Inr [''f'']" by code_simp+
  then show ?thesis using hdfs_checkpoint_roundtrip [OF d, of 3 128 9 "''ck''" Map.empty 9]
    by (simp add: Let_def)
qed

end
