(* ===== verification/KV_Cache.thy ===== *)
theory KV_Cache
  imports Prelude
begin

text \<open>
  The key/value cache of the inference engine
  (\<open>44-autoregressive-inference/src/autoregressive_inference/kv_cache.py\<close>): the blocks, the paged
  manager and the sliding window.

  The slice \<open>data[layer, 0, :, pos, :]\<close> of a tensor, the key of one token at one layer, is one value
  of the type variable \<^typ>\<open>'t\<close>, and so is the value slice; \<open>data\<close> is then a list, per layer, of the
  pairs at each position. The tensor library is a parameter: \<open>zero_slice\<close> is the slice that
  \<open>zeros\<close>, \<open>zero_\<close> and \<open>fill(0)\<close> give, and \<open>cast\<close> is the conversion to the device and the element
  type of the buffer that an assignment performs (\<open>_to_torch_if_needed\<close> and the rounding to
  \<open>float16\<close>). Sizes of tensors are natural numbers; layer numbers and block numbers that a caller
  passes are Python integers, with Python's meaning of negative indices.
\<close>

record 't tensors =
  zero_slice :: 't
  cast :: "'t \<Rightarrow> 't"

section \<open>Blocks\<close>

record kv_config =
  num_layers :: nat
  num_heads :: nat
  head_dim :: nat
  max_seq_len :: nat
  block_size :: nat
  dtype :: string
  device :: string

definition get_block_memory_bytes :: "kv_config \<Rightarrow> nat" where
  "get_block_memory_bytes cfg =
     (let dtype_size = (if dtype cfg = ''float16'' then 2 else 4) in
      num_layers cfg * 2 * num_heads cfg * block_size cfg * head_dim cfg * dtype_size)"

record 't kv_block =
  block_id :: nat
  data :: "('t \<times> 't) list list"
  num_tokens :: nat
  ref_count :: int

definition zero_data :: "kv_config \<Rightarrow> 't tensors \<Rightarrow> ('t \<times> 't) list list" where
  "zero_data cfg T = replicate (num_layers cfg) (replicate (block_size cfg) (zero_slice T, zero_slice T))"

definition new_kv_block :: "kv_config \<Rightarrow> 't tensors \<Rightarrow> nat \<Rightarrow> 't kv_block" where
  "new_kv_block cfg T i = \<lparr>block_id = i, data = zero_data cfg T, num_tokens = 0, ref_count = 0\<rparr>"

text \<open>The assignments \<open>data[l, 0, :, pos, :] = k\<close> and \<open>data[l, 1, :, pos, :] = v\<close>.\<close>

definition write_k :: "nat \<Rightarrow> nat \<Rightarrow> 't \<Rightarrow> 't kv_block \<Rightarrow> 't kv_block" where
  "write_k l pos k c = c\<lparr>data := (data c)[l := (data c ! l)[pos := (k, snd (data c ! l ! pos))]]\<rparr>"

definition write_v :: "nat \<Rightarrow> nat \<Rightarrow> 't \<Rightarrow> 't kv_block \<Rightarrow> 't kv_block" where
  "write_v l pos v c = c\<lparr>data := (data c)[l := (data c ! l)[pos := (fst (data c ! l ! pos), v)]]\<rparr>"

definition is_full :: "kv_config \<Rightarrow> 't kv_block \<Rightarrow> bool" where
  "is_full cfg c \<longleftrightarrow> block_size cfg \<le> num_tokens c"

definition block_append ::
    "kv_config \<Rightarrow> 't tensors \<Rightarrow> int \<Rightarrow> 't \<Rightarrow> 't \<Rightarrow> 't kv_block \<Rightarrow> (py_error, nat, 't kv_block) outcome" where
  "block_append cfg T layer_idx k v c =
     (if block_size cfg \<le> num_tokens c then (Inl RuntimeError, c)
      else case py_index (num_layers cfg) layer_idx of
        None \<Rightarrow> (Inl IndexError, c)
      | Some l \<Rightarrow>
          let pos = num_tokens c;
              c1 = write_v l pos (cast T v) (write_k l pos (cast T k) c)
          in (Inr pos,
              if layer_idx = int (num_layers cfg) - 1 then c1\<lparr>num_tokens := num_tokens c1 + 1\<rparr> else c1))"

text \<open>
  \<open>append_token\<close>: the lists may be shorter than the number of layers, and then the writes made
  before the \<open>IndexError\<close> stay.
\<close>

definition token_layer ::
    "'t tensors \<Rightarrow> 't list \<Rightarrow> 't list \<Rightarrow> nat \<Rightarrow> nat \<Rightarrow> 't kv_block \<Rightarrow> (py_error, unit, 't kv_block) outcome" where
  "token_layer T k_by_layer v_by_layer pos l c =
     (if l < length k_by_layer then
        let c1 = write_k l pos (cast T (k_by_layer ! l)) c in
        if l < length v_by_layer then (Inr (), write_v l pos (cast T (v_by_layer ! l)) c1)
        else (Inl IndexError, c1)
      else (Inl IndexError, c))"

definition block_append_token ::
    "kv_config \<Rightarrow> 't tensors \<Rightarrow> 't list \<Rightarrow> 't list \<Rightarrow> 't kv_block \<Rightarrow> (py_error, nat, 't kv_block) outcome" where
  "block_append_token cfg T k_by_layer v_by_layer c =
     (if block_size cfg \<le> num_tokens c then (Inl RuntimeError, c)
      else let pos = num_tokens c in
        and_then (for_each (token_layer T k_by_layer v_by_layer pos) [0..<num_layers cfg] c)
          (\<lambda>_ c1. (Inr pos, c1\<lparr>num_tokens := num_tokens c1 + 1\<rparr>)))"

definition block_get_kv :: "kv_config \<Rightarrow> int \<Rightarrow> 't kv_block \<Rightarrow> py_error + ('t list \<times> 't list)" where
  "block_get_kv cfg layer_idx c =
     (case py_index (num_layers cfg) layer_idx of
        None \<Rightarrow> Inl IndexError
      | Some l \<Rightarrow> Inr (map fst (take (num_tokens c) (data c ! l)), map snd (take (num_tokens c) (data c ! l))))"

definition get_kv_at_position :: "kv_config \<Rightarrow> int \<Rightarrow> int \<Rightarrow> 't kv_block \<Rightarrow> py_error + ('t \<times> 't)" where
  "get_kv_at_position cfg layer_idx position c =
     (case (py_index (num_layers cfg) layer_idx, py_index (block_size cfg) position) of
        (Some l, Some p) \<Rightarrow> Inr (data c ! l ! p)
      | _ \<Rightarrow> Inl IndexError)"

definition block_reset :: "kv_config \<Rightarrow> 't tensors \<Rightarrow> 't kv_block \<Rightarrow> 't kv_block" where
  "block_reset cfg T c = c\<lparr>num_tokens := 0, ref_count := 0, data := zero_data cfg T\<rparr>"

section \<open>The paged manager\<close>

record 't kv_manager =
  num_blocks :: nat
  blocks :: "'t kv_block list"
  free_blocks :: "nat list"
  request_blocks :: "string \<rightharpoonup> nat list"

definition kv_init :: "kv_config \<Rightarrow> 't tensors \<Rightarrow> nat \<Rightarrow> 't kv_manager" where
  "kv_init cfg T n =
     \<lparr>num_blocks = n, blocks = map (new_kv_block cfg T) [0..<n], free_blocks = [0..<n],
      request_blocks = Map.empty\<rparr>"

text \<open>\<open>free_blocks.pop()\<close>, and the reference count of the block set to one.\<close>

definition pop_block :: "'t kv_manager \<Rightarrow> nat \<times> 't kv_manager" where
  "pop_block m =
     (let b = last (free_blocks m) in
      (b, m\<lparr>free_blocks := butlast (free_blocks m),
            blocks := (blocks m)[b := (blocks m ! b)\<lparr>ref_count := 1\<rparr>]\<rparr>))"

fun pop_blocks :: "nat \<Rightarrow> 't kv_manager \<Rightarrow> nat list \<times> 't kv_manager" where
  "pop_blocks 0 m = ([], m)"
| "pop_blocks (Suc n) m =
     (let (b, m1) = pop_block m; (bs, m2) = pop_blocks n m1 in (b # bs, m2))"

definition kv_allocate_blocks :: "string \<Rightarrow> int \<Rightarrow> 't kv_manager \<Rightarrow> nat list \<times> 't kv_manager" where
  "kv_allocate_blocks request_id n m =
     (if int (length (free_blocks m)) < n then ([], m)
      else let (allocated, m1) = pop_blocks (nat n) m in
        (allocated,
         m1\<lparr>request_blocks := (request_blocks m1)(request_id \<mapsto>
              (case request_blocks m1 request_id of Some bs \<Rightarrow> bs @ allocated | None \<Rightarrow> allocated))\<rparr>))"

definition allocate_single_block :: "string \<Rightarrow> 't kv_manager \<Rightarrow> nat option \<times> 't kv_manager" where
  "allocate_single_block request_id m =
     (let (bs, m1) = kv_allocate_blocks request_id 1 m in
      (if bs \<noteq> [] then Some (hd bs) else None, m1))"

definition release_block :: "kv_config \<Rightarrow> 't tensors \<Rightarrow> nat \<Rightarrow> nat \<times> 't kv_manager \<Rightarrow> nat \<times> 't kv_manager" where
  "release_block cfg T b = (\<lambda>(freed_count, m).
     let c = (blocks m ! b)\<lparr>ref_count := ref_count (blocks m ! b) - 1\<rparr> in
     if ref_count c = 0
     then (freed_count + 1,
           m\<lparr>blocks := (blocks m)[b := block_reset cfg T c], free_blocks := free_blocks m @ [b]\<rparr>)
     else (freed_count, m\<lparr>blocks := (blocks m)[b := c]\<rparr>))"

definition free_blocks_for_request ::
    "kv_config \<Rightarrow> 't tensors \<Rightarrow> string \<Rightarrow> 't kv_manager \<Rightarrow> nat \<times> 't kv_manager" where
  "free_blocks_for_request cfg T request_id m =
     (case request_blocks m request_id of
        None \<Rightarrow> (0, m)
      | Some bs \<Rightarrow>
          let (freed_count, m1) = fold (release_block cfg T) bs (0, m) in
          (freed_count, m1\<lparr>request_blocks := (request_blocks m1)(request_id := None)\<rparr>))"

definition get_block :: "int \<Rightarrow> 't kv_manager \<Rightarrow> py_error + 't kv_block" where
  "get_block i m =
     (case py_index (length (blocks m)) i of None \<Rightarrow> Inl IndexError | Some b \<Rightarrow> Inr (blocks m ! b))"

definition get_blocks_for_request :: "string \<Rightarrow> 't kv_manager \<Rightarrow> nat list" where
  "get_blocks_for_request request_id m =
     (case request_blocks m request_id of Some bs \<Rightarrow> bs | None \<Rightarrow> [])"

definition store_at ::
    "kv_config \<Rightarrow> 't tensors \<Rightarrow> nat \<Rightarrow> int \<Rightarrow> 't \<Rightarrow> 't \<Rightarrow> 't kv_manager \<Rightarrow> (py_error, bool, 't kv_manager) outcome" where
  "store_at cfg T b layer_idx k v m =
     (case block_append cfg T layer_idx k v (blocks m ! b) of
        (Inl e, c) \<Rightarrow> (Inl e, m\<lparr>blocks := (blocks m)[b := c]\<rparr>)
      | (Inr _, c) \<Rightarrow> (Inr True, m\<lparr>blocks := (blocks m)[b := c]\<rparr>))"

text \<open>The second half of \<open>append_to_cache\<close>, for the blocks the request has.\<close>

definition append_in ::
    "kv_config \<Rightarrow> 't tensors \<Rightarrow> string \<Rightarrow> nat list \<Rightarrow> int \<Rightarrow> 't \<Rightarrow> 't \<Rightarrow> 't kv_manager
      \<Rightarrow> (py_error, bool, 't kv_manager) outcome" where
  "append_in cfg T request_id bs layer_idx k v m =
     (case find (\<lambda>b. \<not> is_full cfg (blocks m ! b)) bs of
        Some b \<Rightarrow> store_at cfg T b layer_idx k v m
      | None \<Rightarrow>
          if free_blocks m = [] then (Inr False, m)
          else let (b, m1) = pop_block m;
                   m2 = m1\<lparr>request_blocks := (request_blocks m1)(request_id \<mapsto>
                          get_blocks_for_request request_id m1 @ [b])\<rparr>
               in store_at cfg T b layer_idx k v m2)"

definition append_to_cache ::
    "kv_config \<Rightarrow> 't tensors \<Rightarrow> string \<Rightarrow> int \<Rightarrow> 't \<Rightarrow> 't \<Rightarrow> 't kv_manager
      \<Rightarrow> (py_error, bool, 't kv_manager) outcome" where
  "append_to_cache cfg T request_id layer_idx k v m =
     (let bs = get_blocks_for_request request_id m in
      if bs = [] then
        if free_blocks m = [] then (Inr False, m)
        else let (b, m1) = pop_block m in
          append_in cfg T request_id [b] layer_idx k v
            (m1\<lparr>request_blocks := (request_blocks m1)(request_id \<mapsto> [b])\<rparr>)
      else append_in cfg T request_id bs layer_idx k v m)"

fun collect_kv ::
    "kv_config \<Rightarrow> 't kv_manager \<Rightarrow> int \<Rightarrow> nat list \<Rightarrow> py_error + ('t list list \<times> 't list list)" where
  "collect_kv cfg m layer_idx [] = Inr ([], [])"
| "collect_kv cfg m layer_idx (b # bs) =
     (case block_get_kv cfg layer_idx (blocks m ! b) of
        Inl e \<Rightarrow> Inl e
      | Inr (k, v) \<Rightarrow>
          (case collect_kv cfg m layer_idx bs of
             Inl e \<Rightarrow> Inl e
           | Inr (k_list, v_list) \<Rightarrow> Inr (if k \<noteq> [] then (k # k_list, v # v_list) else (k_list, v_list))))"

definition get_kv_for_request ::
    "kv_config \<Rightarrow> string \<Rightarrow> int \<Rightarrow> 't kv_manager \<Rightarrow> py_error + ('t list \<times> 't list) option" where
  "get_kv_for_request cfg request_id layer_idx m =
     (let bs = get_blocks_for_request request_id m in
      if bs = [] then Inr None
      else case collect_kv cfg m layer_idx bs of
        Inl e \<Rightarrow> Inl e
      | Inr (k_list, v_list) \<Rightarrow> Inr (if k_list = [] then None else Some (concat k_list, concat v_list)))"

definition get_total_tokens_for_request :: "string \<Rightarrow> 't kv_manager \<Rightarrow> nat" where
  "get_total_tokens_for_request request_id m =
     sum_list (map (\<lambda>b. num_tokens (blocks m ! b)) (get_blocks_for_request request_id m))"

definition can_allocate :: "int \<Rightarrow> 't kv_manager \<Rightarrow> bool" where
  "can_allocate n m \<longleftrightarrow> n \<le> int (length (free_blocks m))"

record memory_usage =
  total_blocks :: nat
  used_blocks :: int
  free_count :: nat
  utilization :: real
  memory_used_bytes :: int
  memory_used_gb :: real
  total_memory_gb :: real

definition get_memory_usage :: "kv_config \<Rightarrow> 't kv_manager \<Rightarrow> memory_usage" where
  "get_memory_usage cfg m =
     (let used = int (num_blocks m) - int (length (free_blocks m));
          block_size_bytes = int (get_block_memory_bytes cfg)
      in \<lparr>total_blocks = num_blocks m, used_blocks = used, free_count = length (free_blocks m),
          utilization = (if 0 < num_blocks m then real_of_int used / real (num_blocks m) else 0),
          memory_used_bytes = used * block_size_bytes,
          memory_used_gb = real_of_int (used * block_size_bytes) / 1000000000,
          total_memory_gb = real_of_int (int (num_blocks m) * block_size_bytes) / 1000000000\<rparr>)"

end
