(* ===== verification/KV_Paged.thy ===== *)
theory KV_Paged
  imports KV_Cache
begin

text \<open>
  The invariant of the paged key/value cache: every block is free or belongs to exactly one
  request, a free block is as new (no keys or values of an earlier request remain in it), and a
  request's blocks are filled in order. The blocks of a request, read in order, are then the
  sequence of tokens appended for it.
\<close>

section \<open>The invariant\<close>

definition block_ok :: "kv_config \<Rightarrow> nat \<Rightarrow> 't kv_block \<Rightarrow> bool" where
  "block_ok cfg b c \<longleftrightarrow>
     block_id c = b \<and> ref_count c = 1 \<and> num_tokens c \<le> block_size cfg \<and>
     length (data c) = num_layers cfg \<and> (\<forall>row\<in>set (data c). length row = block_size cfg)"

fun filled :: "kv_config \<Rightarrow> 't kv_block list \<Rightarrow> bool" where
  "filled cfg [] \<longleftrightarrow> True"
| "filled cfg (c # cs) \<longleftrightarrow>
     (if is_full cfg c then filled cfg cs else \<forall>d\<in>set cs. num_tokens d = 0)"

definition owned :: "kv_config \<Rightarrow> 't kv_manager \<Rightarrow> nat list \<Rightarrow> bool" where
  "owned cfg m bs \<longleftrightarrow>
     distinct bs \<and> set bs \<inter> set (free_blocks m) = {} \<and>
     (\<forall>b\<in>set bs. b < num_blocks m \<and> block_ok cfg b (blocks m ! b)) \<and>
     filled cfg (map (\<lambda>b. blocks m ! b) bs)"

definition kv_inv :: "kv_config \<Rightarrow> 't tensors \<Rightarrow> 't kv_manager \<Rightarrow> bool" where
  "kv_inv cfg T m \<longleftrightarrow>
     length (blocks m) = num_blocks m \<and> distinct (free_blocks m) \<and>
     (\<forall>b\<in>set (free_blocks m). b < num_blocks m \<and> blocks m ! b = new_kv_block cfg T b) \<and>
     (\<forall>r bs. request_blocks m r = Some bs \<longrightarrow> owned cfg m bs) \<and>
     (\<forall>r r' bs bs'. request_blocks m r = Some bs \<longrightarrow> request_blocks m r' = Some bs' \<longrightarrow>
        r \<noteq> r' \<longrightarrow> set bs \<inter> set bs' = {}) \<and>
     (\<forall>b<num_blocks m. b \<in> set (free_blocks m) \<or> (\<exists>r bs. request_blocks m r = Some bs \<and> b \<in> set bs))"

lemma kv_invD:
  assumes "kv_inv cfg T m"
  shows "length (blocks m) = num_blocks m" "distinct (free_blocks m)"
    and "b \<in> set (free_blocks m) \<Longrightarrow> b < num_blocks m"
    and "b \<in> set (free_blocks m) \<Longrightarrow> blocks m ! b = new_kv_block cfg T b"
    and "request_blocks m r = Some bs \<Longrightarrow> owned cfg m bs"
    and "request_blocks m r = Some bs \<Longrightarrow> request_blocks m r' = Some bs' \<Longrightarrow> r \<noteq> r' \<Longrightarrow> set bs \<inter> set bs' = {}"
    and "b < num_blocks m \<Longrightarrow> b \<notin> set (free_blocks m) \<Longrightarrow> \<exists>r bs. request_blocks m r = Some bs \<and> b \<in> set bs"
  using assms unfolding kv_inv_def by blast+

lemma kv_invI:
  assumes "length (blocks m) = num_blocks m" "distinct (free_blocks m)"
    and "\<And>b. b \<in> set (free_blocks m) \<Longrightarrow> b < num_blocks m \<and> blocks m ! b = new_kv_block cfg T b"
    and "\<And>r bs. request_blocks m r = Some bs \<Longrightarrow> owned cfg m bs"
    and "\<And>r r' bs bs'. request_blocks m r = Some bs \<Longrightarrow> request_blocks m r' = Some bs' \<Longrightarrow> r \<noteq> r' \<Longrightarrow> set bs \<inter> set bs' = {}"
    and "\<And>b. b < num_blocks m \<Longrightarrow> b \<in> set (free_blocks m) \<or> (\<exists>r bs. request_blocks m r = Some bs \<and> b \<in> set bs)"
  shows "kv_inv cfg T m"
  unfolding kv_inv_def using assms by (intro conjI allI impI ballI) blast+

lemma ownedD:
  assumes "owned cfg m bs"
  shows "distinct bs" "set bs \<inter> set (free_blocks m) = {}"
    and "b \<in> set bs \<Longrightarrow> b < num_blocks m" "b \<in> set bs \<Longrightarrow> block_ok cfg b (blocks m ! b)"
    and "filled cfg (map (\<lambda>b. blocks m ! b) bs)"
  using assms unfolding owned_def by blast+

lemma filled_all_empty: "\<forall>d\<in>set cs. num_tokens d = 0 \<Longrightarrow> filled cfg cs"
  by (induction cs) auto

lemma filled_append_empty:
  "filled cfg cs \<Longrightarrow> \<forall>d\<in>set ds. num_tokens d = 0 \<Longrightarrow> filled cfg (cs @ ds)"
  by (induction cs) (auto simp: filled_all_empty)

lemma block_ok_new [simp]: "block_ok cfg b ((new_kv_block cfg T b)\<lparr>ref_count := 1\<rparr>)"
  by (auto simp: block_ok_def new_kv_block_def zero_data_def)

lemma kv_init_inv: "kv_inv cfg T (kv_init cfg T n)"
  by (auto simp: kv_inv_def kv_init_def)

section \<open>Taking blocks from the free list\<close>

text \<open>What claiming the blocks \<open>new\<close> for a request does to the manager.\<close>

definition claim :: "string \<Rightarrow> nat list \<Rightarrow> nat list \<Rightarrow> 't kv_manager \<Rightarrow> 't kv_manager \<Rightarrow> bool" where
  "claim r rest new m m' \<longleftrightarrow>
     set (free_blocks m) = set rest \<union> set new \<and> distinct (rest @ new) \<and>
     free_blocks m' = rest \<and> num_blocks m' = num_blocks m \<and> length (blocks m') = length (blocks m) \<and>
     (\<forall>b. blocks m' ! b = (if b \<in> set new then (blocks m ! b)\<lparr>ref_count := 1\<rparr> else blocks m ! b)) \<and>
     request_blocks m' = (request_blocks m)(r \<mapsto> get_blocks_for_request r m @ new)"

lemma claim_owned:
  assumes "kv_inv cfg T m" and "claim r rest new m m'"
  shows "owned cfg m' (get_blocks_for_request r m @ new)"
proof -
  let ?old = "get_blocks_for_request r m"
  note I = kv_invD [OF assms(1)] and c = assms(2) [unfolded claim_def]
  have o: "owned cfg m ?old"
    using I(5) by (auto simp: get_blocks_for_request_def owned_def split: option.splits)
  have old: "map (\<lambda>b. blocks m' ! b) ?old = map (\<lambda>b. blocks m ! b) ?old"
    using ownedD(2) [OF o] c by auto
  have new: "\<forall>d\<in>set (map (\<lambda>b. blocks m' ! b) new). num_tokens d = 0"
    using c I(4) by (auto simp: new_kv_block_def)
  have "filled cfg (map (\<lambda>b. blocks m' ! b) (?old @ new))"
    unfolding map_append old using filled_append_empty [OF ownedD(5) [OF o] new] .
  moreover have "block_ok cfg b (blocks m' ! b)" if "b \<in> set (?old @ new)" for b
    using that c I(4) [of b] ownedD(4) [OF o, of b] ownedD(2) [OF o] by auto
  moreover have "b < num_blocks m'" if "b \<in> set (?old @ new)" for b
    using that c I(3) [of b] ownedD(3) [OF o, of b] by auto
  moreover have "distinct (?old @ new)" "set (?old @ new) \<inter> set (free_blocks m') = {}"
    using c ownedD(1,2) [OF o] by auto
  ultimately show ?thesis
    unfolding owned_def by blast
qed

lemma claim_other:
  assumes "owned cfg m bs" and "claim r rest new m m'"
  shows "map (\<lambda>b. blocks m' ! b) bs = map (\<lambda>b. blocks m ! b) bs"
  using ownedD(2) [OF assms(1)] assms(2) by (auto simp: claim_def)

lemma claim_inv:
  assumes inv: "kv_inv cfg T m" and c: "claim r rest new m m'"
  shows "kv_inv cfg T m'"
proof -
  let ?old = "get_blocks_for_request r m"
  note I = kv_invD [OF inv] and c' = c [unfolded claim_def]
  have req: "request_blocks m' q = (if q = r then Some (?old @ new) else request_blocks m q)" for q
    using c' by simp
  have old: "b \<in> set ?old \<Longrightarrow> \<exists>bs. request_blocks m r = Some bs \<and> b \<in> set bs" for b
    by (cases "request_blocks m r") (auto simp: get_blocks_for_request_def)
  have own: "owned cfg m' bs" if "request_blocks m' q = Some bs" for q bs
  proof (cases "q = r")
    case True
    then show ?thesis using claim_owned [OF inv c] that req by simp
  next
    case False
    then have o: "owned cfg m bs" using that req I(5) by simp
    have "filled cfg (map (\<lambda>b. blocks m' ! b) bs)"
      unfolding claim_other [OF o c] by (rule ownedD(5) [OF o])
    moreover have "block_ok cfg b (blocks m' ! b)" "b < num_blocks m'" if "b \<in> set bs" for b
      using that ownedD(2-4) [OF o] c' by auto
    ultimately show ?thesis
      using ownedD(1,2) [OF o] c' unfolding owned_def by blast
  qed
  have disj: "set bs \<inter> set (?old @ new) = {}" if q: "request_blocks m q = Some bs" "q \<noteq> r" for q bs
  proof -
    have "set bs \<inter> set ?old = {}"
      using I(6) [OF q(1) _ q(2)] by (cases "request_blocks m r") (auto simp: get_blocks_for_request_def)
    moreover have "set bs \<inter> set new = {}"
      using ownedD(2) [OF I(5) [OF q(1)]] c' by blast
    ultimately show ?thesis by (simp add: Int_Un_distrib)
  qed
  have cover: "b \<in> set rest \<or> (\<exists>q bs. request_blocks m' q = Some bs \<and> b \<in> set bs)" if b: "b < num_blocks m" for b
  proof (cases "b \<in> set (free_blocks m)")
    case True
    then show ?thesis using c' req [of r] by (metis UnE Un_iff set_append)
  next
    case False
    then obtain p bs where "request_blocks m p = Some bs" "b \<in> set bs" using I(7) b by blast
    then have "\<exists>bs. request_blocks m' p = Some bs \<and> b \<in> set bs"
      using req [of p] by (cases "p = r") (simp_all add: get_blocks_for_request_def)
    then show ?thesis by blast
  qed
  have same: "num_blocks m' = num_blocks m" "free_blocks m' = rest" using c' by auto
  show ?thesis
  proof (rule kv_invI)
    fix q q' bs bs' assume q: "request_blocks m' q = Some bs" "request_blocks m' q' = Some bs'" "q \<noteq> q'"
    show "set bs \<inter> set bs' = {}"
      using q req disj [of q bs] disj [of q' bs'] I(6) [of q bs q' bs']
      by (cases "q = r"; cases "q' = r") (simp_all add: Int_commute)
  next
    fix b assume "b \<in> set (free_blocks m')"
    then show "b < num_blocks m' \<and> blocks m' ! b = new_kv_block cfg T b"
      using c' I(3,4) [of b] by auto
  next
    fix b assume "b < num_blocks m'"
    then show "b \<in> set (free_blocks m') \<or> (\<exists>r bs. request_blocks m' r = Some bs \<and> b \<in> set bs)"
      using cover same by simp
  qed (use own c' I(1) in auto)
qed

lemma pop_block_claim:
  assumes "kv_inv cfg T m" and "free_blocks m \<noteq> []"
  shows "claim r (butlast (free_blocks m)) [last (free_blocks m)] m
    ((snd (pop_block m))\<lparr>request_blocks := (request_blocks m)(r \<mapsto> get_blocks_for_request r m @ [last (free_blocks m)])\<rparr>)"
proof -
  have "last (free_blocks m) < length (blocks m)"
    using kv_invD(1,3) [OF assms(1)] assms(2) by simp
  then show ?thesis
    using distinct_butlast_last [OF assms(2) kv_invD(2) [OF assms(1)]] set_butlast_last [OF assms(2)]
      kv_invD(2) [OF assms(1)]
    by (auto simp: claim_def pop_block_def Let_def nth_list_update distinct_butlast)
qed

lemma pop_blocks_result:
  "n \<le> length (free_blocks m) \<Longrightarrow> (\<forall>b\<in>set (free_blocks m). b < length (blocks m)) \<Longrightarrow>
   distinct (free_blocks m) \<Longrightarrow>
   fst (pop_blocks n m) = rev (drop (length (free_blocks m) - n) (free_blocks m)) \<and>
   free_blocks (snd (pop_blocks n m)) = take (length (free_blocks m) - n) (free_blocks m) \<and>
   num_blocks (snd (pop_blocks n m)) = num_blocks m \<and>
   length (blocks (snd (pop_blocks n m))) = length (blocks m) \<and>
   (\<forall>b. blocks (snd (pop_blocks n m)) ! b =
      (if b \<in> set (fst (pop_blocks n m)) then (blocks m ! b)\<lparr>ref_count := 1\<rparr> else blocks m ! b)) \<and>
   request_blocks (snd (pop_blocks n m)) = request_blocks m"
proof (induction n arbitrary: m)
  case (Suc n)
  obtain fr x where fr: "free_blocks m = fr @ [x]" using Suc.prems(1) by (cases "free_blocks m" rule: rev_cases) auto
  define m1 where "m1 = m\<lparr>free_blocks := fr, blocks := (blocks m)[x := (blocks m ! x)\<lparr>ref_count := 1\<rparr>]\<rparr>"
  have pop: "pop_block m = (x, m1)" by (simp add: pop_block_def fr m1_def)
  obtain bs m2 where m2: "pop_blocks n m1 = (bs, m2)" by (cases "pop_blocks n m1")
  note IH = Suc.IH [of m1, unfolded m2]
  have IH': "bs = rev (drop (length fr - n) fr) \<and> free_blocks m2 = take (length fr - n) fr \<and>
    num_blocks m2 = num_blocks m \<and> length (blocks m2) = length (blocks m) \<and>
    (\<forall>b. blocks m2 ! b = (if b \<in> set bs then (blocks m1 ! b)\<lparr>ref_count := 1\<rparr> else blocks m1 ! b)) \<and>
    request_blocks m2 = request_blocks m"
    using IH Suc.prems by (simp add: m1_def fr)
  have "drop (Suc (length fr) - Suc n) (fr @ [x]) = drop (length fr - n) fr @ [x]"
    "take (Suc (length fr) - Suc n) (fr @ [x]) = take (length fr - n) fr" by simp_all
  moreover have "blocks m1 ! b = (if b = x then (blocks m ! x)\<lparr>ref_count := 1\<rparr> else blocks m ! b)" for b
    using Suc.prems fr by (simp add: m1_def nth_list_update)
  moreover have "x \<notin> set bs" using IH' Suc.prems fr by (auto dest: in_set_dropD)
  ultimately show ?case
    using IH' by (simp add: pop m2 fr)
qed simp

lemma allocate_blocks_claim:
  assumes "kv_inv cfg T m" and "n \<le> int (length (free_blocks m))"
  shows "\<exists>rest. claim r rest (fst (kv_allocate_blocks r n m)) m (snd (kv_allocate_blocks r n m)) \<and>
    length (fst (kv_allocate_blocks r n m)) = nat n"
proof -
  let ?k = "length (free_blocks m) - nat n"
  have len: "nat n \<le> length (free_blocks m)" using assms(2) by simp
  obtain bs m1 where p: "pop_blocks (nat n) m = (bs, m1)" by (cases "pop_blocks (nat n) m")
  note P = pop_blocks_result [OF len _ kv_invD(2) [OF assms(1)], unfolded p fst_conv snd_conv]
  have "\<forall>b\<in>set (free_blocks m). b < length (blocks m)" using kv_invD(1,3) [OF assms(1)] by simp
  note P = P [OF this]
  have split: "free_blocks m = take ?k (free_blocks m) @ drop ?k (free_blocks m)" by simp
  have "set (free_blocks m) = set (take ?k (free_blocks m)) \<union> set (drop ?k (free_blocks m))"
    "distinct (take ?k (free_blocks m) @ drop ?k (free_blocks m))"
    using kv_invD(2) [OF assms(1)] by (metis set_append split, metis split)
  then have "claim r (take ?k (free_blocks m)) bs m (m1\<lparr>request_blocks := (request_blocks m)(r \<mapsto> get_blocks_for_request r m @ bs)\<rparr>)"
    unfolding claim_def using P kv_invD(2) [OF assms(1)]
    by (simp add: Un_commute set_take_disj_set_drop_if_distinct)
  moreover have "kv_allocate_blocks r n m = (bs, m1\<lparr>request_blocks := (request_blocks m)(r \<mapsto> get_blocks_for_request r m @ bs)\<rparr>)"
    using assms(2) P by (auto simp: kv_allocate_blocks_def p get_blocks_for_request_def split: option.splits)
  moreover have "length bs = nat n" using P len by simp
  ultimately show ?thesis by auto
qed

lemma allocate_blocks_inv: "kv_inv cfg T m \<Longrightarrow> kv_inv cfg T (snd (kv_allocate_blocks r n m))"
  using allocate_blocks_claim [of cfg T m n r] claim_inv
  by (cases "n \<le> int (length (free_blocks m))") (auto simp: kv_allocate_blocks_def)

section \<open>Releasing the blocks of a request\<close>

lemma release_resets:
  "block_ok cfg b c \<Longrightarrow> block_reset cfg T (c\<lparr>ref_count := x\<rparr>) = new_kv_block cfg T b"
  by (cases c) (auto simp: block_ok_def block_reset_def new_kv_block_def)

lemma release_fold:
  assumes "distinct bs" and "\<And>b. b \<in> set bs \<Longrightarrow> b < length (blocks m) \<and> block_ok cfg b (blocks m ! b)"
  shows "\<exists>bl. fold (release_block cfg T) bs (n, m) =
      (n + length bs, m\<lparr>blocks := bl, free_blocks := free_blocks m @ bs\<rparr>) \<and>
    length bl = length (blocks m) \<and>
    (\<forall>b. bl ! b = (if b \<in> set bs then new_kv_block cfg T b else blocks m ! b))"
  using assms
proof (induction bs arbitrary: n m)
  case Nil
  then show ?case by (intro exI [of _ "blocks m"]) simp
next
  case (Cons x bs)
  let ?m = "m\<lparr>blocks := (blocks m)[x := new_kv_block cfg T x], free_blocks := free_blocks m @ [x]\<rparr>"
  have x: "x < length (blocks m)" "block_ok cfg x (blocks m ! x)" "x \<notin> set bs" using Cons.prems by auto
  have step: "release_block cfg T x (n, m) = (n + 1, ?m)"
    using x(2) release_resets [OF x(2)] by (simp add: release_block_def Let_def block_ok_def)
  have "b < length (blocks ?m) \<and> block_ok cfg b (blocks ?m ! b)" if "b \<in> set bs" for b
    using Cons.prems(2) [of b] that x(3) by (cases "b = x") auto
  then obtain bl where bl: "fold (release_block cfg T) bs (n + 1, ?m) =
      (n + 1 + length bs, ?m\<lparr>blocks := bl, free_blocks := free_blocks ?m @ bs\<rparr>)"
    "length bl = length (blocks ?m)"
    "\<forall>b. bl ! b = (if b \<in> set bs then new_kv_block cfg T b else blocks ?m ! b)"
    using Cons.IH [of ?m "n + 1"] Cons.prems(1) by auto
  have "bl ! b = (if b \<in> set (x # bs) then new_kv_block cfg T b else blocks m ! b)" for b
    using bl(3) x by (auto simp: nth_list_update)
  then show ?case using bl(1,2) step by (intro exI [of _ bl]) simp
qed

lemma free_result:
  assumes "kv_inv cfg T m" and "request_blocks m r = Some bs"
  shows "\<exists>bl. free_blocks_for_request cfg T r m =
      (length bs, m\<lparr>blocks := bl, free_blocks := free_blocks m @ bs,
                    request_blocks := (request_blocks m)(r := None)\<rparr>) \<and>
    length bl = length (blocks m) \<and>
    (\<forall>b. bl ! b = (if b \<in> set bs then new_kv_block cfg T b else blocks m ! b))"
proof -
  note o = kv_invD(5) [OF assms]
  have "b < length (blocks m) \<and> block_ok cfg b (blocks m ! b)" if "b \<in> set bs" for b
    using ownedD(3,4) [OF o that] kv_invD(1) [OF assms(1)] by simp
  from release_fold [OF ownedD(1) [OF o] this, of T 0] obtain bl where
    bl: "fold (release_block cfg T) bs (0, m) = (length bs, m\<lparr>blocks := bl, free_blocks := free_blocks m @ bs\<rparr>)"
      "length bl = length (blocks m)"
      "\<forall>b. bl ! b = (if b \<in> set bs then new_kv_block cfg T b else blocks m ! b)" by auto
  show ?thesis using assms(2) bl by (auto simp: free_blocks_for_request_def)
qed

lemma owned_cong:
  assumes "owned cfg m bs" and "num_blocks m' = num_blocks m"
    and "\<And>b. b \<in> set bs \<Longrightarrow> blocks m' ! b = blocks m ! b" and "set bs \<inter> set (free_blocks m') = {}"
  shows "owned cfg m' bs"
proof -
  have "map (\<lambda>b. blocks m' ! b) bs = map (\<lambda>b. blocks m ! b) bs" using assms(3) by simp
  then have "filled cfg (map (\<lambda>b. blocks m' ! b) bs)" using ownedD(5) [OF assms(1)] by (simp only:)
  then show ?thesis
    using ownedD(1,3,4) [OF assms(1)] assms(2-4) unfolding owned_def by simp
qed

lemma free_inv:
  assumes inv: "kv_inv cfg T m"
  shows "kv_inv cfg T (snd (free_blocks_for_request cfg T r m))"
proof (cases "request_blocks m r")
  case None
  then show ?thesis using inv by (simp add: free_blocks_for_request_def)
next
  case (Some bs)
  note I = kv_invD [OF inv] and o = kv_invD(5) [OF inv Some]
  obtain bl where m': "snd (free_blocks_for_request cfg T r m) =
      m\<lparr>blocks := bl, free_blocks := free_blocks m @ bs, request_blocks := (request_blocks m)(r := None)\<rparr>"
    (is "_ = ?m") and bl: "length bl = length (blocks m)"
      "\<And>b. bl ! b = (if b \<in> set bs then new_kv_block cfg T b else blocks m ! b)"
    using free_result [OF inv Some] by auto
  have own: "owned cfg ?m cs" if q: "request_blocks m q = Some cs" "q \<noteq> r" for q cs
  proof -
    have "set cs \<inter> set bs = {}" "set cs \<inter> set (free_blocks m) = {}"
      using I(6) [OF q(1) Some q(2)] ownedD(2) [OF I(5) [OF q(1)]] by auto
    then show ?thesis
      by (intro owned_cong [OF I(5) [OF q(1)]]) (auto simp: bl)
  qed
  have cover: "b \<in> set (free_blocks m) \<or> b \<in> set bs \<or> (\<exists>q cs. q \<noteq> r \<and> request_blocks m q = Some cs \<and> b \<in> set cs)"
    if "b < num_blocks m" for b
    using I(7) [OF that] Some by (metis option.inject)
  have "kv_inv cfg T ?m"
  proof (rule kv_invI)
    fix b assume "b < num_blocks ?m"
    then show "b \<in> set (free_blocks ?m) \<or> (\<exists>q cs. request_blocks ?m q = Some cs \<and> b \<in> set cs)"
      using cover [of b] by auto
  next
    fix b assume "b \<in> set (free_blocks ?m)"
    then show "b < num_blocks ?m \<and> blocks ?m ! b = new_kv_block cfg T b"
      using I(3,4) [of b] ownedD(3) [OF o] bl(2) by auto
  next
    fix q q' cs cs'
    assume "request_blocks ?m q = Some cs" "request_blocks ?m q' = Some cs'" "q \<noteq> q'"
    then show "set cs \<inter> set cs' = {}"
      using I(6) [of q cs q' cs'] by (simp split: if_splits)
  qed (use I(1,2) bl(1) ownedD(1,2) [OF o] own in \<open>auto split: if_splits\<close>)
  then show ?thesis unfolding m' .
qed

end
