(* ===== verification/KV_Append.thy ===== *)
theory KV_Append
  imports KV_Paged
begin

text \<open>
  Appending to the paged key/value cache: which block \<open>append_to_cache\<close> writes to, that the
  invariant is kept on every branch, and what the cache then holds for every request.
\<close>

section \<open>Writing into a block\<close>

lemma write_fields [simp]:
  "num_tokens (write_k l p k c) = num_tokens c" "num_tokens (write_v l p k c) = num_tokens c"
  "block_id (write_k l p k c) = block_id c" "block_id (write_v l p k c) = block_id c"
  "ref_count (write_k l p k c) = ref_count c" "ref_count (write_v l p k c) = ref_count c"
  by (simp_all add: write_k_def write_v_def)

lemma data_write:
  assumes "l < length (data c)" and "p < length (data c ! l)"
  shows "data (write_v l p v (write_k l p k c)) = (data c)[l := (data c ! l)[p := (k, v)]]"
  using assms by (simp add: write_k_def write_v_def)

lemma block_ok_row: "block_ok cfg b c \<Longrightarrow> l < num_layers cfg \<Longrightarrow> length (data c ! l) = block_size cfg"
  by (auto simp: block_ok_def)

lemma block_append_ok:
  assumes "block_ok cfg b c"
  shows "block_ok cfg b (state_of (block_append cfg T li k v c))"
proof (cases "num_tokens c < block_size cfg \<and> py_index (num_layers cfg) li \<noteq> None")
  case True
  then obtain l where l: "py_index (num_layers cfg) li = Some l" by auto
  have "l < length (data c)" "num_tokens c < length (data c ! l)"
    using py_index_less [OF l] True block_ok_row [OF assms, of l] assms by (auto simp: block_ok_def)
  note d = data_write [OF this]
  have "\<forall>row\<in>set ((data c)[l := (data c ! l)[num_tokens c := x]]). length row = block_size cfg" for x
    using assms block_ok_row [OF assms py_index_less [OF l]] set_update_subset_insert [of "data c" l]
    unfolding block_ok_def by fastforce
  then show ?thesis
    using assms True l d by (auto simp: block_append_def Let_def block_ok_def)
qed (use assms in \<open>auto simp: block_append_def\<close>)

section \<open>The block a request writes to\<close>

definition first_space :: "kv_config \<Rightarrow> 't kv_manager \<Rightarrow> nat list \<Rightarrow> nat option" where
  "first_space cfg m bs = find (\<lambda>b. \<not> is_full cfg (blocks m ! b)) bs"

lemma first_space_Some:
  assumes "first_space cfg m bs = Some b"
  obtains pre post where "bs = pre @ b # post" "\<forall>x\<in>set pre. is_full cfg (blocks m ! x)"
    "\<not> is_full cfg (blocks m ! b)"
proof -
  obtain i where i: "i < length bs" "\<not> is_full cfg (blocks m ! (bs ! i))" "b = bs ! i"
    "\<forall>j<i. is_full cfg (blocks m ! (bs ! j))"
    using assms by (auto simp: first_space_def find_Some_iff)
  have "bs = take i bs @ b # drop (Suc i) bs" using i by (simp add: id_take_nth_drop)
  moreover have "\<forall>x\<in>set (take i bs). is_full cfg (blocks m ! x)"
    using i by (auto simp: in_set_conv_nth)
  ultimately show thesis using that i by blast
qed

lemma first_space_split:
  assumes "\<forall>x\<in>set pre. is_full cfg (blocks m ! x)"
  shows "first_space cfg m (pre @ b # post) =
    (if is_full cfg (blocks m ! b) then first_space cfg m post else Some b)"
  using assms by (induction pre) (auto simp: first_space_def)

lemma first_space_None:
  "first_space cfg m bs = None \<longleftrightarrow> (\<forall>b\<in>set bs. is_full cfg (blocks m ! b))"
  by (simp add: first_space_def find_None_iff_set)

lemma filled_split:
  assumes "\<forall>c\<in>set cs. is_full cfg c"
  shows "filled cfg (cs @ c # ds) \<longleftrightarrow> filled cfg (c # ds)"
  using assms by (induction cs) auto

lemma filled_behind: "filled cfg (c # ds) \<Longrightarrow> \<not> is_full cfg c \<Longrightarrow> filled cfg (c' # ds)"
  by (auto simp: filled_all_empty)

lemma gbr_Some [simp]: "request_blocks m r = Some bs \<Longrightarrow> get_blocks_for_request r m = bs"
  by (simp add: get_blocks_for_request_def)

lemma gbr_nonempty:
  "get_blocks_for_request r m \<noteq> [] \<Longrightarrow> request_blocks m r = Some (get_blocks_for_request r m)"
  by (cases "request_blocks m r") (auto simp: get_blocks_for_request_def)

lemma replace_block_inv:
  assumes inv: "kv_inv cfg T m" and r: "request_blocks m r = Some bs"
    and b: "first_space cfg m bs = Some b" and c: "block_ok cfg b c"
  shows "kv_inv cfg T (m\<lparr>blocks := (blocks m)[b := c]\<rparr>)"
proof -
  let ?m = "m\<lparr>blocks := (blocks m)[b := c]\<rparr>"
  note I = kv_invD [OF inv] and o = kv_invD(5) [OF inv r]
  obtain pre post where bs: "bs = pre @ b # post" "\<forall>x\<in>set pre. is_full cfg (blocks m ! x)"
    "\<not> is_full cfg (blocks m ! b)" using first_space_Some [OF b] by blast
  have bn: "b < length (blocks m)" "b \<notin> set pre" "b \<notin> set post" "b \<notin> set (free_blocks m)"
    using ownedD(1,2,3) [OF o] bs(1) I(1) by auto
  have eq: "map (\<lambda>x. blocks ?m ! x) bs = map (\<lambda>x. blocks m ! x) pre @ c # map (\<lambda>x. blocks m ! x) post"
    using bs(1) bn by (auto simp: nth_list_update)
  have "filled cfg (blocks m ! b # map (\<lambda>x. blocks m ! x) post)"
    using ownedD(5) [OF o] bs by (simp add: filled_split)
  then have "filled cfg (c # map (\<lambda>x. blocks m ! x) post)"
    using bs(3) by (rule filled_behind)
  then have f: "filled cfg (map (\<lambda>x. blocks ?m ! x) bs)"
    unfolding eq using bs(2) by (simp add: filled_split)
  have "block_ok cfg x (blocks ?m ! x)" if "x \<in> set bs" for x
    using ownedD(4) [OF o that] c bn by (cases "x = b") auto
  then have own: "owned cfg ?m bs"
    using f ownedD(1,2,3) [OF o] unfolding owned_def by simp
  have other: "owned cfg ?m cs" if q: "request_blocks m q = Some cs" "q \<noteq> r" for q cs
  proof -
    have "b \<notin> set cs" using I(6) [OF q(1) r q(2)] bs(1) by auto
    then have "blocks ?m ! x = blocks m ! x" if "x \<in> set cs" for x
      using that by (cases "x = b") auto
    then show ?thesis
      using ownedD(2) [OF I(5) [OF q(1)]] by (intro owned_cong [OF I(5) [OF q(1)]]) simp_all
  qed
  show ?thesis
  proof (rule kv_invI)
    fix x assume "x \<in> set (free_blocks ?m)"
    then show "x < num_blocks ?m \<and> blocks ?m ! x = new_kv_block cfg T x"
      using I(3,4) [of x] bn(4) by (cases "x = b") auto
  next
    fix q cs assume "request_blocks ?m q = Some cs"
    then show "owned cfg ?m cs" using own other r by (cases "q = r") auto
  next
    fix x assume "x < num_blocks ?m"
    then show "x \<in> set (free_blocks ?m) \<or> (\<exists>q cs. request_blocks ?m q = Some cs \<and> x \<in> set cs)"
      using I(7) [of x] by auto
  qed (use I(1,2) I(6) in auto)
qed

lemma store_at_full:
  "is_full cfg (blocks m ! b) \<Longrightarrow> store_at cfg T b li k v m = (Inl RuntimeError, m)"
  by (simp add: store_at_def is_full_def block_append_def)

lemma store_at_inv:
  assumes "kv_inv cfg T m" and "request_blocks m r = Some bs" and "first_space cfg m bs = Some b"
  shows "kv_inv cfg T (state_of (store_at cfg T b li k v m))"
proof -
  have "b \<in> set bs" using first_space_Some [OF assms(3)] by (metis append_Cons in_set_conv_decomp)
  then have "block_ok cfg b (state_of (block_append cfg T li k v (blocks m ! b)))"
    by (intro block_append_ok ownedD(4) [OF kv_invD(5) [OF assms(1,2)]])
  note R = replace_block_inv [OF assms this]
  show ?thesis
    using R by (cases "block_append cfg T li k v (blocks m ! b)")
      (simp add: store_at_def split: sum.split)
qed

lemma claim_space:
  assumes inv: "kv_inv cfg T m" and c: "claim r rest [b] m m'"
    and full: "\<forall>x\<in>set (get_blocks_for_request r m). is_full cfg (blocks m ! x)"
  shows "first_space cfg m' (get_blocks_for_request r m @ [b]) = (if block_size cfg = 0 then None else Some b)"
proof -
  let ?old = "get_blocks_for_request r m"
  have o: "owned cfg m ?old"
    using kv_invD(5) [OF inv gbr_nonempty] by (cases "?old = []") (simp_all add: owned_def)
  have "blocks m' ! x = blocks m ! x" if "x \<in> set ?old" for x
    using that ownedD(2) [OF o] c by (auto simp: claim_def)
  then have pre: "\<forall>x\<in>set ?old. is_full cfg (blocks m' ! x)" using full by simp
  have "blocks m' ! b = (new_kv_block cfg T b)\<lparr>ref_count := 1\<rparr>"
    using c kv_invD(4) [OF inv, of b] by (auto simp: claim_def)
  then have "is_full cfg (blocks m' ! b) \<longleftrightarrow> block_size cfg = 0"
    by (simp add: is_full_def new_kv_block_def)
  then show ?thesis
    using first_space_split [OF pre, of b "[]"] by (simp add: first_space_def)
qed

section \<open>The calls of \<open>append_to_cache\<close>\<close>

definition room :: "kv_config \<Rightarrow> string \<Rightarrow> 't kv_manager \<Rightarrow> bool" where
  "room cfg r m \<longleftrightarrow> first_space cfg m (get_blocks_for_request r m) \<noteq> None \<or> free_blocks m \<noteq> []"

text \<open>The manager with the last free block given to the request.\<close>

definition claim_last :: "string \<Rightarrow> 't kv_manager \<Rightarrow> 't kv_manager" where
  "claim_last r m = (snd (pop_block m))\<lparr>request_blocks := (request_blocks m)(r \<mapsto>
     get_blocks_for_request r m @ [last (free_blocks m)])\<rparr>"

lemma claim_last_claim:
  "kv_inv cfg T m \<Longrightarrow> free_blocks m \<noteq> [] \<Longrightarrow>
   claim r (butlast (free_blocks m)) [last (free_blocks m)] m (claim_last r m)"
  unfolding claim_last_def by (rule pop_block_claim)

lemma request_blocks_claim_last [simp]:
  "request_blocks (claim_last r m) r = Some (get_blocks_for_request r m @ [last (free_blocks m)])"
  by (simp add: claim_last_def)

lemma pop_block_simps [simp]:
  "fst (pop_block m) = last (free_blocks m)" "request_blocks (snd (pop_block m)) = request_blocks m"
  by (simp_all add: pop_block_def Let_def)

lemma append_in_eq:
  "append_in cfg T r bs li k v m =
     (case first_space cfg m bs of
        Some b \<Rightarrow> store_at cfg T b li k v m
      | None \<Rightarrow> if free_blocks m = [] then (Inr False, m)
                else store_at cfg T (last (free_blocks m)) li k v (claim_last r m))"
  by (cases "pop_block m")
    (auto simp: append_in_def first_space_def claim_last_def get_blocks_for_request_def
      pop_block_def Let_def split: option.splits)

lemma append_to_cache_eq:
  "append_to_cache cfg T r li k v m =
     (if get_blocks_for_request r m = [] then
        if free_blocks m = [] then (Inr False, m)
        else append_in cfg T r [last (free_blocks m)] li k v (claim_last r m)
      else append_in cfg T r (get_blocks_for_request r m) li k v m)"
  by (auto simp: append_to_cache_def claim_last_def pop_block_def Let_def)

lemma append_in_inv:
  assumes inv: "kv_inv cfg T m" and r: "request_blocks m r = Some bs"
  shows "kv_inv cfg T (state_of (append_in cfg T r bs li k v m))"
proof (cases "first_space cfg m bs")
  case (Some b)
  then show ?thesis using store_at_inv [OF inv r Some] by (simp add: append_in_eq)
next
  case None
  show ?thesis
  proof (cases "free_blocks m = []")
    case False
    note c = claim_last_claim [OF inv False, of r]
    have inv': "kv_inv cfg T (claim_last r m)" by (rule claim_inv [OF inv c])
    have sp: "first_space cfg (claim_last r m) (bs @ [last (free_blocks m)]) =
      (if block_size cfg = 0 then None else Some (last (free_blocks m)))"
      using claim_space [OF inv c] None r by (simp add: first_space_None)
    have "kv_inv cfg T (state_of (store_at cfg T (last (free_blocks m)) li k v (claim_last r m)))"
    proof (cases "block_size cfg = 0")
      case True
      then show ?thesis using inv' by (simp add: store_at_full is_full_def)
    next
      case False
      then show ?thesis using store_at_inv [OF inv' request_blocks_claim_last] sp r by simp
    qed
    then show ?thesis using None False by (simp add: append_in_eq)
  qed (use None inv in \<open>simp add: append_in_eq\<close>)
qed

lemma append_inv:
  assumes inv: "kv_inv cfg T m"
  shows "kv_inv cfg T (state_of (append_to_cache cfg T r li k v m))"
proof (cases "get_blocks_for_request r m = []")
  case True
  show ?thesis
  proof (cases "free_blocks m = []")
    case False
    have "kv_inv cfg T (claim_last r m)"
      by (rule claim_inv [OF inv claim_last_claim [OF inv False]])
    from append_in_inv [OF this] show ?thesis
      using True False by (simp add: append_to_cache_eq)
  qed (use inv True in \<open>simp add: append_to_cache_eq\<close>)
next
  case False
  then show ?thesis
    using append_in_inv [OF inv gbr_nonempty] by (simp add: append_to_cache_eq)
qed

section \<open>The contents of a request's blocks\<close>

definition block_kv :: "nat \<Rightarrow> 't kv_block \<Rightarrow> ('t \<times> 't) list" where
  "block_kv l c = take (num_tokens c) (data c ! l)"

definition request_kv :: "string \<Rightarrow> nat \<Rightarrow> 't kv_manager \<Rightarrow> ('t \<times> 't) list" where
  "request_kv r l m = concat (map (\<lambda>b. block_kv l (blocks m ! b)) (get_blocks_for_request r m))"

lemma collect_kv_eq:
  assumes "l < num_layers cfg"
  shows "collect_kv cfg m (int l) bs =
    Inr (filter (\<lambda>x. x \<noteq> []) (map (\<lambda>b. map fst (block_kv l (blocks m ! b))) bs),
         filter (\<lambda>x. x \<noteq> []) (map (\<lambda>b. map snd (block_kv l (blocks m ! b))) bs))"
  using assms by (induction bs) (auto simp: block_get_kv_def block_kv_def)

lemma concat_nonempty: "concat (filter (\<lambda>x. x \<noteq> []) xss) = concat xss"
  by (induction xss) auto

lemma get_kv_for_request_eq:
  assumes "l < num_layers cfg"
  shows "get_kv_for_request cfg r (int l) m =
    Inr (if request_kv r l m = [] then None
         else Some (map fst (request_kv r l m), map snd (request_kv r l m)))"
proof -
  let ?bs = "get_blocks_for_request r m"
  have "filter (\<lambda>x. x \<noteq> []) (map (\<lambda>b. map fst (block_kv l (blocks m ! b))) ?bs) = [] \<longleftrightarrow> request_kv r l m = []"
    by (auto simp: request_kv_def filter_empty_conv)
  then show ?thesis
    using assms
    by (auto simp: get_kv_for_request_def collect_kv_eq concat_nonempty Let_def request_kv_def map_concat comp_def)
qed

lemma request_kv_claim:
  assumes "kv_inv cfg T m" and "claim r rest new m m'"
  shows "request_kv q l m' = request_kv q l m"
proof -
  note I = kv_invD [OF assms(1)]
  have same: "block_kv l (blocks m' ! b) = block_kv l (blocks m ! b)" for b
    using assms(2) by (simp add: claim_def block_kv_def)
  have new: "block_kv l (blocks m ! b) = []" if "b \<in> set new" for b
    using that assms(2) I(4) [of b] by (auto simp: claim_def block_kv_def new_kv_block_def)
  have "get_blocks_for_request q m' = get_blocks_for_request q m @ (if q = r then new else [])"
    using assms(2) by (simp add: claim_def get_blocks_for_request_def)
  then show ?thesis using new by (simp add: request_kv_def same)
qed

section \<open>A token at every layer\<close>

text \<open>
  A model writes the keys and values of one token layer by layer, from layer \<open>l\<close> on, and stops
  when the cache is out of memory.
\<close>

fun append_layers ::
    "kv_config \<Rightarrow> 't tensors \<Rightarrow> string \<Rightarrow> nat \<Rightarrow> ('t \<times> 't) list \<Rightarrow> 't kv_manager
      \<Rightarrow> (py_error, bool, 't kv_manager) outcome" where
  "append_layers cfg T r l [] m = (Inr True, m)"
| "append_layers cfg T r l ((k, v) # kvs) m =
     and_then (append_to_cache cfg T r (int l) k v m)
       (\<lambda>ok m1. if ok then append_layers cfg T r (l + 1) kvs m1 else (Inr False, m1))"

definition target :: "kv_config \<Rightarrow> string \<Rightarrow> nat \<Rightarrow> 't kv_manager \<Rightarrow> bool" where
  "target cfg r b m \<longleftrightarrow>
     get_blocks_for_request r m \<noteq> [] \<and> first_space cfg m (get_blocks_for_request r m) = Some b"

lemma append_target: "target cfg r b m \<Longrightarrow> append_to_cache cfg T r li k v m = store_at cfg T b li k v m"
  by (simp add: target_def append_to_cache_eq append_in_eq)

lemma append_no_room:
  assumes "\<not> room cfg r m"
  shows "append_to_cache cfg T r li k v m = (Inr False, m)"
  using assms by (simp add: room_def append_to_cache_eq append_in_eq)

lemma claim_last_target:
  assumes "kv_inv cfg T m" and "0 < block_size cfg" and "free_blocks m \<noteq> []"
    and "first_space cfg m (get_blocks_for_request r m) = None"
  shows "target cfg r (last (free_blocks m)) (claim_last r m)"
  using claim_space [OF assms(1) claim_last_claim [OF assms(1,3)]] assms(2,4)
  by (simp add: target_def first_space_None)

lemma append_prepare:
  assumes inv: "kv_inv cfg T m" and bs: "0 < block_size cfg" and room: "room cfg r m"
  obtains m0 b where "\<And>li k v. append_to_cache cfg T r li k v m = append_to_cache cfg T r li k v m0"
    "target cfg r b m0" "kv_inv cfg T m0" "\<And>q l. request_kv q l m0 = request_kv q l m"
proof (cases "first_space cfg m (get_blocks_for_request r m)")
  case (Some b)
  have "target cfg r b m" using Some by (auto simp: target_def first_space_def)
  then show thesis using that [of m b] inv by blast
next
  case None
  then have fr: "free_blocks m \<noteq> []" using room by (simp add: room_def)
  note c = claim_last_claim [OF inv fr, of r]
  note t = claim_last_target [OF inv bs fr None]
  have "append_to_cache cfg T r li k v m = store_at cfg T (last (free_blocks m)) li k v (claim_last r m)" for li k v
    using t None fr
    by (cases "get_blocks_for_request r m = []") (simp_all add: append_to_cache_eq append_in_eq target_def)
  then show thesis
    using that [OF _ t claim_inv [OF inv c] request_kv_claim [OF inv c]] append_target [OF t] by simp
qed

text \<open>What storing at one layer of the target block changes.\<close>

lemma store_at_layer:
  assumes inv: "kv_inv cfg T m" and t: "target cfg r b m" and l: "l < num_layers cfg"
  defines "c \<equiv> blocks m ! b"
  shows "\<exists>c'. store_at cfg T b (int l) k v m = (Inr True, m\<lparr>blocks := (blocks m)[b := c']\<rparr>) \<and>
    b < length (blocks m) \<and> num_tokens c < block_size cfg \<and>
    data c' = (data c)[l := (data c ! l)[num_tokens c := (cast T k, cast T v)]] \<and>
    num_tokens c' = (if Suc l = num_layers cfg then num_tokens c + 1 else num_tokens c)"
proof -
  let ?bs = "get_blocks_for_request r m"
  have o: "owned cfg m ?bs" using t kv_invD(5) [OF inv gbr_nonempty] by (simp add: target_def)
  obtain pre post where "?bs = pre @ b # post" "\<not> is_full cfg (blocks m ! b)"
    using first_space_Some t unfolding target_def by metis
  then have b: "block_ok cfg b c" "b < length (blocks m)" "num_tokens c < block_size cfg"
    using ownedD(3,4) [OF o, of b] kv_invD(1) [OF inv] by (auto simp: c_def is_full_def)
  have "l < length (data c)" "num_tokens c < length (data c ! l)"
    using b l block_ok_row [OF b(1) l] by (auto simp: block_ok_def)
  note d = data_write [OF this]
  have last: "int l = int (num_layers cfg) - 1 \<longleftrightarrow> Suc l = num_layers cfg" using l by auto
  let ?w = "write_v l (num_tokens c) (cast T v) (write_k l (num_tokens c) (cast T k) c)"
  let ?c' = "if Suc l = num_layers cfg then ?w\<lparr>num_tokens := num_tokens c + 1\<rparr> else ?w"
  have "block_append cfg T (int l) k v c = (Inr (num_tokens c), ?c')"
    using b l by (simp add: block_append_def last Let_def)
  then show ?thesis
    using b d by (intro exI [of _ ?c']) (simp add: store_at_def c_def [symmetric])
qed

lemma target_keep:
  assumes "target cfg r b m" and "b < length (blocks m)" and "num_tokens c = num_tokens (blocks m ! b)"
  shows "target cfg r b (m\<lparr>blocks := (blocks m)[b := c]\<rparr>)"
proof -
  have "is_full cfg ((blocks m)[b := c] ! x) = is_full cfg (blocks m ! x)" for x
    using assms(2,3) by (cases "x = b") (auto simp: is_full_def)
  then show ?thesis using assms(1) by (simp add: target_def first_space_def get_blocks_for_request_def)
qed

lemma append_layers_target:
  assumes "kv_inv cfg T m" and "target cfg r b m" and "l + length kvs = num_layers cfg" and "kvs \<noteq> []"
  shows "\<exists>c'. append_layers cfg T r l kvs m = (Inr True, m\<lparr>blocks := (blocks m)[b := c']\<rparr>) \<and>
    num_tokens c' = Suc (num_tokens (blocks m ! b)) \<and>
    (\<forall>i<num_layers cfg. data c' ! i =
      (if l \<le> i then (data (blocks m ! b) ! i)[num_tokens (blocks m ! b) := map_prod (cast T) (cast T) (kvs ! (i - l))]
       else data (blocks m ! b) ! i))"
  using assms
proof (induction kvs arbitrary: l m)
  case (Cons kv kvs)
  obtain k v where kv: "kv = (k, v)" by (cases kv)
  let ?c = "blocks m ! b"
  have l: "l < num_layers cfg" using Cons.prems(3) by simp
  obtain c1 where c1: "store_at cfg T b (int l) k v m = (Inr True, m\<lparr>blocks := (blocks m)[b := c1]\<rparr>)"
    and b: "b < length (blocks m)"
    and d: "data c1 = (data ?c)[l := (data ?c ! l)[num_tokens ?c := (cast T k, cast T v)]]"
    and n: "num_tokens c1 = (if Suc l = num_layers cfg then num_tokens ?c + 1 else num_tokens ?c)"
    using store_at_layer [OF Cons.prems(1,2) l, of k v] by auto
  have len: "length (data ?c) = num_layers cfg"
    using kv_invD(5) [OF Cons.prems(1) gbr_nonempty] Cons.prems(2) first_space_Some
    unfolding target_def by (metis block_ok_def in_set_conv_decomp ownedD(4))
  note app = append_target [OF Cons.prems(2), of T "int l" k v]
  show ?case
  proof (cases "kvs = []")
    case True
    then have L: "num_layers cfg = Suc l" using Cons.prems(3) by simp
    then have "i < num_layers cfg \<Longrightarrow> l \<le> i \<longleftrightarrow> i = l" for i by auto
    then show ?thesis
      using True L c1 d n len app by (intro exI [of _ c1]) (simp add: kv nth_list_update)
  next
    case False
    let ?m = "m\<lparr>blocks := (blocks m)[b := c1]\<rparr>"
    have "Suc l \<noteq> num_layers cfg" using False Cons.prems(3) by (cases kvs) auto
    then have n1: "num_tokens c1 = num_tokens ?c" using n by simp
    have "kv_inv cfg T ?m" using append_inv [OF Cons.prems(1), of r "int l" k v] app c1 by simp
    moreover have "target cfg r b ?m" using target_keep [OF Cons.prems(2) b n1] .
    ultimately obtain c' where "append_layers cfg T r (Suc l) kvs ?m = (Inr True, ?m\<lparr>blocks := (blocks ?m)[b := c']\<rparr>)"
      "num_tokens c' = Suc (num_tokens c1)"
      "\<forall>i<num_layers cfg. data c' ! i =
        (if Suc l \<le> i then (data c1 ! i)[num_tokens c1 := map_prod (cast T) (cast T) (kvs ! (i - Suc l))]
         else data c1 ! i)"
      using Cons.IH [of ?m "Suc l"] Cons.prems(3) False b by auto
    then show ?thesis
      using c1 app d n1 len
      by (intro exI [of _ c']) (auto simp: kv nth_list_update nth_Cons' not_less_eq_eq)
  qed
qed simp

text \<open>
  The cache holds, for the request, one more token at every layer, and the same as before for
  every other request.
\<close>

lemma append_layers_kv:
  assumes inv: "kv_inv cfg T m" and t: "target cfg r b m" and n: "length kvs = num_layers cfg" "kvs \<noteq> []"
    and m': "append_layers cfg T r 0 kvs m = (res, m')"
  shows "res = Inr True \<and> (\<forall>q l. l < num_layers cfg \<longrightarrow> request_kv q l m' = request_kv q l m @
    (if q = r then [map_prod (cast T) (cast T) (kvs ! l)] else []))"
proof -
  let ?bs = "get_blocks_for_request r m" and ?c = "blocks m ! b"
  obtain c' where res: "res = Inr True" and m2: "m' = m\<lparr>blocks := (blocks m)[b := c']\<rparr>"
    and c': "num_tokens c' = Suc (num_tokens ?c)"
      "\<And>i. i < num_layers cfg \<Longrightarrow> data c' ! i =
        (data ?c ! i)[num_tokens ?c := map_prod (cast T) (cast T) (kvs ! i)]"
    using append_layers_target [OF inv t, of 0 kvs] n m' by auto
  have r: "request_blocks m r = Some ?bs" using t unfolding target_def by (blast intro: gbr_nonempty)
  note o = kv_invD(5) [OF inv r]
  obtain pre post where bs: "?bs = pre @ b # post" "\<forall>x\<in>set pre. is_full cfg (blocks m ! x)" "\<not> is_full cfg ?c"
    using first_space_Some t unfolding target_def by metis
  have b: "b < length (blocks m)" "b \<notin> set pre" "b \<notin> set post"
    using ownedD(1,3) [OF o] bs(1) kv_invD(1) [OF inv] by auto
  have bok: "block_ok cfg b ?c" using ownedD(4) [OF o, of b] bs(1) by simp
  have "filled cfg (map (\<lambda>x. blocks m ! x) pre @ ?c # map (\<lambda>x. blocks m ! x) post)"
    using ownedD(5) [OF o] bs(1) by simp
  then have post: "num_tokens (blocks m ! x) = 0" if "x \<in> set post" for x
    using bs(2,3) that by (simp add: filled_split)
  have bk: "block_kv l c' = block_kv l ?c @ [map_prod (cast T) (cast T) (kvs ! l)]" if "l < num_layers cfg" for l
    using bs(3) c' [simplified] that block_ok_row [OF bok that]
    by (simp add: block_kv_def is_full_def take_Suc_conv_app_nth)
  have same: "block_kv l ((blocks m)[b := c'] ! x) = (if x = b then block_kv l c' else block_kv l (blocks m ! x))" for l x
    using b by simp
  have "request_kv q l m' = request_kv q l m @ (if q = r then [map_prod (cast T) (cast T) (kvs ! l)] else [])"
    if l: "l < num_layers cfg" for q l
  proof (cases "q = r")
    case True
    have "get_blocks_for_request r m' = pre @ b # post" using bs(1) by (simp add: m2 get_blocks_for_request_def)
    moreover have "concat (map (\<lambda>x. block_kv l (blocks m ! x)) post) = []"
      using post by (simp add: block_kv_def)
    moreover have "map (\<lambda>x. block_kv l ((blocks m)[b := c'] ! x)) pre = map (\<lambda>x. block_kv l (blocks m ! x)) pre"
      "map (\<lambda>x. block_kv l ((blocks m)[b := c'] ! x)) post = map (\<lambda>x. block_kv l (blocks m ! x)) post"
      using b same by auto
    ultimately show ?thesis
      using bk [OF l] True bs(1) same [of l b] by (simp add: request_kv_def m2 del: map_eq_conv concat_eq_Nil_conv)
  next
    case False
    have "b \<notin> set (get_blocks_for_request q m)"
    proof (cases "request_blocks m q")
      case None
      then show ?thesis by (simp add: get_blocks_for_request_def)
    next
      case (Some cs)
      then show ?thesis using kv_invD(6) [OF inv Some r False] bs(1) by auto
    qed
    then have "map (\<lambda>x. block_kv l ((blocks m)[b := c'] ! x)) (get_blocks_for_request q m) =
      map (\<lambda>x. block_kv l (blocks m ! x)) (get_blocks_for_request q m)" using same by auto
    moreover have "get_blocks_for_request q m' = get_blocks_for_request q m"
      by (simp add: m2 get_blocks_for_request_def)
    ultimately show ?thesis using False by (simp add: request_kv_def m2 del: map_eq_conv)
  qed
  then show ?thesis using res by blast
qed

end
