(* ===== verification/KV_Refine.thy ===== *)
theory KV_Refine
  imports KV_Append
begin

text \<open>
  The paged key/value cache as its clients see it. Any sequence of calls keeps the blocks of
  different requests apart; and calls that write whole tokens make the cache a map from requests
  to their sequences of tokens, whatever the block size and however the blocks of different
  requests are interleaved.
\<close>

section \<open>Any sequence of calls\<close>

datatype 't kv_op =
    AllocateBlocks string int
  | AppendToCache string int 't 't
  | FreeBlocks string

fun kv_call :: "kv_config \<Rightarrow> 't tensors \<Rightarrow> 't kv_op \<Rightarrow> 't kv_manager \<Rightarrow> 't kv_manager" where
  "kv_call cfg T (AllocateBlocks r n) m = snd (kv_allocate_blocks r n m)"
| "kv_call cfg T (AppendToCache r li k v) m = state_of (append_to_cache cfg T r li k v m)"
| "kv_call cfg T (FreeBlocks r) m = snd (free_blocks_for_request cfg T r m)"

lemma kv_call_inv: "kv_inv cfg T m \<Longrightarrow> kv_inv cfg T (kv_call cfg T c m)"
  by (cases c) (simp_all add: allocate_blocks_inv append_inv free_inv)

lemma kv_calls_inv: "kv_inv cfg T m \<Longrightarrow> kv_inv cfg T (fold (kv_call cfg T) cs m)"
  by (induction cs arbitrary: m) (simp_all add: kv_call_inv)

text \<open>
  C12: whatever calls are made, in whatever order and with whatever arguments (layers that do not
  exist and numbers of blocks below one included), a block is never held by two requests, never
  held twice by one, and never at once held and free; no block is lost; and a free block is as new:
  the keys and values of the request that held it before are gone.
\<close>

theorem kv_blocks_isolated:
  assumes "m = fold (kv_call cfg T) calls (kv_init cfg T n)"
  shows "(\<forall>r r'. r \<noteq> r' \<longrightarrow> set (get_blocks_for_request r m) \<inter> set (get_blocks_for_request r' m) = {}) \<and>
    (\<forall>r. distinct (get_blocks_for_request r m) \<and> set (get_blocks_for_request r m) \<inter> set (free_blocks m) = {}) \<and>
    set (free_blocks m) \<union> (\<Union>r. set (get_blocks_for_request r m)) = {..<length (blocks m)} \<and>
    (\<forall>b\<in>set (free_blocks m). blocks m ! b = new_kv_block cfg T b)"
proof -
  have inv: "kv_inv cfg T m" using assms kv_calls_inv kv_init_inv by blast
  note I = kv_invD [OF inv]
  have o: "owned cfg m (get_blocks_for_request r m)" for r
    using I(5) [OF gbr_nonempty] by (cases "get_blocks_for_request r m = []") (simp_all add: owned_def)
  have disj: "set (get_blocks_for_request r m) \<inter> set (get_blocks_for_request r' m) = {}" if "r \<noteq> r'" for r r'
    using I(6) [OF gbr_nonempty gbr_nonempty that]
    by (cases "get_blocks_for_request r m = []"; cases "get_blocks_for_request r' m = []") simp_all
  have all: "set (free_blocks m) \<union> (\<Union>r. set (get_blocks_for_request r m)) = {..<length (blocks m)}"
  proof (intro equalityI subsetI)
    fix b assume "b \<in> set (free_blocks m) \<union> (\<Union>r. set (get_blocks_for_request r m))"
    then show "b \<in> {..<length (blocks m)}" using I(1) I(3) [of b] ownedD(3) [OF o, of b] by auto
  next
    fix b assume b: "b \<in> {..<length (blocks m)}"
    show "b \<in> set (free_blocks m) \<union> (\<Union>r. set (get_blocks_for_request r m))"
    proof (cases "b \<in> set (free_blocks m)")
      case False
      then obtain r bs where "request_blocks m r = Some bs" "b \<in> set bs"
        using I(7) [of b] b I(1) by (metis lessThan_iff)
      then have "b \<in> set (get_blocks_for_request r m)" by simp
      then show ?thesis by blast
    qed simp
  qed
  show ?thesis
    using disj all ownedD(1,2) [OF o] I(4) by (intro conjI allI impI ballI) simp_all
qed

definition ex_config :: kv_config where
  "ex_config = \<lparr>num_layers = 2, num_heads = 1, head_dim = 1, max_seq_len = 8, block_size = 2,
     dtype = ''float16'', device = ''cpu''\<rparr>"

definition ex_tensors :: "int tensors" where
  "ex_tensors = \<lparr>zero_slice = 0, cast = (\<lambda>x. x mod 100)\<rparr>"

theorem kv_blocks_isolated_witness:
  "(let m = fold (kv_call ex_config ex_tensors)
        [AllocateBlocks ''a'' 1, AppendToCache ''b'' 5 1 1, FreeBlocks ''a''] (kv_init ex_config ex_tensors 2)
    in set (free_blocks m) \<union> (\<Union>r. set (get_blocks_for_request r m)) = {..<length (blocks m)})"
  using kv_blocks_isolated [OF refl, of ex_config ex_tensors
      "[AllocateBlocks ''a'' 1, AppendToCache ''b'' 5 1 1, FreeBlocks ''a'']" 2] unfolding Let_def by blast

section \<open>Whole tokens\<close>

lemma request_kv_free:
  assumes inv: "kv_inv cfg T m"
  shows "request_kv q l (snd (free_blocks_for_request cfg T r m)) = (if q = r then [] else request_kv q l m)"
proof (cases "request_blocks m r")
  case None
  then show ?thesis by (simp add: free_blocks_for_request_def request_kv_def get_blocks_for_request_def)
next
  case (Some bs)
  obtain bl where m': "snd (free_blocks_for_request cfg T r m) =
      m\<lparr>blocks := bl, free_blocks := free_blocks m @ bs, request_blocks := (request_blocks m)(r := None)\<rparr>"
    and bl: "\<And>b. bl ! b = (if b \<in> set bs then new_kv_block cfg T b else blocks m ! b)"
    using free_result [OF inv Some] by auto
  show ?thesis
  proof (cases "q = r")
    case False
    have "set (get_blocks_for_request q m) \<inter> set bs = {}"
    proof (cases "request_blocks m q")
      case (Some cs)
      then show ?thesis using kv_invD(6) [OF inv Some \<open>request_blocks m r = Some bs\<close> False] by simp
    qed (simp add: get_blocks_for_request_def)
    then have "map (\<lambda>b. block_kv l (bl ! b)) (get_blocks_for_request q m) =
      map (\<lambda>b. block_kv l (blocks m ! b)) (get_blocks_for_request q m)" by (auto simp: bl)
    moreover have "get_blocks_for_request q (snd (free_blocks_for_request cfg T r m)) = get_blocks_for_request q m"
      using False by (simp add: m' get_blocks_for_request_def)
    ultimately show ?thesis using False by (simp add: request_kv_def m' del: map_eq_conv)
  qed (simp add: request_kv_def m' get_blocks_for_request_def)
qed

lemma append_layers_inv: "kv_inv cfg T m \<Longrightarrow> kv_inv cfg T (state_of (append_layers cfg T r l kvs m))"
proof (induction kvs arbitrary: l m)
  case (Cons kv kvs)
  obtain k v where kv: "kv = (k, v)" by (cases kv)
  have "kv_inv cfg T (state_of (append_to_cache cfg T r (int l) k v m))"
    by (rule append_inv [OF Cons.prems])
  then show ?case
    unfolding kv append_layers.simps
    by (rule and_then_state_inv) (simp add: Cons.IH)
qed simp

lemma append_layers_no_room:
  assumes "\<not> room cfg r m" and "kvs \<noteq> []"
  shows "append_layers cfg T r l kvs m = (Inr False, m)"
  using append_no_room [OF assms(1)] assms(2) by (cases kvs) auto

lemma append_layers_result:
  assumes inv: "kv_inv cfg T m" and n: "length kvs = num_layers cfg" "kvs \<noteq> []" "0 < block_size cfg"
    and m': "append_layers cfg T r 0 kvs m = (res, m')"
  shows "res = Inr (room cfg r m) \<and> (\<forall>q l. l < num_layers cfg \<longrightarrow> request_kv q l m' = request_kv q l m @
    (if q = r \<and> room cfg r m then [map_prod (cast T) (cast T) (kvs ! l)] else []))"
proof (cases "room cfg r m")
  case True
  then obtain m0 b where m0: "\<And>li k v. append_to_cache cfg T r li k v m = append_to_cache cfg T r li k v m0"
    "target cfg r b m0" "kv_inv cfg T m0" "\<And>q l. request_kv q l m0 = request_kv q l m"
    using append_prepare [OF inv n(3)] by blast
  have "append_layers cfg T r 0 kvs m0 = (res, m')"
    using m' n(2) m0(1) by (cases kvs) auto
  from append_layers_kv [OF m0(3,2) n(1,2) this] show ?thesis using True m0(4) by auto
next
  case False
  then show ?thesis using append_layers_no_room [OF False n(2)] m' by auto
qed

datatype 't token_op =
    Reserve string int
  | AppendToken string "('t \<times> 't) list"
  | Release string

text \<open>
  One call on the cache, and what it does to the map from requests to sequences of tokens (a token
  being its keys and values at every layer).
\<close>

fun token_call ::
    "kv_config \<Rightarrow> 't tensors \<Rightarrow> 't token_op \<Rightarrow> 't kv_manager \<times> (string \<Rightarrow> ('t \<times> 't) list list)
      \<Rightarrow> 't kv_manager \<times> (string \<Rightarrow> ('t \<times> 't) list list)" where
  "token_call cfg T (Reserve r n) (m, seqs) = (snd (kv_allocate_blocks r n m), seqs)"
| "token_call cfg T (AppendToken r kvs) (m, seqs) =
     (case append_layers cfg T r 0 kvs m of
        (Inr True, m1) \<Rightarrow> (m1, seqs(r := seqs r @ [map (map_prod (cast T) (cast T)) kvs]))
      | (_, m1) \<Rightarrow> (m1, seqs))"
| "token_call cfg T (Release r) (m, seqs) = (snd (free_blocks_for_request cfg T r m), seqs(r := []))"

fun whole_token :: "kv_config \<Rightarrow> 't token_op \<Rightarrow> bool" where
  "whole_token cfg (AppendToken r kvs) \<longleftrightarrow> length kvs = num_layers cfg"
| "whole_token cfg _ \<longleftrightarrow> True"

definition holds :: "kv_config \<Rightarrow> 't tensors \<Rightarrow> 't kv_manager \<times> (string \<Rightarrow> ('t \<times> 't) list list) \<Rightarrow> bool" where
  "holds cfg T = (\<lambda>(m, seqs). kv_inv cfg T m \<and>
     (\<forall>r. \<forall>l<num_layers cfg. request_kv r l m = map (\<lambda>tok. tok ! l) (seqs r)))"

lemma token_call_holds:
  assumes "holds cfg T (m, seqs)" and "whole_token cfg c" and pos: "0 < num_layers cfg" "0 < block_size cfg"
  shows "holds cfg T (token_call cfg T c (m, seqs))"
proof (cases c)
  case (Reserve r n)
  have inv: "kv_inv cfg T m" using assms(1) by (simp add: holds_def)
  have "request_kv q l (snd (kv_allocate_blocks r n m)) = request_kv q l m" for q l
    using allocate_blocks_claim [OF inv] request_kv_claim [OF inv]
    by (cases "n \<le> int (length (free_blocks m))") (force, simp add: kv_allocate_blocks_def)
  then show ?thesis using Reserve assms(1) allocate_blocks_inv [OF inv] by (simp add: holds_def)
next
  case (AppendToken r kvs)
  have inv: "kv_inv cfg T m" using assms(1) by (simp add: holds_def)
  have kvs: "length kvs = num_layers cfg" "kvs \<noteq> []" using assms(2) AppendToken pos(1) by auto
  obtain res m' where m': "append_layers cfg T r 0 kvs m = (res, m')" by force
  note R = append_layers_result [OF inv kvs pos(2) m']
  have "kv_inv cfg T m'" using append_layers_inv [OF inv, of r 0 kvs] m' by simp
  then show ?thesis
    using R assms(1) kvs(1) AppendToken m' by (cases "room cfg r m") (auto simp: holds_def)
next
  case (Release r)
  have inv: "kv_inv cfg T m" using assms(1) by (simp add: holds_def)
  then show ?thesis using Release assms(1) free_inv [OF inv] by (auto simp: holds_def request_kv_free)
qed

lemma token_calls_holds:
  assumes "holds cfg T s" and "list_all (whole_token cfg) cs" and pos: "0 < num_layers cfg" "0 < block_size cfg"
  shows "holds cfg T (fold (token_call cfg T) cs s)"
  using assms
proof (induction cs arbitrary: s)
  case (Cons c cs)
  obtain m seqs where "s = (m, seqs)" by (cases s)
  then have "holds cfg T (token_call cfg T c s)"
    using token_call_holds [of cfg T m seqs c] Cons.prems by simp
  from Cons.IH [OF this] show ?case using Cons.prems by simp
qed simp

text \<open>
  C2: the paged cache implements a map from requests to token sequences. After any sequence of
  reservations, releases and appended tokens, reading the cache of a request at a layer gives
  exactly the keys and values, at that layer, of the tokens successfully appended since its last
  release, in order; a request without tokens gives \<open>(None, None)\<close>.
\<close>

theorem kv_cache_refines_sequences:
  assumes "0 < num_layers cfg" and "0 < block_size cfg" and "list_all (whole_token cfg) calls"
    and "(m, seqs) = fold (token_call cfg T) calls (kv_init cfg T n, \<lambda>_. [])" and "l < num_layers cfg"
  shows "get_kv_for_request cfg r (int l) m =
    Inr (if seqs r = [] then None
         else Some (map (\<lambda>tok. fst (tok ! l)) (seqs r), map (\<lambda>tok. snd (tok ! l)) (seqs r)))"
proof -
  have "holds cfg T (kv_init cfg T n, \<lambda>_. [])"
    using kv_init_inv [of cfg T n] by (simp add: holds_def request_kv_def get_blocks_for_request_def kv_init_def)
  from token_calls_holds [OF this assms(3,1,2)] have "holds cfg T (m, seqs)" using assms(4) by simp
  then have "request_kv r l m = map (\<lambda>tok. tok ! l) (seqs r)" using assms(5) by (simp add: holds_def)
  then show ?thesis using get_kv_for_request_eq [OF assms(5), of r m] by (auto simp: comp_def)
qed

theorem kv_cache_refines_sequences_witness:
  "let calls = [Reserve ''a'' 2, AppendToken ''a'' [(1, 2), (3, 4)], AppendToken ''b'' [(5, 6), (7, 8)],
                AppendToken ''a'' [(9, 10), (111, 12)], AppendToken ''a'' [(13, 14), (15, 16)]];
       m = fst (fold (token_call ex_config ex_tensors) calls (kv_init ex_config ex_tensors 3, \<lambda>_. []))
   in get_kv_for_request ex_config ''a'' (int 1) m = Inr (Some ([3, 11, 15], [4, 12, 16]))"
proof -
  let ?calls = "[Reserve ''a'' 2, AppendToken ''a'' [(1, 2), (3, 4)], AppendToken ''b'' [(5, 6), (7, 8)],
                AppendToken ''a'' [(9, 10), (111, 12)], AppendToken ''a'' [(13, 14), (15, 16 :: int)]]"
  let ?s = "fold (token_call ex_config ex_tensors) ?calls (kv_init ex_config ex_tensors 3, \<lambda>_. [])"
  have s: "snd ?s ''a'' = [[(1, 2), (3, 4)], [(9, 10), (11, 12)], [(13, 14), (15, 16)]]" by code_simp
  have h: "0 < num_layers ex_config" "0 < block_size ex_config" "list_all (whole_token ex_config) ?calls"
    "1 < num_layers ex_config" by (simp_all add: ex_config_def)
  have "get_kv_for_request ex_config ''a'' (int 1) (fst ?s) = Inr (Some ([3, 11, 15], [4, 12, 16]))"
    using kv_cache_refines_sequences [OF h(1-3) prod.collapse h(4), where T = ex_tensors and n = 3 and r = "''a''"]
    unfolding s by simp
  then show ?thesis unfolding Let_def .
qed

end
