(* ===== verification/KV_Window.thy ===== *)
theory KV_Window
  imports KV_Cache
begin

text \<open>
  The sliding window of the key/value cache (\<open>SlidingWindowCache\<close> of \<open>kv_cache.py\<close>): a circular buffer
  per layer. It is shown to hold exactly the last tokens, in order, across any number of
  wrap-arounds, and writing a token layer by layer is shown to be writing it at once.
\<close>

section \<open>The operations\<close>

record 't window_cache =
  window_size :: nat
  k_cache :: "'t list list"
  v_cache :: "'t list list"
  position :: nat
  cached_length :: nat

definition window_init :: "kv_config \<Rightarrow> 't tensors \<Rightarrow> nat \<Rightarrow> 't window_cache" where
  "window_init cfg T w =
     \<lparr>window_size = w,
      k_cache = replicate (num_layers cfg) (replicate w (zero_slice T)),
      v_cache = replicate (num_layers cfg) (replicate w (zero_slice T)),
      position = 0, cached_length = 0\<rparr>"

definition put_k :: "nat \<Rightarrow> nat \<Rightarrow> 't \<Rightarrow> 't window_cache \<Rightarrow> 't window_cache" where
  "put_k l pos k c = c\<lparr>k_cache := (k_cache c)[l := (k_cache c ! l)[pos := k]]\<rparr>"

definition put_v :: "nat \<Rightarrow> nat \<Rightarrow> 't \<Rightarrow> 't window_cache \<Rightarrow> 't window_cache" where
  "put_v l pos v c = c\<lparr>v_cache := (v_cache c)[l := (v_cache c ! l)[pos := v]]\<rparr>"

text \<open>\<open>self.position += 1\<close> and \<open>self.length = min(self.length + 1, self.window_size)\<close>.\<close>

definition advance :: "'t window_cache \<Rightarrow> 't window_cache" where
  "advance c = c\<lparr>position := position c + 1, cached_length := min (cached_length c + 1) (window_size c)\<rparr>"

definition window_append ::
    "kv_config \<Rightarrow> 't tensors \<Rightarrow> int \<Rightarrow> 't \<Rightarrow> 't \<Rightarrow> 't window_cache \<Rightarrow> (py_error, unit, 't window_cache) outcome" where
  "window_append cfg T layer_idx k v c =
     (if window_size c = 0 then (Inl ZeroDivisionError, c)
      else let pos = position c mod window_size c in
        case py_index (num_layers cfg) layer_idx of
          None \<Rightarrow> (Inl IndexError, c)
        | Some l \<Rightarrow>
            let c1 = put_v l pos (cast T v) (put_k l pos (cast T k) c)
            in (Inr (), if layer_idx = int (num_layers cfg) - 1 then advance c1 else c1))"

definition window_layer ::
    "'t tensors \<Rightarrow> 't list \<Rightarrow> 't list \<Rightarrow> nat \<Rightarrow> nat \<Rightarrow> 't window_cache \<Rightarrow> (py_error, unit, 't window_cache) outcome" where
  "window_layer T k_by_layer v_by_layer pos l c =
     (if l < length k_by_layer then
        let c1 = put_k l pos (cast T (k_by_layer ! l)) c in
        if l < length v_by_layer then (Inr (), put_v l pos (cast T (v_by_layer ! l)) c1)
        else (Inl IndexError, c1)
      else (Inl IndexError, c))"

definition window_append_token ::
    "kv_config \<Rightarrow> 't tensors \<Rightarrow> 't list \<Rightarrow> 't list \<Rightarrow> 't window_cache \<Rightarrow> (py_error, unit, 't window_cache) outcome" where
  "window_append_token cfg T k_by_layer v_by_layer c =
     (if window_size c = 0 then (Inl ZeroDivisionError, c)
      else let pos = position c mod window_size c in
        and_then (for_each (window_layer T k_by_layer v_by_layer pos) [0..<num_layers cfg] c)
          (\<lambda>_ c1. (Inr (), advance c1)))"

text \<open>With an empty window \<open>position % window_size\<close> is always reached, and raises.\<close>

definition window_get_kv :: "kv_config \<Rightarrow> int \<Rightarrow> 't window_cache \<Rightarrow> py_error + ('t list \<times> 't list)" where
  "window_get_kv cfg layer_idx c =
     (if window_size c = 0 then Inl ZeroDivisionError
      else case py_index (num_layers cfg) layer_idx of
        None \<Rightarrow> Inl IndexError
      | Some l \<Rightarrow>
          if cached_length c < window_size c
          then Inr (take (cached_length c) (k_cache c ! l), take (cached_length c) (v_cache c ! l))
          else let start = position c mod window_size c;
                   indices = [start..<window_size c] @ [0..<start]
               in Inr (map (\<lambda>i. k_cache c ! l ! i) indices, map (\<lambda>i. v_cache c ! l ! i) indices))"

definition get_length :: "'t window_cache \<Rightarrow> nat" where
  "get_length c = cached_length c"

definition get_total_position :: "'t window_cache \<Rightarrow> nat" where
  "get_total_position c = position c"

definition window_reset :: "kv_config \<Rightarrow> 't tensors \<Rightarrow> 't window_cache \<Rightarrow> 't window_cache" where
  "window_reset cfg T c =
     c\<lparr>position := 0, cached_length := 0,
       k_cache := replicate (num_layers cfg) (replicate (window_size c) (zero_slice T)),
       v_cache := replicate (num_layers cfg) (replicate (window_size c) (zero_slice T))\<rparr>"

definition window_is_full :: "'t window_cache \<Rightarrow> bool" where
  "window_is_full c \<longleftrightarrow> window_size c \<le> cached_length c"

section \<open>Writing a token\<close>

lemma put_simps [simp]:
  "window_size (put_k l p x c) = window_size c" "window_size (put_v l p x c) = window_size c"
  "position (put_k l p x c) = position c" "position (put_v l p x c) = position c"
  "cached_length (put_k l p x c) = cached_length c" "cached_length (put_v l p x c) = cached_length c"
  "v_cache (put_k l p x c) = v_cache c" "k_cache (put_v l p x c) = k_cache c"
  "k_cache (put_k l p x c) = (k_cache c)[l := (k_cache c ! l)[p := x]]"
  "v_cache (put_v l p x c) = (v_cache c)[l := (v_cache c ! l)[p := x]]"
  by (simp_all add: put_k_def put_v_def)

text \<open>Writing one slot of every layer of a buffer.\<close>

definition put_slot :: "nat \<Rightarrow> 't list \<Rightarrow> 't list list \<Rightarrow> 't list list" where
  "put_slot p xs rows = map2 (\<lambda>row x. row[p := x]) rows xs"

lemma for_each_window_layer:
  assumes "length ks = n" and "length vs = n" and "l \<le> n"
    and "length (k_cache c) = n" and "length (v_cache c) = n"
  shows "for_each (window_layer T ks vs p) [l..<n] c =
    (Inr (), c\<lparr>k_cache := take l (k_cache c) @ put_slot p (map (cast T) (drop l ks)) (drop l (k_cache c)),
               v_cache := take l (v_cache c) @ put_slot p (map (cast T) (drop l vs)) (drop l (v_cache c))\<rparr>)"
  using assms(3-5)
proof (induction "n - l" arbitrary: l c)
  case 0
  then show ?case by (simp add: put_slot_def)
next
  case (Suc d)
  let ?c = "put_v l p (cast T (vs ! l)) (put_k l p (cast T (ks ! l)) c)"
  have l: "l < n" using Suc.hyps(2) by simp
  have IH: "for_each (window_layer T ks vs p) [Suc l..<n] ?c =
    (Inr (), ?c\<lparr>k_cache := take (Suc l) (k_cache ?c) @ put_slot p (map (cast T) (drop (Suc l) ks)) (drop (Suc l) (k_cache ?c)),
               v_cache := take (Suc l) (v_cache ?c) @ put_slot p (map (cast T) (drop (Suc l) vs)) (drop (Suc l) (v_cache ?c))\<rparr>)"
    using Suc.hyps Suc.prems l by (intro Suc.hyps(1)) auto
  have rows: "take (Suc l) (rows[l := (rows ! l)[p := x]]) @ put_slot p (map (cast T) (drop (Suc l) xs)) (drop (Suc l) (rows[l := y])) =
      take l rows @ put_slot p (map (cast T) (drop l xs)) (drop l rows)"
    if "length rows = n" "length xs = n" "x = cast T (xs ! l)" for rows x xs y
    using that l by (simp add: put_slot_def Cons_nth_drop_Suc [symmetric] take_Suc_conv_app_nth)
  have step: "window_layer T ks vs p l c = (Inr (), ?c)"
    using assms(1,2) l by (simp add: window_layer_def Let_def)
  have "for_each (window_layer T ks vs p) [l..<n] c = for_each (window_layer T ks vs p) [Suc l..<n] ?c"
    using l step by (simp add: upt_conv_Cons)
  also have "\<dots> = (Inr (), c\<lparr>k_cache := take l (k_cache c) @ put_slot p (map (cast T) (drop l ks)) (drop l (k_cache c)),
               v_cache := take l (v_cache c) @ put_slot p (map (cast T) (drop l vs)) (drop l (v_cache c))\<rparr>)"
    unfolding IH using rows [OF Suc.prems(2) assms(1) refl] rows [OF Suc.prems(3) assms(2) refl]
    by (simp add: put_k_def put_v_def)
  finally show ?case .
qed

lemma window_append_token_eq:
  assumes "length ks = num_layers cfg" "length vs = num_layers cfg"
    and "length (k_cache c) = num_layers cfg" "length (v_cache c) = num_layers cfg" "0 < window_size c"
  shows "window_append_token cfg T ks vs c =
    (Inr (), advance (c\<lparr>k_cache := put_slot (position c mod window_size c) (map (cast T) ks) (k_cache c),
                        v_cache := put_slot (position c mod window_size c) (map (cast T) vs) (v_cache c)\<rparr>))"
  using for_each_window_layer [OF assms(1,2) _ assms(3,4), of 0 T] assms(5)
  by (simp add: window_append_token_def Let_def)

text \<open>The same token written by one call of \<open>append\<close> per layer.\<close>

definition append_each_layer ::
    "kv_config \<Rightarrow> 't tensors \<Rightarrow> 't list \<Rightarrow> 't list \<Rightarrow> nat list \<Rightarrow> 't window_cache \<Rightarrow> (py_error, unit, 't window_cache) outcome" where
  "append_each_layer cfg T ks vs = for_each (\<lambda>l c. window_append cfg T (int l) (ks ! l) (vs ! l) c)"

lemma window_append_layer:
  assumes "l < num_layers cfg" and "0 < window_size c"
  shows "window_append cfg T (int l) k v c =
    (let pos = position c mod window_size c;
         c1 = put_v l pos (cast T v) (put_k l pos (cast T k) c)
     in (Inr (), if Suc l = num_layers cfg then advance c1 else c1))"
proof -
  have "int l = int (num_layers cfg) - 1 \<longleftrightarrow> Suc l = num_layers cfg" using assms(1) by auto
  then show ?thesis unfolding window_append_def using assms by (simp add: Let_def)
qed

lemma append_each_layer_eq:
  assumes "length ks = num_layers cfg" "length vs = num_layers cfg" "l < num_layers cfg" "0 < window_size c"
  shows "append_each_layer cfg T ks vs [l..<num_layers cfg] c =
    and_then (for_each (window_layer T ks vs (position c mod window_size c)) [l..<num_layers cfg] c)
      (\<lambda>_ c1. (Inr (), advance c1))"
  using assms(3,4)
proof (induction "num_layers cfg - l" arbitrary: l c)
  case (Suc d)
  let ?p = "position c mod window_size c"
  let ?c = "put_v l ?p (cast T (vs ! l)) (put_k l ?p (cast T (ks ! l)) c)"
  have step: "window_layer T ks vs ?p l c = (Inr (), ?c)"
    using assms(1,2) Suc.prems by (simp add: window_layer_def Let_def)
  show ?case
  proof (cases "Suc l = num_layers cfg")
    case True
    then have "window_append cfg T (int l) (ks ! l) (vs ! l) c = (Inr (), advance ?c)"
      using Suc.prems by (simp add: window_append_layer Let_def)
    then show ?thesis using step by (simp add: append_each_layer_def True [symmetric])
  next
    case False
    then have "window_append cfg T (int l) (ks ! l) (vs ! l) c = (Inr (), ?c)"
      using Suc.prems by (simp add: window_append_layer Let_def)
    moreover have "append_each_layer cfg T ks vs [Suc l..<num_layers cfg] ?c =
      and_then (for_each (window_layer T ks vs ?p) [Suc l..<num_layers cfg] ?c) (\<lambda>_ c1. (Inr (), advance c1))"
      using Suc.hyps(1) [of "Suc l" ?c] Suc.hyps(2) Suc.prems False by simp
    ultimately show ?thesis
      using step Suc.prems by (simp add: append_each_layer_def upt_conv_Cons)
  qed
qed simp

text \<open>
  Writing a token with one call of \<open>append\<close> for each layer, in order, has the same effect and
  the same result as one call of \<open>append_token\<close> (also with an empty window, where both raise).
\<close>

theorem window_append_layers_equiv:
  assumes "length ks = num_layers cfg" "length vs = num_layers cfg" "0 < num_layers cfg"
  shows "append_each_layer cfg T ks vs [0..<num_layers cfg] c = window_append_token cfg T ks vs c"
proof (cases "window_size c = 0")
  case True
  then show ?thesis
    using assms(3) by (simp add: window_append_token_def append_each_layer_def window_append_def upt_conv_Cons)
next
  case False
  then show ?thesis
    using append_each_layer_eq [OF assms, of c T] by (simp add: window_append_token_def Let_def)
qed

definition ex_window_config :: kv_config where
  "ex_window_config = \<lparr>num_layers = 2, num_heads = 1, head_dim = 1, max_seq_len = 8, block_size = 2,
     dtype = ''float16'', device = ''cpu''\<rparr>"

definition ex_window_tensors :: "int tensors" where
  "ex_window_tensors = \<lparr>zero_slice = 0, cast = (\<lambda>x. x mod 100)\<rparr>"

theorem window_append_layers_equiv_witness:
  "append_each_layer ex_window_config ex_window_tensors [1, 2] [3, 4] [0..<num_layers ex_window_config]
      (window_init ex_window_config ex_window_tensors 2) =
    window_append_token ex_window_config ex_window_tensors [1, 2] [3, 4]
      (window_init ex_window_config ex_window_tensors 2)"
  by (rule window_append_layers_equiv) (simp_all add: ex_window_config_def)

section \<open>The window holds the last tokens\<close>

text \<open>A token is its keys and its values, one of each per layer.\<close>

definition last_tokens :: "nat \<Rightarrow> 'a list \<Rightarrow> 'a list" where
  "last_tokens w xs = drop (length xs - w) xs"

definition rows_hold :: "nat \<Rightarrow> nat \<Rightarrow> 't list list \<Rightarrow> 't list list \<Rightarrow> bool" where
  "rows_hold w n rows toks \<longleftrightarrow> length rows = n \<and> (\<forall>row\<in>set rows. length row = w) \<and>
     (\<forall>l<n. \<forall>i<length toks. length toks \<le> i + w \<longrightarrow> rows ! l ! (i mod w) = toks ! i ! l)"

lemma rows_hold_put:
  assumes h: "rows_hold w n rows toks" and w: "0 < w" and x: "length x = n"
  shows "rows_hold w n (put_slot (length toks mod w) x rows) (toks @ [x])"
proof -
  let ?p = "length toks mod w"
  have len: "length rows = n" "\<And>l. l < n \<Longrightarrow> length (rows ! l) = w"
    using h unfolding rows_hold_def by (metis, metis nth_mem)
  have slot: "put_slot ?p x rows ! l = (rows ! l)[?p := x ! l]" if "l < n" for l
    using that len x by (simp add: put_slot_def)
  have "put_slot ?p x rows ! l ! (i mod w) = (toks @ [x]) ! i ! l"
    if l: "l < n" and i: "i < length (toks @ [x])" "length (toks @ [x]) \<le> i + w" for l i
  proof (cases "i = length toks")
    case True
    then show ?thesis using slot [OF l] len(2) [OF l] w by simp
  next
    case False
    then have "i < length toks" "length toks < i + w" using i by auto
    then have "\<not> w dvd length toks - i" by (auto dest: dvd_imp_le)
    then have "i mod w \<noteq> ?p"
      using \<open>i < length toks\<close> mod_eq_dvd_iff_nat [of i "length toks" w] by simp
    then show ?thesis
      using h l False i slot [OF l] unfolding rows_hold_def by (auto simp: nth_append)
  qed
  moreover have "length (put_slot ?p x rows) = n" using len(1) x by (simp add: put_slot_def)
  moreover have "\<forall>row\<in>set (put_slot ?p x rows). length row = w"
    using slot len(2) \<open>length (put_slot ?p x rows) = n\<close> by (auto simp: in_set_conv_nth)
  ultimately show ?thesis unfolding rows_hold_def by blast
qed

lemma rotate_indices:
  assumes "0 < w" and "w \<le> (n :: nat)"
  shows "map (\<lambda>i. i mod w) [n - w..<n] = [n mod w..<w] @ [0..<n mod w]"
proof (rule nth_equalityI)
  show "length (map (\<lambda>i. i mod w) [n - w..<n]) = length ([n mod w..<w] @ [0..<n mod w])"
    using assms by (simp add: less_imp_le)
  fix j assume "j < length (map (\<lambda>i. i mod w) [n - w..<n])"
  then have j: "j < w" using assms by simp
  have s: "n mod w < w" using assms(1) by simp
  have "(n - w + j) mod w = (n - w + j + w) mod w" by simp
  also have "n - w + j + w = n + j" using assms(2) by simp
  also have "(n + j) mod w = (n mod w + j) mod w" by (simp add: mod_add_left_eq)
  also have "\<dots> = (if n mod w + j < w then n mod w + j else n mod w + j - w)"
  proof (cases "n mod w + j < w")
    case False
    have "n mod w + j - w < w" using s j by linarith
    then show ?thesis using False by (simp add: le_mod_geq)
  qed simp
  finally show "map (\<lambda>i. i mod w) [n - w..<n] ! j = ([n mod w..<w] @ [0..<n mod w]) ! j"
    using j assms(2) s by (simp add: nth_append less_diff_conv add.commute)
qed

lemma rows_hold_read:
  assumes h: "rows_hold w n rows toks" and l: "l < n" and w: "0 < w"
  shows "length toks < w \<Longrightarrow> take (length toks) (rows ! l) = map (\<lambda>t. t ! l) (last_tokens w toks)"
    and "w \<le> length toks \<Longrightarrow>
      map (\<lambda>i. rows ! l ! i) ([length toks mod w..<w] @ [0..<length toks mod w]) = map (\<lambda>t. t ! l) (last_tokens w toks)"
proof -
  have row: "length (rows ! l) = w" using h l unfolding rows_hold_def by (metis nth_mem)
  have at: "rows ! l ! (i mod w) = toks ! i ! l" if "i < length toks" "length toks \<le> i + w" for i
    using h l that unfolding rows_hold_def by blast
  show "take (length toks) (rows ! l) = map (\<lambda>t. t ! l) (last_tokens w toks)" if "length toks < w"
    using that at row by (intro nth_equalityI) (auto simp: last_tokens_def)
  show "map (\<lambda>i. rows ! l ! i) ([length toks mod w..<w] @ [0..<length toks mod w]) = map (\<lambda>t. t ! l) (last_tokens w toks)"
    if n: "w \<le> length toks"
  proof -
    have "map (\<lambda>i. rows ! l ! i) ([length toks mod w..<w] @ [0..<length toks mod w]) =
      map (\<lambda>i. rows ! l ! (i mod w)) [length toks - w..<length toks]"
      unfolding rotate_indices [OF w n, symmetric] by simp
    also have "\<dots> = map (\<lambda>i. toks ! i ! l) [length toks - w..<length toks]"
      using at by auto
    also have "\<dots> = map (\<lambda>t. t ! l) (last_tokens w toks)"
      using n by (intro nth_equalityI) (auto simp: last_tokens_def)
    finally show ?thesis .
  qed
qed

definition window_holds ::
    "kv_config \<Rightarrow> 't tensors \<Rightarrow> nat \<Rightarrow> ('t list \<times> 't list) list \<Rightarrow> 't window_cache \<Rightarrow> bool" where
  "window_holds cfg T w toks c \<longleftrightarrow>
     window_size c = w \<and> position c = length toks \<and> cached_length c = min (length toks) w \<and>
     rows_hold w (num_layers cfg) (k_cache c) (map (\<lambda>t. map (cast T) (fst t)) toks) \<and>
     rows_hold w (num_layers cfg) (v_cache c) (map (\<lambda>t. map (cast T) (snd t)) toks)"

definition token_ok :: "kv_config \<Rightarrow> 't list \<times> 't list \<Rightarrow> bool" where
  "token_ok cfg t \<longleftrightarrow> length (fst t) = num_layers cfg \<and> length (snd t) = num_layers cfg"

lemma window_append_token_holds:
  assumes h: "window_holds cfg T w toks c" and w: "0 < w" and t: "token_ok cfg t"
  shows "\<exists>c'. window_append_token cfg T (fst t) (snd t) c = (Inr (), c') \<and> window_holds cfg T w (toks @ [t]) c'"
proof -
  let ?p = "position c mod window_size c"
  let ?c = "c\<lparr>k_cache := put_slot ?p (map (cast T) (fst t)) (k_cache c),
              v_cache := put_slot ?p (map (cast T) (snd t)) (v_cache c)\<rparr>"
  have len: "length (k_cache c) = num_layers cfg" "length (v_cache c) = num_layers cfg"
    using h by (auto simp: window_holds_def rows_hold_def)
  have "window_append_token cfg T (fst t) (snd t) c = (Inr (), advance ?c)"
    using window_append_token_eq [of "fst t" cfg "snd t" c T] t len h w
    by (simp add: token_ok_def window_holds_def)
  moreover have "window_holds cfg T w (toks @ [t]) (advance ?c)"
    using h t w rows_hold_put [of w "num_layers cfg" "k_cache c" "map (\<lambda>t. map (cast T) (fst t)) toks" "map (cast T) (fst t)"]
      rows_hold_put [of w "num_layers cfg" "v_cache c" "map (\<lambda>t. map (cast T) (snd t)) toks" "map (cast T) (snd t)"]
    by (simp add: window_holds_def advance_def token_ok_def)
  ultimately show ?thesis by blast
qed

lemma window_run_holds:
  assumes "window_holds cfg T w toks c" and "0 < w" and "list_all (token_ok cfg) ts"
  shows "\<exists>c'. for_each (\<lambda>t. window_append_token cfg T (fst t) (snd t)) ts c = (Inr (), c') \<and>
    window_holds cfg T w (toks @ ts) c'"
  using assms
proof (induction ts arbitrary: toks c)
  case (Cons t ts)
  obtain c1 where c1: "window_append_token cfg T (fst t) (snd t) c = (Inr (), c1)"
    "window_holds cfg T w (toks @ [t]) c1"
    using window_append_token_holds [OF Cons.prems(1,2), of t] Cons.prems(3) by auto
  then show ?case using Cons.IH [OF c1(2) Cons.prems(2)] Cons.prems(3) by simp
qed simp

text \<open>
  C30: after any number of tokens, the sliding window gives at every layer the keys and values of the
  last \<open>window_size\<close> tokens (of all of them, when there are fewer), oldest first, however often the
  circular buffer has wrapped around; and no call raises.
\<close>

theorem window_holds_last_tokens:
  assumes "0 < w" and "list_all (token_ok cfg) ts" and "l < num_layers cfg"
  shows "\<exists>c. for_each (\<lambda>t. window_append_token cfg T (fst t) (snd t)) ts (window_init cfg T w) = (Inr (), c) \<and>
    window_get_kv cfg (int l) c =
      Inr (map (\<lambda>t. cast T (fst t ! l)) (last_tokens w ts), map (\<lambda>t. cast T (snd t ! l)) (last_tokens w ts)) \<and>
    get_length c = length (last_tokens w ts) \<and> get_total_position c = length ts"
proof -
  let ?K = "map (\<lambda>t. map (cast T) (fst t)) ts" and ?V = "map (\<lambda>t. map (cast T) (snd t)) ts"
  have "window_holds cfg T w [] (window_init cfg T w)"
    by (simp add: window_holds_def window_init_def rows_hold_def)
  then obtain c where c: "for_each (\<lambda>t. window_append_token cfg T (fst t) (snd t)) ts (window_init cfg T w) = (Inr (), c)"
    and h: "window_holds cfg T w ts c"
    using window_run_holds [OF _ assms(1,2), of T "[]"] by auto
  have K: "rows_hold w (num_layers cfg) (k_cache c) ?K" and V: "rows_hold w (num_layers cfg) (v_cache c) ?V"
    and f: "window_size c = w" "position c = length ts" "cached_length c = min (length ts) w"
    using h by (auto simp: window_holds_def)
  have tk: "\<forall>t\<in>set (last_tokens w ts). length (fst t) = num_layers cfg \<and> length (snd t) = num_layers cfg"
    using assms(2) set_drop_subset [of "length ts - w" ts] by (auto simp: last_tokens_def list_all_iff token_ok_def)
  have last: "last_tokens w (map g ts) = map g (last_tokens w ts)" for g :: "'a list \<times> 'a list \<Rightarrow> 'a list"
    by (simp add: last_tokens_def drop_map)
  have conv: "map (\<lambda>t. t ! l) (last_tokens w ?K) = map (\<lambda>t. cast T (fst t ! l)) (last_tokens w ts)"
    "map (\<lambda>t. t ! l) (last_tokens w ?V) = map (\<lambda>t. cast T (snd t ! l)) (last_tokens w ts)"
    unfolding last using tk assms(3) by auto
  have "window_get_kv cfg (int l) c = Inr (map (\<lambda>t. t ! l) (last_tokens w ?K), map (\<lambda>t. t ! l) (last_tokens w ?V))"
  proof (cases "length ts < w")
    case True
    then show ?thesis
      using rows_hold_read(1) [OF K assms(3,1)] rows_hold_read(1) [OF V assms(3,1)] f assms
      by (simp add: window_get_kv_def min_def)
  next
    case False
    then show ?thesis
      using rows_hold_read(2) [OF K assms(3,1)] rows_hold_read(2) [OF V assms(3,1)] f assms
      by (simp add: window_get_kv_def min_def Let_def)
  qed
  then show ?thesis
    using c f conv by (auto simp: get_length_def get_total_position_def last_tokens_def)
qed

theorem window_holds_last_tokens_witness:
  "\<exists>c. for_each (\<lambda>t. window_append_token ex_window_config ex_window_tensors (fst t) (snd t))
      [([1, 2], [3, 4]), ([5, 6], [7, 8]), ([9, 110], [11, 12])]
      (window_init ex_window_config ex_window_tensors 2) = (Inr (), c) \<and>
    window_get_kv ex_window_config (int 1) c = Inr ([6, 10], [8, 12])"
proof -
  have "list_all (token_ok ex_window_config) [([1, 2], [3, 4]), ([5, 6], [7, 8]), ([9, 110], [11, 12 :: int])]"
    "(0 :: nat) < 2" "1 < num_layers ex_window_config"
    by (simp_all add: ex_window_config_def token_ok_def)
  from window_holds_last_tokens [OF this(2,1,3), of ex_window_tensors] show ?thesis
    by (auto simp: last_tokens_def ex_window_tensors_def)
qed

end
