(* ===== verification/Heapq.thy ===== *)
theory Heapq
  imports Prelude "HOL-Library.Multiset"
begin

text \<open>
  The binary heap of Python's \<open>heapq\<close> module, as the priority queues of the programs use it: a
  list in which the element at index \<open>i\<close> is not smaller than the one at index \<open>(i - 1) div 2\<close>.
  The comparison is the \<open>__lt__\<close> of the elements, a parameter of every operation; the locale
  \<open>lt_order\<close> states what \<open>heapq\<close> needs of it. Python's algorithm is kept: \<open>heappop\<close> moves the hole
  down to a leaf along the smaller children and only then sifts the last element up from there,
  which decides the order in which elements of equal rank leave the heap.
\<close>

section \<open>The operations\<close>

text \<open>
  \<open>_siftdown\<close>, with the hole at \<open>pos\<close> and the element \<open>x\<close> to be placed.
\<close>

function siftdown :: "('a \<Rightarrow> 'a \<Rightarrow> bool) \<Rightarrow> 'a list \<Rightarrow> nat \<Rightarrow> 'a \<Rightarrow> 'a list" where
  "siftdown lt h pos x =
     (if 0 < pos \<and> lt x (h ! ((pos - 1) div 2))
      then siftdown lt (h[pos := h ! ((pos - 1) div 2)]) ((pos - 1) div 2) x
      else h[pos := x])"
  by auto
termination by (relation "measure (\<lambda>(_, _, pos, _). pos)") auto

declare siftdown.simps [simp del]

text \<open>The smaller of the two children of \<open>pos\<close>, when there is one.\<close>

definition smaller_child :: "('a \<Rightarrow> 'a \<Rightarrow> bool) \<Rightarrow> 'a list \<Rightarrow> nat \<Rightarrow> nat" where
  "smaller_child lt h pos =
     (if 2 * pos + 2 < length h \<and> \<not> lt (h ! (2 * pos + 1)) (h ! (2 * pos + 2))
      then 2 * pos + 2 else 2 * pos + 1)"

text \<open>\<open>_siftup\<close>: the hole goes down to a leaf, then \<open>x\<close> is sifted from there.\<close>

function siftup :: "('a \<Rightarrow> 'a \<Rightarrow> bool) \<Rightarrow> 'a list \<Rightarrow> nat \<Rightarrow> 'a \<Rightarrow> 'a list" where
  "siftup lt h pos x =
     (if 2 * pos + 1 < length h
      then siftup lt (h[pos := h ! smaller_child lt h pos]) (smaller_child lt h pos) x
      else siftdown lt h pos x)"
  by auto
termination
  by (relation "measure (\<lambda>(_, h, pos, _). length h - pos)") (auto simp: smaller_child_def)

declare siftup.simps [simp del]

definition heappush :: "('a \<Rightarrow> 'a \<Rightarrow> bool) \<Rightarrow> 'a list \<Rightarrow> 'a \<Rightarrow> 'a list" where
  "heappush lt h x = siftdown lt (h @ [x]) (length h) x"

text \<open>\<open>heappop\<close> of a non-empty heap: the element and the heap that is left.\<close>

definition heappop :: "('a \<Rightarrow> 'a \<Rightarrow> bool) \<Rightarrow> 'a list \<Rightarrow> 'a \<times> 'a list" where
  "heappop lt h =
     (if butlast h = [] then (last h, [])
      else (hd h, siftup lt (butlast h) 0 (last h)))"

section \<open>Elements are kept\<close>

lemma mset_move_hole:
  assumes "i < length h" and "j < length h" and "i \<noteq> j"
  shows "mset ((h[i := h ! j])[j := x]) = mset (h[i := x])"
proof -
  have "mset ((h[i := h ! j])[j := x]) = mset (h[i := h ! j]) - {# h ! j #} + {# x #}"
    using assms by (simp add: mset_update)
  also have "\<dots> = mset (h[i := x])"
    using assms by (simp add: mset_update)
  finally show ?thesis .
qed

lemma length_siftdown [simp]: "length (siftdown lt h pos x) = length h"
  by (induction lt h pos x rule: siftdown.induct) (subst siftdown.simps, simp)

lemma mset_siftdown:
  "pos < length h \<Longrightarrow> mset (siftdown lt h pos x) = mset (h[pos := x])"
proof (induction lt h pos x rule: siftdown.induct)
  case (1 lt h pos x)
  show ?case
  proof (cases "0 < pos \<and> lt x (h ! ((pos - 1) div 2))")
    case True
    let ?p = "(pos - 1) div 2"
    have p: "?p < length h" "?p \<noteq> pos" using True 1(2) by auto
    have "mset (siftdown lt h pos x) = mset (siftdown lt (h[pos := h ! ?p]) ?p x)"
      using True by (subst siftdown.simps) simp
    also have "\<dots> = mset ((h[pos := h ! ?p])[?p := x])"
      by (rule 1(1) [OF True]) (use p in simp)
    also have "\<dots> = mset (h[pos := x])"
      using mset_move_hole [of pos h ?p x] p 1(2) by simp
    finally show ?thesis .
  next
    case False
    then show ?thesis by (subst siftdown.simps) auto
  qed
qed

lemma length_siftup [simp]: "length (siftup lt h pos x) = length h"
  by (induction lt h pos x rule: siftup.induct) (subst siftup.simps, simp)

lemma smaller_child_bounds:
  "2 * pos + 1 < length h \<Longrightarrow> smaller_child lt h pos < length h \<and> pos < smaller_child lt h pos"
  by (auto simp: smaller_child_def)

lemma mset_siftup:
  "pos < length h \<Longrightarrow> mset (siftup lt h pos x) = mset (h[pos := x])"
proof (induction lt h pos x rule: siftup.induct)
  case (1 lt h pos x)
  show ?case
  proof (cases "2 * pos + 1 < length h")
    case True
    let ?c = "smaller_child lt h pos"
    have c: "?c < length h" "pos < ?c" using smaller_child_bounds [OF True] by auto
    have "mset (siftup lt h pos x) = mset (siftup lt (h[pos := h ! ?c]) ?c x)"
      using True by (subst siftup.simps) simp
    also have "\<dots> = mset ((h[pos := h ! ?c])[?c := x])"
      by (rule 1(1) [OF True]) (use c in simp)
    also have "\<dots> = mset (h[pos := x])"
      using mset_move_hole [of pos h ?c x] c 1(2) by simp
    finally show ?thesis .
  next
    case False
    then show ?thesis using 1(2) by (subst siftup.simps) (simp add: mset_siftdown)
  qed
qed

lemma mset_heappush [simp]: "mset (heappush lt h x) = add_mset x (mset h)"
  by (simp add: heappush_def mset_siftdown)

lemma set_heappush [simp]: "set (heappush lt h x) = insert x (set h)"
  by (metis mset_heappush set_mset_add_mset_insert set_mset_mset)

lemma length_heappush [simp]: "length (heappush lt h x) = Suc (length h)"
  by (simp add: heappush_def)

lemma mset_heappop:
  assumes "h \<noteq> []"
  shows "add_mset (fst (heappop lt h)) (mset (snd (heappop lt h))) = mset h"
proof (cases "butlast h = []")
  case True
  then show ?thesis using assms by (cases h rule: rev_cases) (auto simp: heappop_def)
next
  case False
  then obtain y ys where y: "butlast h = y # ys" by (cases "butlast h") auto
  have h: "h = y # ys @ [last h]" using assms y by (metis append_Cons append_butlast_last_id)
  have "mset (siftup lt (butlast h) 0 (last h)) = mset ((butlast h)[0 := last h])"
    by (rule mset_siftup) (simp add: False del: length_butlast)
  then have m: "mset (siftup lt (butlast h) 0 (last h)) = add_mset (last h) (mset ys)"
    using y by simp
  have "add_mset (hd h) (add_mset (last h) (mset ys)) = mset h" by (subst h, subst (2) h) simp
  then show ?thesis using False m by (simp add: heappop_def)
qed

lemma length_heappop: "h \<noteq> [] \<Longrightarrow> length (snd (heappop lt h)) = length h - 1"
  by (auto simp: heappop_def) (cases h rule: rev_cases, auto)

lemma fst_heappop [simp]: "h \<noteq> [] \<Longrightarrow> fst (heappop lt h) = hd h"
  by (cases h rule: rev_cases) (auto simp: heappop_def)

lemmas heap_elements = mset_heappush mset_heappop length_heappush length_heappop fst_heappop

section \<open>The order\<close>

text \<open>
  What \<open>heapq\<close> and \<open>sorted\<close> need of \<open>__lt__\<close>: a strict weak order, in which elements of equal rank
  may be different.
\<close>

locale lt_order =
  fixes lt :: "'a \<Rightarrow> 'a \<Rightarrow> bool"
  assumes lt_asym: "lt x y \<Longrightarrow> \<not> lt y x"
    and lt_neg_trans: "\<not> lt y x \<Longrightarrow> \<not> lt z y \<Longrightarrow> \<not> lt z x"
begin

lemma lt_trans: "lt x y \<Longrightarrow> lt y z \<Longrightarrow> lt x z"
  using lt_asym lt_neg_trans by blast

definition heap_ok :: "'a list \<Rightarrow> nat \<Rightarrow> bool" where
  "heap_ok h i \<longleftrightarrow> \<not> lt (h ! i) (h ! ((i - 1) div 2))"

definition heap :: "'a list \<Rightarrow> bool" where
  "heap h \<longleftrightarrow> (\<forall>i. 0 < i \<longrightarrow> i < length h \<longrightarrow> heap_ok h i)"

text \<open>
  The list with a hole at \<open>pos\<close>: in order away from the hole, and across it.
\<close>

definition hole :: "'a list \<Rightarrow> nat \<Rightarrow> bool" where
  "hole h pos \<longleftrightarrow> pos < length h \<and>
     (\<forall>i. 0 < i \<longrightarrow> i < length h \<longrightarrow> i \<noteq> pos \<longrightarrow> (i - 1) div 2 \<noteq> pos \<longrightarrow> heap_ok h i) \<and>
     (\<forall>i. 0 < i \<longrightarrow> i < length h \<longrightarrow> (i - 1) div 2 = pos \<longrightarrow> 0 < pos \<longrightarrow>
        \<not> lt (h ! i) (h ! ((pos - 1) div 2)))"

lemma heap_Nil [simp]: "heap []"
  by (simp add: heap_def)

lemma heap_top: "heap h \<Longrightarrow> i < length h \<Longrightarrow> \<not> lt (h ! i) (h ! 0)"
proof (induction i rule: less_induct)
  case (less i)
  show ?case
  proof (cases "i = 0")
    case True
    then show ?thesis using lt_asym by auto
  next
    case False
    then have "\<not> lt (h ! ((i - 1) div 2)) (h ! 0)"
      using less.IH [of "(i - 1) div 2"] less.prems by simp
    moreover have "\<not> lt (h ! i) (h ! ((i - 1) div 2))"
      using less.prems False by (auto simp: heap_def heap_ok_def)
    ultimately show ?thesis using lt_neg_trans by blast
  qed
qed

lemma hole_up:
  assumes "hole h pos" and "0 < pos" and "lt x (h ! ((pos - 1) div 2))"
    and below: "\<And>i. 0 < i \<Longrightarrow> i < length h \<Longrightarrow> (i - 1) div 2 = pos \<Longrightarrow> \<not> lt (h ! i) x"
  defines "p \<equiv> (pos - 1) div 2"
  shows "hole (h[pos := h ! p]) p"
    and "0 < i \<Longrightarrow> i < length h \<Longrightarrow> (i - 1) div 2 = p \<Longrightarrow> \<not> lt (h[pos := h ! p] ! i) x"
proof -
  have "p < pos" using assms(2) by (simp add: p_def)
  moreover have "pos < length h" using assms(1) by (simp add: hole_def)
  ultimately have p: "p < pos" "pos < length h" by simp_all
  have ok: "\<not> lt (h ! j) (h ! ((j - 1) div 2))"
    if "0 < j" "j < length h" "j \<noteq> pos" "(j - 1) div 2 \<noteq> pos" for j
    using assms(1) that by (auto simp: hole_def heap_ok_def)
  have across: "\<not> lt (h ! j) (h ! p)" if "0 < j" "j < length h" "(j - 1) div 2 = pos" for j
    using assms(1,2) that by (auto simp: hole_def p_def)
  have sib: "\<not> lt (h[pos := h ! p] ! j) (h ! p)" if "0 < j" "j < length h" "(j - 1) div 2 = p" for j
  proof (cases "j = pos")
    case True
    then show ?thesis using p lt_asym [of "h ! p" "h ! p"] by auto
  next
    case False
    then show ?thesis using ok [of j] that p by simp
  qed
  show "hole (h[pos := h ! p]) p"
    unfolding hole_def
  proof (intro conjI allI impI)
    show "p < length (h[pos := h ! p])" using p by simp
  next
    fix j assume j: "0 < j" "j < length (h[pos := h ! p])" "j \<noteq> p" "(j - 1) div 2 \<noteq> p"
    then have "j \<noteq> pos" unfolding p_def by blast
    then show "heap_ok (h[pos := h ! p]) j"
      using ok [of j] across [of j] j p by (cases "(j - 1) div 2 = pos") (simp_all add: heap_ok_def)
  next
    fix j assume j: "0 < j" "j < length (h[pos := h ! p])" "(j - 1) div 2 = p" "0 < p"
    have "\<not> lt (h ! p) (h ! ((p - 1) div 2))"
      using ok [of p] p j(4) by auto
    moreover have "h[pos := h ! p] ! ((p - 1) div 2) = h ! ((p - 1) div 2)"
      using p by simp
    ultimately show "\<not> lt (h[pos := h ! p] ! j) (h[pos := h ! p] ! ((p - 1) div 2))"
      using lt_neg_trans [OF _ sib [of j]] j by simp
  qed
  show "\<not> lt (h[pos := h ! p] ! i) x" if "0 < i" "i < length h" "(i - 1) div 2 = p"
    using sib [OF that] lt_trans [of "h[pos := h ! p] ! i" x "h ! p"] assms(3) by (auto simp: p_def)
qed

lemma siftdown_heap:
  "\<lbrakk>hole h pos; \<And>i. 0 < i \<Longrightarrow> i < length h \<Longrightarrow> (i - 1) div 2 = pos \<Longrightarrow> \<not> lt (h ! i) x\<rbrakk>
    \<Longrightarrow> heap (siftdown lt h pos x)"
proof (induction pos arbitrary: h rule: less_induct)
  case (less pos)
  show ?case
  proof (cases "0 < pos \<and> lt x (h ! ((pos - 1) div 2))")
    case True
    let ?p = "(pos - 1) div 2"
    have pos: "0 < pos" "lt x (h ! ?p)" using True by auto
    have up: "\<And>i. 0 < i \<Longrightarrow> i < length (h[pos := h ! ?p]) \<Longrightarrow> (i - 1) div 2 = ?p
        \<Longrightarrow> \<not> lt (h[pos := h ! ?p] ! i) x"
      using hole_up(2) [OF less.prems(1) pos less.prems(2)] by simp
    have "heap (siftdown lt (h[pos := h ! ?p]) ?p x)"
      by (rule less.IH [OF _ hole_up(1) [OF less.prems(1) pos less.prems(2)] up]) (use pos in simp_all)
    then show ?thesis using True by (subst siftdown.simps) simp
  next
    case False
    have "heap_ok (h[pos := x]) i" if i: "0 < i" "i < length h" for i
    proof -
      consider "i = pos" | "i \<noteq> pos" "(i - 1) div 2 = pos" | "i \<noteq> pos" "(i - 1) div 2 \<noteq> pos" by blast
      then show ?thesis
      proof cases
        case 1
        then have "(i - 1) div 2 \<noteq> pos" using i by auto
        then show ?thesis using 1 False i by (auto simp: heap_ok_def)
      next
        case 2
        then show ?thesis using less.prems(2) [of i] i by (auto simp: heap_ok_def)
      next
        case 3
        then show ?thesis using less.prems(1) i by (auto simp: heap_ok_def hole_def)
      qed
    qed
    then show ?thesis using False by (subst siftdown.simps) (auto simp: heap_def)
  qed
qed

lemma hole_down:
  assumes "hole h pos" and "2 * pos + 1 < length h"
  shows "hole (h[pos := h ! smaller_child lt h pos]) (smaller_child lt h pos)"
proof -
  let ?c = "smaller_child lt h pos"
  have c: "?c < length h" "pos < ?c" using smaller_child_bounds [OF assms(2)] by auto
  have par: "(?c - 1) div 2 = pos" by (auto simp: smaller_child_def)
  have ok: "\<not> lt (h ! j) (h ! ((j - 1) div 2))"
    if "0 < j" "j < length h" "j \<noteq> pos" "(j - 1) div 2 \<noteq> pos" for j
    using assms(1) that by (auto simp: hole_def heap_ok_def)
  have best: "\<not> lt (h ! j) (h ! ?c)" if "0 < j" "j < length h" "(j - 1) div 2 = pos" for j
  proof -
    have "j = 2 * pos + 1 \<or> j = 2 * pos + 2" using that(1,3) by auto
    then show ?thesis using that(2) lt_asym by (auto simp: smaller_child_def)
  qed
  show ?thesis
    unfolding hole_def
  proof (intro conjI allI impI)
    show "?c < length (h[pos := h ! ?c])" using c by simp
  next
    fix j assume j: "0 < j" "j < length (h[pos := h ! ?c])" "j \<noteq> ?c" "(j - 1) div 2 \<noteq> ?c"
    consider "j = pos" | "j \<noteq> pos" "(j - 1) div 2 = pos" | "j \<noteq> pos" "(j - 1) div 2 \<noteq> pos" by blast
    then show "heap_ok (h[pos := h ! ?c]) j"
    proof cases
      case 1
      have "\<not> lt (h ! ?c) (h ! ((pos - 1) div 2))"
        using assms(1) c par j 1 by (auto simp: hole_def)
      moreover have "(pos - 1) div 2 \<noteq> pos" using 1 j(1) by auto
      ultimately show ?thesis using 1 c by (simp add: heap_ok_def)
    next
      case 2
      then show ?thesis using best [of j] j c by (simp add: heap_ok_def)
    next
      case 3
      then show ?thesis using ok [of j] j by (simp add: heap_ok_def)
    qed
  next
    fix j assume j: "0 < j" "j < length (h[pos := h ! ?c])" "(j - 1) div 2 = ?c" "0 < ?c"
    have "j \<noteq> pos" using j c by auto
    then have "\<not> lt (h ! j) (h ! ?c)" using ok [of j] j c by simp
    then show "\<not> lt (h[pos := h ! ?c] ! j) (h[pos := h ! ?c] ! ((?c - 1) div 2))"
      using par c \<open>j \<noteq> pos\<close> by simp
  qed
qed

lemma siftup_heap: "hole h pos \<Longrightarrow> heap (siftup lt h pos x)"
proof (induction "length h - pos" arbitrary: h pos rule: less_induct)
  case less
  show ?case
  proof (cases "2 * pos + 1 < length h")
    case True
    let ?c = "smaller_child lt h pos"
    have "length (h[pos := h ! ?c]) - ?c < length h - pos"
      using smaller_child_bounds [OF True, of lt] by auto
    then have "heap (siftup lt (h[pos := h ! ?c]) ?c x)"
      by (rule less.hyps) (rule hole_down [OF less.prems True])
    then show ?thesis using True by (subst siftup.simps) simp
  next
    case False
    have "heap (siftdown lt h pos x)"
      by (rule siftdown_heap [OF less.prems]) (use False in auto)
    then show ?thesis using False by (subst siftup.simps) simp
  qed
qed

lemma heap_butlast: "heap h \<Longrightarrow> heap (butlast h)"
proof -
  assume h: "heap h"
  show ?thesis
    unfolding heap_def
  proof (intro allI impI)
    fix i assume i: "0 < i" "i < length (butlast h)"
    then have "heap_ok h i" using h by (auto simp: heap_def)
    moreover have "(i - 1) div 2 < length (butlast h)" using i by linarith
    ultimately show "heap_ok (butlast h) i" using i by (simp add: heap_ok_def nth_butlast)
  qed
qed

theorem heap_heappush: "heap h \<Longrightarrow> heap (heappush lt h x)"
proof -
  assume h: "heap h"
  have "heap_ok (h @ [x]) i" if i: "0 < i" "i < length h" for i
  proof -
    have "(i - 1) div 2 < length h" using i by linarith
    then show ?thesis using h i by (auto simp: heap_def heap_ok_def nth_append)
  qed
  then have "hole (h @ [x]) (length h)" by (auto simp: hole_def)
  then show ?thesis unfolding heappush_def by (rule siftdown_heap) auto
qed

theorem heap_heappop: "heap h \<Longrightarrow> h \<noteq> [] \<Longrightarrow> heap (snd (heappop lt h))"
proof (cases "butlast h = []")
  case False
  assume h: "heap h"
  have "hole (butlast h) 0"
    using heap_butlast [OF h] False by (auto simp: hole_def heap_def simp del: length_butlast)
  then show ?thesis using False by (simp add: heappop_def siftup_heap)
qed (simp add: heappop_def)

theorem heappop_least:
  assumes "heap h" and "h \<noteq> []" and "y \<in> set h"
  shows "\<not> lt y (fst (heappop lt h))"
  using heap_top [OF assms(1)] assms(2,3) by (auto simp: in_set_conv_nth hd_conv_nth)

end

end
