(* ===== verification/Requests.thy ===== *)
theory Requests
  imports Heapq "HOL-Library.Product_Lexorder"
begin

text \<open>
  Requests and their queue (\<open>44-autoregressive-inference/src/autoregressive_inference/requests.py\<close>).

  A request is an object that the queue, the dictionaries of the manager, the batches and the
  scheduler share and mutate. The objects are therefore kept in a store, a function from references
  (natural numbers) to the fields of the object, and lists and dictionaries hold references.
  The clock is a parameter; where a loop reads it several times, the parameter gives each reading.
\<close>

section \<open>Data\<close>

datatype request_status = PENDING | RUNNING_PREFILL | RUNNING_DECODE | COMPLETED | FAILED | PREEMPTED

datatype request_priority = LOW | NORMAL | HIGH | CRITICAL

fun priority_value :: "request_priority \<Rightarrow> int" where
  "priority_value LOW = 0"
| "priority_value NORMAL = 1"
| "priority_value HIGH = 2"
| "priority_value CRITICAL = 3"

record sampling_params =
  temperature :: real
  top_k :: int
  top_p :: real
  max_tokens :: int
  stop_sequences :: "string list"
  repetition_penalty :: real
  presence_penalty :: real
  frequency_penalty :: real

definition default_params :: sampling_params where
  "default_params = \<lparr>temperature = 1, top_k = 50, top_p = 1, max_tokens = 256, stop_sequences = [],
     repetition_penalty = 1, presence_penalty = 0, frequency_penalty = 0\<rparr>"

record inference_request =
  request_id :: string
  prompt :: string
  prompt_token_ids :: "int list"
  sampling :: sampling_params
  priority :: request_priority
  status :: request_status
  output_token_ids :: "int list"
  arrival_time :: real
  start_time :: "real option"
  end_time :: "real option"
  kv_cache_block_ids :: "nat list"
  prefill_tokens :: int
  decode_tokens :: int

text \<open>A new request, with the defaults of the dataclass.\<close>

definition new_request ::
    "string \<Rightarrow> string \<Rightarrow> int list \<Rightarrow> sampling_params \<Rightarrow> request_priority \<Rightarrow> real \<Rightarrow> inference_request" where
  "new_request i p toks sp pr now =
     \<lparr>request_id = i, prompt = p, prompt_token_ids = toks, sampling = sp, priority = pr,
      status = PENDING, output_token_ids = [], arrival_time = now, start_time = None,
      end_time = None, kv_cache_block_ids = [], prefill_tokens = 0, decode_tokens = 0\<rparr>"

definition request_lt :: "inference_request \<Rightarrow> inference_request \<Rightarrow> bool" where
  "request_lt self other \<longleftrightarrow>
     (priority_value (priority other), - arrival_time other) < (priority_value (priority self), - arrival_time self)"

definition request_eq :: "inference_request \<Rightarrow> inference_request \<Rightarrow> bool" where
  "request_eq self other \<longleftrightarrow> request_id self = request_id other"

definition get_total_tokens :: "inference_request \<Rightarrow> nat" where
  "get_total_tokens q = length (prompt_token_ids q) + length (output_token_ids q)"

text \<open>An end time of zero is false in a Python condition.\<close>

definition get_latency :: "real \<Rightarrow> inference_request \<Rightarrow> real option" where
  "get_latency now q =
     (case start_time q of
        None \<Rightarrow> None
      | Some s \<Rightarrow> Some ((case end_time q of Some e \<Rightarrow> if e \<noteq> 0 then e else now | None \<Rightarrow> now) - s))"

definition get_time_to_first_token :: "inference_request \<Rightarrow> real option" where
  "get_time_to_first_token q =
     (case start_time q of
        None \<Rightarrow> None
      | Some s \<Rightarrow> if output_token_ids q = [] then None else Some (s - arrival_time q))"

section \<open>The request manager\<close>

type_synonym store = "nat \<Rightarrow> inference_request"

record request_manager =
  max_queue_size :: int
  pending_queue :: "nat list"
  running_requests :: "(string \<times> nat) list"
  completed_requests :: "(string \<times> nat) list"
  total_requests :: int
  rejected_requests :: int

definition manager_init :: "int \<Rightarrow> request_manager" where
  "manager_init n = \<lparr>max_queue_size = n, pending_queue = [], running_requests = [],
     completed_requests = [], total_requests = 0, rejected_requests = 0\<rparr>"

abbreviation ref_lt :: "store \<Rightarrow> nat \<Rightarrow> nat \<Rightarrow> bool" where
  "ref_lt st a b \<equiv> request_lt (st a) (st b)"

definition add_request :: "nat \<Rightarrow> store \<Rightarrow> request_manager \<Rightarrow> bool \<times> request_manager" where
  "add_request r st m =
     (if max_queue_size m \<le> int (length (pending_queue m))
      then (False, m\<lparr>rejected_requests := rejected_requests m + 1\<rparr>)
      else (True, m\<lparr>pending_queue := heappush (ref_lt st) (pending_queue m) r,
                    total_requests := total_requests m + 1\<rparr>))"

text \<open>
  The loop of \<open>get_next_requests\<close> for \<open>n\<close> more requests, of which the first reads the clock as
  \<open>clock i\<close>.
\<close>

fun pop_requests ::
    "nat \<Rightarrow> (nat \<Rightarrow> real) \<Rightarrow> nat \<Rightarrow> store \<Rightarrow> request_manager \<Rightarrow> nat list \<times> store \<times> request_manager" where
  "pop_requests 0 clock i st m = ([], st, m)"
| "pop_requests (Suc n) clock i st m =
     (if pending_queue m = [] then ([], st, m)
      else let (r, rest) = heappop (ref_lt st) (pending_queue m);
               st1 = st(r := (st r)\<lparr>status := RUNNING_PREFILL, start_time := Some (clock i)\<rparr>);
               m1 = m\<lparr>pending_queue := rest,
                      running_requests := AList.update (request_id (st r)) r (running_requests m)\<rparr>;
               (rs, st2, m2) = pop_requests n clock (i + 1) st1 m1
           in (r # rs, st2, m2))"

definition get_next_requests ::
    "int \<Rightarrow> (nat \<Rightarrow> real) \<Rightarrow> store \<Rightarrow> request_manager \<Rightarrow> nat list \<times> store \<times> request_manager" where
  "get_next_requests max_requests clock st m = pop_requests (nat max_requests) clock 0 st m"

text \<open>
  \<open>sorted\<close> is stable and compares with \<open>__lt__\<close>, so it sorts by the key that \<open>__lt__\<close> compares.
\<close>

definition request_key :: "inference_request \<Rightarrow> int \<times> real" where
  "request_key q = (- priority_value (priority q), arrival_time q)"

definition peek_pending :: "int \<Rightarrow> store \<Rightarrow> request_manager \<Rightarrow> nat list" where
  "peek_pending max_requests st m =
     py_take max_requests (sort_key (\<lambda>r. request_key (st r)) (pending_queue m))"

text \<open>The common part of \<open>complete_request\<close> and \<open>fail_request\<close>.\<close>

definition finish_request ::
    "request_status \<Rightarrow> string \<Rightarrow> real \<Rightarrow> store \<Rightarrow> request_manager \<Rightarrow> nat option \<times> store \<times> request_manager" where
  "finish_request s i now st m =
     (case map_of (running_requests m) i of
        None \<Rightarrow> (None, st, m)
      | Some r \<Rightarrow>
          (Some r, st(r := (st r)\<lparr>status := s, end_time := Some now\<rparr>),
           m\<lparr>running_requests := AList.delete i (running_requests m),
             completed_requests := AList.update i r (completed_requests m)\<rparr>))"

definition complete_request ::
    "string \<Rightarrow> real \<Rightarrow> store \<Rightarrow> request_manager \<Rightarrow> nat option \<times> store \<times> request_manager" where
  "complete_request i now st m = finish_request COMPLETED i now st m"

definition fail_request ::
    "string \<Rightarrow> real \<Rightarrow> store \<Rightarrow> request_manager \<Rightarrow> nat option \<times> store \<times> request_manager" where
  "fail_request i now st m = finish_request FAILED i now st m"

definition preempt_request ::
    "string \<Rightarrow> store \<Rightarrow> request_manager \<Rightarrow> nat option \<times> store \<times> request_manager" where
  "preempt_request i st m =
     (case map_of (running_requests m) i of
        None \<Rightarrow> (None, st, m)
      | Some r \<Rightarrow>
          let st1 = st(r := (st r)\<lparr>status := PREEMPTED\<rparr>) in
          (Some r, st1,
           m\<lparr>running_requests := AList.delete i (running_requests m),
             pending_queue := heappush (ref_lt st1) (pending_queue m) r\<rparr>))"

definition get_request :: "string \<Rightarrow> store \<Rightarrow> request_manager \<Rightarrow> nat option" where
  "get_request i st m =
     (case map_of (running_requests m) i of
        Some r \<Rightarrow> Some r
      | None \<Rightarrow>
          (case map_of (completed_requests m) i of
             Some r \<Rightarrow> Some r
           | None \<Rightarrow> find (\<lambda>r. request_id (st r) = i) (pending_queue m)))"

definition get_running_requests :: "request_manager \<Rightarrow> nat list" where
  "get_running_requests m = map snd (running_requests m)"

record queue_stats =
  pending_count :: nat
  running_count :: nat
  completed_count :: nat
  total_count :: int
  rejected_count :: int

definition get_stats :: "request_manager \<Rightarrow> queue_stats" where
  "get_stats m = \<lparr>pending_count = length (pending_queue m), running_count = length (running_requests m),
     completed_count = length (completed_requests m), total_count = total_requests m,
     rejected_count = rejected_requests m\<rparr>"

definition ended_before :: "real \<Rightarrow> inference_request \<Rightarrow> bool" where
  "ended_before older_than q \<longleftrightarrow> (case end_time q of Some e \<Rightarrow> e \<noteq> 0 \<and> e < older_than | None \<Rightarrow> False)"

definition clear_completed :: "real option \<Rightarrow> store \<Rightarrow> request_manager \<Rightarrow> nat \<times> request_manager" where
  "clear_completed older_than st m =
     (case older_than of
        None \<Rightarrow> (length (completed_requests m), m\<lparr>completed_requests := []\<rparr>)
      | Some t \<Rightarrow>
          let to_remove = map fst (filter (\<lambda>(_, r). ended_before t (st r)) (completed_requests m)) in
          (length to_remove, m\<lparr>completed_requests := fold AList.delete to_remove (completed_requests m)\<rparr>))"

section \<open>The queue serves by priority, then by arrival\<close>

lemma request_lt_key: "request_lt a b \<longleftrightarrow> request_key a < request_key b"
  by (auto simp: request_lt_def request_key_def less_prod_def)

interpretation request_order: lt_order "ref_lt st" for st
  by unfold_locales (auto simp: request_lt_key)

lemma request_key_fields [simp]:
  "request_key (q\<lparr>status := s\<rparr>) = request_key q"
  "request_key (q\<lparr>start_time := t\<rparr>) = request_key q"
  "request_key (q\<lparr>end_time := t\<rparr>) = request_key q"
  by (simp_all add: request_key_def)

lemma ref_lt_cong: "(\<And>r. request_key (st' r) = request_key (st r)) \<Longrightarrow> ref_lt st' = ref_lt st"
  by (simp add: request_lt_key fun_eq_iff)

abbreviation queue_heap :: "store \<Rightarrow> request_manager \<Rightarrow> bool" where
  "queue_heap st m \<equiv> lt_order.heap (ref_lt st) (pending_queue m)"

lemma sort_keys_pop:
  assumes "lt_order.heap (ref_lt st) h" and "h \<noteq> []" and pop: "heappop (ref_lt st) h = (x, t)"
  shows "sort (map (\<lambda>r. request_key (st r)) h) =
    request_key (st x) # sort (map (\<lambda>r. request_key (st r)) t)"
proof -
  let ?k = "\<lambda>r. request_key (st r)"
  have m: "add_mset x (mset t) = mset h" using mset_heappop [OF assms(2), of "ref_lt st"] pop by simp
  have least: "?k x \<le> ?k y" if "y \<in> set h" for y
    using request_order.heappop_least [OF assms(1,2) that] pop by (simp add: request_lt_key)
  have "set t \<subseteq> set h" using arg_cong [OF m, of set_mset] by auto
  then have "sorted (?k x # sort (map ?k t))" using least by auto
  moreover have "mset (?k x # sort (map ?k t)) = mset (map ?k h)"
    using arg_cong [OF m, of "image_mset ?k"] by simp
  ultimately show ?thesis by (intro properties_for_sort)
qed

lemma pop_requests_keys:
  assumes "queue_heap st m"
  shows "map (\<lambda>r. request_key (st r)) (fst (pop_requests n clock i st m)) =
    take n (sort (map (\<lambda>r. request_key (st r)) (pending_queue m)))"
  using assms
proof (induction n arbitrary: i st m)
  case (Suc n)
  show ?case
  proof (cases "pending_queue m = []")
    case False
    obtain r rest where pop: "heappop (ref_lt st) (pending_queue m) = (r, rest)" by force
    define st1 where "st1 = st(r := (st r)\<lparr>status := RUNNING_PREFILL, start_time := Some (clock i)\<rparr>)"
    define m1 where "m1 = m\<lparr>pending_queue := rest,
       running_requests := AList.update (request_id (st r)) r (running_requests m)\<rparr>"
    have key: "request_key (st1 x) = request_key (st x)" for x by (simp add: st1_def)
    have heap: "queue_heap st1 m1"
      using request_order.heap_heappop [OF Suc.prems False] ref_lt_cong [of st1 st, OF key]
      by (simp add: m1_def pop)
    have "map (\<lambda>r. request_key (st r)) (fst (pop_requests n clock (i + 1) st1 m1)) =
      take n (sort (map (\<lambda>r. request_key (st r)) rest))"
      using Suc.IH [OF heap, of "i + 1"] by (simp add: key m1_def)
    then show ?thesis
      using sort_keys_pop [OF Suc.prems False pop] False
      by (cases "pop_requests n clock (i + 1) st1 m1")
        (simp add: pop st1_def [symmetric] m1_def [symmetric])
  qed simp
qed simp

section \<open>The life of a request\<close>

definition refs :: "request_manager \<Rightarrow> nat list" where
  "refs m = pending_queue m @ map snd (running_requests m) @ map snd (completed_requests m)"

abbreviation ids :: "store \<Rightarrow> nat list \<Rightarrow> string list" where
  "ids st rs \<equiv> map (\<lambda>r. request_id (st r)) rs"

definition queue_inv :: "store \<Rightarrow> request_manager \<Rightarrow> bool" where
  "queue_inv st m \<longleftrightarrow>
     queue_heap st m \<and> distinct (ids st (refs m)) \<and>
     (\<forall>r\<in>set (pending_queue m). status (st r) \<in> {PENDING, PREEMPTED}) \<and>
     (\<forall>i r. (i, r) \<in> set (running_requests m) \<longrightarrow>
        i = request_id (st r) \<and> status (st r) \<in> {RUNNING_PREFILL, RUNNING_DECODE}) \<and>
     (\<forall>i r. (i, r) \<in> set (completed_requests m) \<longrightarrow>
        i = request_id (st r) \<and> status (st r) \<in> {COMPLETED, FAILED})"

lemma queue_invD:
  assumes "queue_inv st m"
  shows "queue_heap st m" "distinct (ids st (refs m))"
    "r \<in> set (pending_queue m) \<Longrightarrow> status (st r) \<in> {PENDING, PREEMPTED}"
    "(i, r) \<in> set (running_requests m) \<Longrightarrow> i = request_id (st r)"
    "(i, r) \<in> set (running_requests m) \<Longrightarrow> status (st r) \<in> {RUNNING_PREFILL, RUNNING_DECODE}"
    "(i, r) \<in> set (completed_requests m) \<Longrightarrow> i = request_id (st r)"
    "(i, r) \<in> set (completed_requests m) \<Longrightarrow> status (st r) \<in> {COMPLETED, FAILED}"
  using assms unfolding queue_inv_def by blast+

lemma ids_disjoint:
  assumes "queue_inv st m"
  shows "r \<in> set (pending_queue m) \<Longrightarrow> (i, x) \<in> set (running_requests m) \<Longrightarrow> request_id (st r) \<noteq> request_id (st x)"
    and "r \<in> set (pending_queue m) \<Longrightarrow> (i, x) \<in> set (completed_requests m) \<Longrightarrow> request_id (st r) \<noteq> request_id (st x)"
    and "(j, r) \<in> set (running_requests m) \<Longrightarrow> (i, x) \<in> set (completed_requests m) \<Longrightarrow> request_id (st r) \<noteq> request_id (st x)"
    and "distinct (pending_queue m)"
proof -
  have D: "distinct (ids st (pending_queue m) @ ids st (map snd (running_requests m)) @ ids st (map snd (completed_requests m)))"
    using queue_invD(2) [OF assms] by (simp only: refs_def map_append)
  have mem: "(i, x) \<in> set d \<Longrightarrow> request_id (st x) \<in> set (ids st (map snd d))" for i x and d :: "(string \<times> nat) list"
    by (metis image_eqI list.set_map snd_conv)
  show "distinct (pending_queue m)" using D by (metis distinct_append distinct_map)
  show "request_id (st r) \<noteq> request_id (st x)" if "r \<in> set (pending_queue m)" "(i, x) \<in> set (running_requests m)"
  proof -
    have "request_id (st r) \<in> set (ids st (pending_queue m))" using that(1) by simp
    then show ?thesis using D mem [OF that(2)] unfolding distinct_append by force
  qed
  show "request_id (st r) \<noteq> request_id (st x)" if "r \<in> set (pending_queue m)" "(i, x) \<in> set (completed_requests m)"
  proof -
    have "request_id (st r) \<in> set (ids st (pending_queue m))" using that(1) by simp
    then show ?thesis using D mem [OF that(2)] unfolding distinct_append by force
  qed
  show "request_id (st r) \<noteq> request_id (st x)" if "(j, r) \<in> set (running_requests m)" "(i, x) \<in> set (completed_requests m)"
    using D mem [OF that(1)] mem [OF that(2)] unfolding distinct_append by force
qed

lemma delete_split:
  assumes "distinct (map fst d)" and "map_of d k = Some v"
  obtains a b where "d = a @ (k, v) # b" "AList.delete k d = a @ b"
proof -
  obtain a b where d: "d = a @ (k, v) # b" using map_of_SomeD [OF assms(2)] by (meson split_list)
  have "k \<notin> fst ` set a" "k \<notin> fst ` set b" using assms(1) d by auto
  then have "AList.delete k a = a" "AList.delete k b = b" by simp_all
  moreover have "AList.delete k d = AList.delete k a @ AList.delete k b" by (simp add: d AList.delete_eq)
  ultimately have "AList.delete k d = a @ b" by simp
  with d show thesis by (rule that)
qed

text \<open>Requests move between the places; nothing else of the invariant depends on the order.\<close>

lemma distinct_ids_mset:
  "mset rs = mset rs' \<Longrightarrow> distinct (ids st rs) = distinct (ids st rs')"
  by (intro mset_eq_imp_distinct_iff) simp

lemma running_keys_distinct:
  assumes "queue_inv st m"
  shows "distinct (map fst (running_requests m))"
proof -
  have "map fst (running_requests m) = ids st (map snd (running_requests m))"
    using queue_invD(4) [OF assms] by auto
  then show ?thesis using queue_invD(2) [OF assms] unfolding refs_def by (simp only: map_append distinct_append)
qed

text \<open>A move of one request to another place, with the new status.\<close>

lemma queue_inv_move:
  assumes inv: "queue_inv st m"
    and st': "st' = st(r := q)" "request_id q = request_id (st r)" "request_key q = request_key (st r)"
    and refs': "mset (refs m') = mset (refs m)"
    and heap: "lt_order.heap (ref_lt st) (pending_queue m')"
    and run: "\<And>i x. (i, x) \<in> set (running_requests m') \<Longrightarrow> i = request_id (st x) \<and> status (st' x) \<in> {RUNNING_PREFILL, RUNNING_DECODE}"
    and comp: "\<And>i x. (i, x) \<in> set (completed_requests m') \<Longrightarrow> i = request_id (st x) \<and> status (st' x) \<in> {COMPLETED, FAILED}"
    and pend: "\<And>x. x \<in> set (pending_queue m') \<Longrightarrow> status (st' x) \<in> {PENDING, PREEMPTED}"
  shows "queue_inv st' m'"
proof -
  have id: "request_id (st' x) = request_id (st x)" "request_key (st' x) = request_key (st x)" for x
    using st' by auto
  have "distinct (ids st' (refs m'))"
    using queue_invD(2) [OF inv] distinct_ids_mset [OF refs', of st] by (simp only: id)
  then show ?thesis
    using heap run comp pend ref_lt_cong [of st' st, OF id(2)] unfolding queue_inv_def id by auto
qed

lemma queue_init_inv: "queue_inv st (manager_init n)"
  by (simp add: queue_inv_def manager_init_def refs_def request_order.heap_Nil)

lemma add_request_inv:
  assumes inv: "queue_inv st m" and "request_id (st r) \<notin> set (ids st (refs m))" and "status (st r) = PENDING"
  shows "queue_inv st (snd (add_request r st m))"
proof (cases "max_queue_size m \<le> int (length (pending_queue m))")
  case True
  then show ?thesis using inv by (simp add: add_request_def queue_inv_def refs_def)
next
  case False
  let ?m = "snd (add_request r st m)"
  have "mset (refs ?m) = mset (r # refs m)" using False by (simp add: add_request_def refs_def)
  then have "distinct (ids st (refs ?m))"
    using distinct_ids_mset [of "refs ?m" "r # refs m" st] queue_invD(2) [OF inv] assms(2) by simp
  moreover have "set (pending_queue ?m) = insert r (set (pending_queue m))"
    using False by (simp add: add_request_def)
  ultimately show ?thesis
    using False inv assms(3) request_order.heap_heappush [OF queue_invD(1) [OF inv]]
    by (simp add: queue_inv_def add_request_def)
qed

lemma pop_requests_inv:
  "queue_inv st m \<Longrightarrow> fst (snd (pop_requests n clock i st m)) = st' \<Longrightarrow> snd (snd (pop_requests n clock i st m)) = m' \<Longrightarrow>
   queue_inv st' m' \<and> length (refs m') = length (refs m) \<and> total_requests m' = total_requests m \<and>
   set (refs m') = set (refs m) \<and> (\<forall>x. request_id (st' x) = request_id (st x))"
proof (induction n arbitrary: i st m)
  case (Suc n)
  show ?case
  proof (cases "pending_queue m = []")
    case False
    obtain r rest where pop: "heappop (ref_lt st) (pending_queue m) = (r, rest)" by force
    define st1 where "st1 = st(r := (st r)\<lparr>status := RUNNING_PREFILL, start_time := Some (clock i)\<rparr>)"
    define m1 where "m1 = m\<lparr>pending_queue := rest,
       running_requests := AList.update (request_id (st r)) r (running_requests m)\<rparr>"
    have ms: "add_mset r (mset rest) = mset (pending_queue m)"
      using mset_heappop [OF False, of "ref_lt st"] pop by simp
    then have mem: "set (pending_queue m) = insert r (set rest)"
      by (metis set_mset_add_mset_insert set_mset_mset)
    have d: "r \<notin> set rest"
      using ids_disjoint(4) [OF Suc.prems(1)] mset_eq_imp_distinct_iff [of "r # rest" "pending_queue m"] ms by simp
    have "request_id (st r) \<notin> keys_of (running_requests m)"
      using ids_disjoint(1) [OF Suc.prems(1), of r] queue_invD(4) [OF Suc.prems(1)] mem
      by (auto simp: keys_of_def) metis
    then have run: "running_requests m1 = running_requests m @ [(request_id (st r), r)]"
      by (simp add: m1_def update_new_key)
    have refs1: "mset (refs m1) = mset (refs m)"
      using ms run by (simp add: refs_def m1_def)
    have inv1: "queue_inv st1 m1"
    proof (rule queue_inv_move [OF Suc.prems(1) st1_def _ _ refs1])
      show "lt_order.heap (ref_lt st) (pending_queue m1)"
        using request_order.heap_heappop [OF queue_invD(1) [OF Suc.prems(1)] False] pop by (simp add: m1_def)
    next
      fix i x assume "(i, x) \<in> set (running_requests m1)"
      then show "i = request_id (st x) \<and> status (st1 x) \<in> {RUNNING_PREFILL, RUNNING_DECODE}"
        using run queue_invD(4,5) [OF Suc.prems(1), of i x] by (auto simp: st1_def)
    next
      fix i x assume x: "(i, x) \<in> set (completed_requests m1)"
      then have "x \<noteq> r" using ids_disjoint(2) [OF Suc.prems(1), of r i x] mem by (auto simp: m1_def)
      then show "i = request_id (st x) \<and> status (st1 x) \<in> {COMPLETED, FAILED}"
        using x queue_invD(6,7) [OF Suc.prems(1), of i x] by (simp add: st1_def m1_def)
    next
      fix x assume "x \<in> set (pending_queue m1)"
      then show "status (st1 x) \<in> {PENDING, PREEMPTED}"
        using d mem queue_invD(3) [OF Suc.prems(1), of x] by (auto simp: st1_def m1_def)
    qed simp_all
    have "pop_requests (Suc n) clock i st m =
      (let (rs, st2, m2) = pop_requests n clock (i + 1) st1 m1 in (r # rs, st2, m2))"
      using False by (simp add: pop st1_def m1_def)
    then have "fst (snd (pop_requests n clock (i + 1) st1 m1)) = st'" "snd (snd (pop_requests n clock (i + 1) st1 m1)) = m'"
      using Suc.prems(2,3) by (auto split: prod.splits)
    from Suc.IH [OF inv1 this] show ?thesis
      using refs1 by (auto simp: m1_def st1_def dest: mset_eq_length mset_eq_setD)
  qed (use Suc.prems in auto)
qed auto

end
