(* ===== verification/Batching.thy ===== *)
theory Batching
  imports Requests "HOL-Library.Sublist"
begin

text \<open>
  Batches (\<open>44-autoregressive-inference/src/autoregressive_inference/batching.py\<close>): which requests
  the next step works on, the scheduling policies, and the padded inputs of a batch. A tensor of
  token numbers is the list of its rows. The two fields of \<open>ContinuousBatcher\<close> that hold the current
  batches are set by the constructor only.
\<close>

section \<open>Forming batches\<close>

record batcher =
  max_batch_size :: int
  max_prefill_tokens :: int
  max_decode_tokens :: int
  prefill_batch :: "nat list"
  decode_batch :: "nat list"

definition batcher_init :: "int \<Rightarrow> int \<Rightarrow> int \<Rightarrow> batcher" where
  "batcher_init s p d = \<lparr>max_batch_size = s, max_prefill_tokens = p, max_decode_tokens = d,
     prefill_batch = [], decode_batch = []\<rparr>"

abbreviation prompt_len :: "store \<Rightarrow> nat \<Rightarrow> int" where
  "prompt_len st r \<equiv> int (length (prompt_token_ids (st r)))"

definition decoding :: "store \<Rightarrow> nat list \<Rightarrow> nat list" where
  "decoding st running = filter (\<lambda>r. status (st r) = RUNNING_DECODE) running"

text \<open>The loop of \<open>form_batches\<close>, with the batch and the number of tokens so far.\<close>

fun fill_prefill :: "store \<Rightarrow> int \<Rightarrow> int \<Rightarrow> nat list \<Rightarrow> nat list \<Rightarrow> nat list \<Rightarrow> int \<Rightarrow> nat list" where
  "fill_prefill st remaining_capacity max_size decode [] batch tokens = batch"
| "fill_prefill st remaining_capacity max_size decode (r # rs) batch tokens =
     (if tokens + prompt_len st r \<le> remaining_capacity \<and>
         int (length batch) + int (length decode) < max_size
      then fill_prefill st remaining_capacity max_size decode rs (batch @ [r]) (tokens + prompt_len st r)
      else fill_prefill st remaining_capacity max_size decode rs batch tokens)"

definition form_batches :: "batcher \<Rightarrow> store \<Rightarrow> nat list \<Rightarrow> nat list \<Rightarrow> nat list \<times> nat list" where
  "form_batches b st pending running =
     (let decode = decoding st running;
          decode = (if max_batch_size b < int (length decode) then py_take (max_batch_size b) decode else decode);
          remaining_capacity = max_prefill_tokens b - int (length decode)
      in (fill_prefill st remaining_capacity (max_batch_size b) decode pending [] 0, decode))"

definition can_add_request :: "batcher \<Rightarrow> store \<Rightarrow> nat \<Rightarrow> int \<Rightarrow> int \<Rightarrow> bool" where
  "can_add_request b st r current_batch_size current_tokens \<longleftrightarrow>
     current_batch_size < max_batch_size b \<and> current_tokens + prompt_len st r \<le> max_prefill_tokens b"

definition estimate_batch_time :: "store \<Rightarrow> nat list \<Rightarrow> nat list \<Rightarrow> real \<Rightarrow> py_error + real" where
  "estimate_batch_time st prefill decode tokens_per_second =
     (let total = sum_list (map (prompt_len st) prefill) * 2 + int (length decode) in
      if tokens_per_second = 0 then Inl ZeroDivisionError else Inr (real_of_int total / tokens_per_second))"

record batch_stats =
  prefill_requests_count :: nat
  decode_requests_count :: nat
  total_requests_count :: nat
  prefill_tokens_count :: int
  decode_tokens_count :: nat
  total_tokens_count :: int
  batch_utilization :: real

definition get_batch_stats :: "batcher \<Rightarrow> store \<Rightarrow> nat list \<Rightarrow> nat list \<Rightarrow> py_error + batch_stats" where
  "get_batch_stats b st prefill decode =
     (let toks = sum_list (map (prompt_len st) prefill) in
      if max_batch_size b = 0 then Inl ZeroDivisionError
      else Inr \<lparr>prefill_requests_count = length prefill, decode_requests_count = length decode,
        total_requests_count = length prefill + length decode, prefill_tokens_count = toks,
        decode_tokens_count = length decode, total_tokens_count = toks + int (length decode),
        batch_utilization = real (length prefill + length decode) / real_of_int (max_batch_size b)\<rparr>)"

section \<open>The inputs of a batch\<close>

record batched_inputs =
  prefill_requests :: "inference_request list"
  decode_requests :: "inference_request list"

definition merge_for_execution :: "store \<Rightarrow> nat list \<Rightarrow> nat list \<Rightarrow> batched_inputs" where
  "merge_for_execution st prefill decode = \<lparr>prefill_requests = map st prefill, decode_requests = map st decode\<rparr>"

text \<open>The token a decoding request feeds: its last output, or the last token of its prompt.\<close>

definition decode_token :: "inference_request \<Rightarrow> py_error + int" where
  "decode_token q =
     (if output_token_ids q \<noteq> [] then Inr (last (output_token_ids q))
      else if prompt_token_ids q \<noteq> [] then Inr (last (prompt_token_ids q)) else Inl IndexError)"

fun decode_rows :: "inference_request list \<Rightarrow> py_error + int list list" where
  "decode_rows [] = Inr []"
| "decode_rows (q # qs) =
     (case decode_token q of
        Inl e \<Rightarrow> Inl e
      | Inr t \<Rightarrow> (case decode_rows qs of Inl e \<Rightarrow> Inl e | Inr rows \<Rightarrow> Inr ([t] # rows)))"

text \<open>
  \<open>padded = zeros(len(rows), max_len)\<close> with \<open>padded[i, :len(ids)] = ids\<close>; no rows give an empty tensor.
\<close>

definition padded :: "int list list \<Rightarrow> int list list" where
  "padded rows =
     (if rows = [] then []
      else let max_len = Max (set (map length rows)) in map (\<lambda>r. r @ replicate (max_len - length r) 0) rows)"

definition get_input_ids :: "batched_inputs \<Rightarrow> py_error + int list list" where
  "get_input_ids b =
     (case decode_rows (decode_requests b) of
        Inl e \<Rightarrow> Inl e
      | Inr rows \<Rightarrow> Inr (padded (map prompt_token_ids (prefill_requests b) @ rows)))"

definition get_position_ids :: "batched_inputs \<Rightarrow> int list list" where
  "get_position_ids b =
     padded (map (\<lambda>q. map int [0..<length (prompt_token_ids q)]) (prefill_requests b) @
             map (\<lambda>q. [int (length (prompt_token_ids q)) + int (length (output_token_ids q))]) (decode_requests b))"

definition get_sequence_lengths :: "batched_inputs \<Rightarrow> nat list" where
  "get_sequence_lengths b =
     map (\<lambda>q. length (prompt_token_ids q)) (prefill_requests b) @ map (\<lambda>_. 1) (decode_requests b)"

definition get_attention_mask :: "batched_inputs \<Rightarrow> int list list" where
  "get_attention_mask b =
     (let lengths = map (\<lambda>q. length (prompt_token_ids q)) (prefill_requests b) @ map (\<lambda>_. 1) (decode_requests b) in
      if lengths = [] then []
      else let max_len = Max (set lengths) in
        map (\<lambda>n. replicate n 1 @ replicate (max_len - n) 0) lengths)"

definition get_request_ids :: "batched_inputs \<Rightarrow> string list" where
  "get_request_ids b = map request_id (prefill_requests b) @ map request_id (decode_requests b)"

definition batch_size :: "batched_inputs \<Rightarrow> nat" where
  "batch_size b = length (prefill_requests b) + length (decode_requests b)"

definition num_prefill :: "batched_inputs \<Rightarrow> nat" where
  "num_prefill b = length (prefill_requests b)"

definition num_decode :: "batched_inputs \<Rightarrow> nat" where
  "num_decode b = length (decode_requests b)"

definition total_prefill_tokens :: "batched_inputs \<Rightarrow> nat" where
  "total_prefill_tokens b = sum_list (map (\<lambda>q. length (prompt_token_ids q)) (prefill_requests b))"

definition is_empty_batch :: "batched_inputs \<Rightarrow> bool" where
  "is_empty_batch b \<longleftrightarrow> batch_size b = 0"

section \<open>Scheduling policies\<close>

text \<open>The loop of the three policies, over the pending requests in the order of the policy.\<close>

fun select_loop :: "store \<Rightarrow> int \<Rightarrow> int \<Rightarrow> nat list \<Rightarrow> nat list \<Rightarrow> int \<Rightarrow> nat list" where
  "select_loop st remaining_slots remaining_tokens [] prefill tokens = prefill"
| "select_loop st remaining_slots remaining_tokens (r # rs) prefill tokens =
     (if int (length prefill) < remaining_slots \<and> tokens + prompt_len st r \<le> remaining_tokens
      then select_loop st remaining_slots remaining_tokens rs (prefill @ [r]) (tokens + prompt_len st r)
      else select_loop st remaining_slots remaining_tokens rs prefill tokens)"

definition fifo_select :: "store \<Rightarrow> nat list \<Rightarrow> nat list \<Rightarrow> int \<Rightarrow> int \<Rightarrow> nat list \<times> nat list" where
  "fifo_select st pending running max_size max_toks =
     (let decode = py_take max_size (decoding st running) in
      (select_loop st (max_size - int (length decode)) (max_toks - int (length decode))
         (sort_key (\<lambda>r. arrival_time (st r)) pending) [] 0, decode))"

definition priority_select :: "store \<Rightarrow> nat list \<Rightarrow> nat list \<Rightarrow> int \<Rightarrow> int \<Rightarrow> nat list \<times> nat list" where
  "priority_select st pending running max_size max_toks =
     (let decode = py_take max_size (decoding st running) in
      (select_loop st (max_size - int (length decode)) (max_toks - int (length decode))
         (sort_key (\<lambda>r. request_key (st r)) pending) [] 0, decode))"

definition sjf_select :: "store \<Rightarrow> nat list \<Rightarrow> nat list \<Rightarrow> int \<Rightarrow> int \<Rightarrow> nat list \<times> nat list" where
  "sjf_select st pending running max_size max_toks =
     (let decode = py_take max_size (decoding st running) in
      (select_loop st (max_size - int (length decode)) (max_toks - int (length decode))
         (sort_key (\<lambda>r. length (prompt_token_ids (st r))) pending) [] 0, decode))"

section \<open>The loops\<close>

lemma fill_prefill_select:
  "fill_prefill st cap ms decode rs batch tokens =
    select_loop st (ms - int (length decode)) cap rs batch tokens"
proof (induction rs arbitrary: batch tokens)
  case (Cons r rs)
  have "int (length batch) + int (length decode) < ms \<longleftrightarrow> int (length batch) < ms - int (length decode)"
    by linarith
  then show ?case using Cons.IH by auto
qed simp

abbreviation batch_tokens :: "store \<Rightarrow> nat list \<Rightarrow> int" where
  "batch_tokens st rs \<equiv> sum_list (map (prompt_len st) rs)"

text \<open>
  What the loop selects: a subsequence within the slots and the tokens, from which nothing is left
  out that would still fit.
\<close>

lemma select_loop_spec:
  "batch_tokens st batch = tokens \<Longrightarrow>
   \<exists>new. select_loop st slots cap rs batch tokens = batch @ new \<and> subseq new rs \<and>
     (new \<noteq> [] \<longrightarrow> int (length (batch @ new)) \<le> slots \<and> batch_tokens st (batch @ new) \<le> cap) \<and>
     (\<forall>r\<in>set rs. r \<in> set new \<or> slots \<le> int (length (batch @ new)) \<or> cap < batch_tokens st (batch @ new) + prompt_len st r)"
proof (induction rs arbitrary: batch tokens)
  case (Cons r rs)
  show ?case
  proof (cases "int (length batch) < slots \<and> tokens + prompt_len st r \<le> cap")
    case True
    obtain new where new: "select_loop st slots cap rs (batch @ [r]) (tokens + prompt_len st r) = (batch @ [r]) @ new"
      "subseq new rs" "new \<noteq> [] \<longrightarrow> int (length ((batch @ [r]) @ new)) \<le> slots \<and> batch_tokens st ((batch @ [r]) @ new) \<le> cap"
      "\<forall>x\<in>set rs. x \<in> set new \<or> slots \<le> int (length ((batch @ [r]) @ new)) \<or> cap < batch_tokens st ((batch @ [r]) @ new) + prompt_len st x"
      using Cons.IH [of "batch @ [r]" "tokens + prompt_len st r"] Cons.prems by auto
    show ?thesis
      using new True Cons.prems by (intro exI [of _ "r # new"]) (cases "new = []", auto)
  next
    case False
    obtain new where new: "select_loop st slots cap rs batch tokens = batch @ new"
      "subseq new rs" "new \<noteq> [] \<longrightarrow> int (length (batch @ new)) \<le> slots \<and> batch_tokens st (batch @ new) \<le> cap"
      "\<forall>x\<in>set rs. x \<in> set new \<or> slots \<le> int (length (batch @ new)) \<or> cap < batch_tokens st (batch @ new) + prompt_len st x"
      using Cons.IH [OF Cons.prems] by auto
    have "0 \<le> batch_tokens st new" by (rule sum_list_nonneg) auto
    then have "slots \<le> int (length (batch @ new)) \<or> cap < batch_tokens st (batch @ new) + prompt_len st r"
      using False Cons.prems by auto
    then show ?thesis
      using new False by (intro exI [of _ new]) auto
  qed
qed auto

end
