(* ===== verification/Request_Life.thy ===== *)
theory Request_Life
  imports Requests
begin

text \<open>
  The life of requests under the request manager, as the runs of a step relation: a request is in
  one place at a time, with a status that says which, none is lost, and the queue serves them by
  priority and arrival.
\<close>

lemma running_other:
  assumes inv: "queue_inv st m" and ab: "running_requests m = a @ (i, r) # b" and x: "(j, x) \<in> set (a @ b)"
  shows "x \<noteq> r"
proof
  assume "x = r"
  have "(j, x) \<in> set (running_requests m)" "(i, r) \<in> set (running_requests m)" using x ab by auto
  then have "j = i" using queue_invD(4) [OF inv] \<open>x = r\<close> by metis
  moreover have "i \<notin> fst ` set (a @ b)" using running_keys_distinct [OF inv] ab by (simp add: image_Un)
  ultimately show False using image_eqI [OF _ x, of j fst] by simp
qed

lemma running_key_not_completed:
  assumes "queue_inv st m" and "(i, r) \<in> set (running_requests m)"
  shows "i \<notin> keys_of (completed_requests m)"
proof
  assume "i \<in> keys_of (completed_requests m)"
  then obtain x where x: "(i, x) \<in> set (completed_requests m)" by (auto simp: keys_of_def)
  show False
    using ids_disjoint(3) [OF assms x] queue_invD(4) [OF assms] queue_invD(6) [OF assms(1) x] by simp
qed

lemma finish_request_inv:
  assumes inv: "queue_inv st m" and s: "s \<in> {COMPLETED, FAILED}"
    and f: "finish_request s i now st m = (res, st', m')"
  shows "queue_inv st' m' \<and> mset (refs m') = mset (refs m) \<and> total_requests m' = total_requests m \<and>
    (\<forall>x. request_id (st' x) = request_id (st x))"
proof (cases "map_of (running_requests m) i")
  case None
  then show ?thesis using f inv by (auto simp: finish_request_def)
next
  case (Some r)
  obtain a b where ab: "running_requests m = a @ (i, r) # b" "AList.delete i (running_requests m) = a @ b"
    using delete_split [OF running_keys_distinct [OF inv] Some] .
  have r: "(i, r) \<in> set (running_requests m)" using ab by simp
  have st': "st' = st(r := (st r)\<lparr>status := s, end_time := Some now\<rparr>)"
    and m': "m' = m\<lparr>running_requests := a @ b, completed_requests := AList.update i r (completed_requests m)\<rparr>"
    using f Some ab by (auto simp: finish_request_def)
  have comp: "completed_requests m' = completed_requests m @ [(i, r)]"
    using running_key_not_completed [OF inv r] by (simp add: m' update_new_key)
  have refs': "mset (refs m') = mset (refs m)" using comp ab by (simp add: refs_def m')
  note nr = running_other [OF inv ab(1)]
  have "queue_inv st' m'"
  proof (rule queue_inv_move [OF inv st' _ _ refs'])
    show "lt_order.heap (ref_lt st) (pending_queue m')" using queue_invD(1) [OF inv] by (simp add: m')
  next
    fix j x assume x: "(j, x) \<in> set (running_requests m')"
    then show "j = request_id (st x) \<and> status (st' x) \<in> {RUNNING_PREFILL, RUNNING_DECODE}"
      using nr [of j x] queue_invD(4,5) [OF inv, of j x] ab by (auto simp: m' st')
  next
    fix j x assume "(j, x) \<in> set (completed_requests m')"
    then show "j = request_id (st x) \<and> status (st' x) \<in> {COMPLETED, FAILED}"
      using comp queue_invD(6,7) [OF inv, of j x] queue_invD(4) [OF inv r] s by (auto simp: st')
  next
    fix x assume x: "x \<in> set (pending_queue m')"
    then have "x \<noteq> r" using ids_disjoint(1) [OF inv _ r, of x] by (auto simp: m')
    then show "status (st' x) \<in> {PENDING, PREEMPTED}" using x queue_invD(3) [OF inv, of x] by (simp add: m' st')
  qed simp_all
  then show ?thesis using refs' by (simp add: m' st')
qed

lemma preempt_request_inv:
  assumes inv: "queue_inv st m" and f: "preempt_request i st m = (res, st', m')"
  shows "queue_inv st' m' \<and> mset (refs m') = mset (refs m) \<and> total_requests m' = total_requests m \<and>
    (\<forall>x. request_id (st' x) = request_id (st x))"
proof (cases "map_of (running_requests m) i")
  case None
  then show ?thesis using f inv by (auto simp: preempt_request_def)
next
  case (Some r)
  obtain a b where ab: "running_requests m = a @ (i, r) # b" "AList.delete i (running_requests m) = a @ b"
    using delete_split [OF running_keys_distinct [OF inv] Some] .
  have r: "(i, r) \<in> set (running_requests m)" using ab by simp
  have st': "st' = st(r := (st r)\<lparr>status := PREEMPTED\<rparr>)" using f Some by (auto simp: preempt_request_def Let_def)
  have lt: "ref_lt st' = ref_lt st" by (rule ref_lt_cong) (simp add: st')
  have m': "m' = m\<lparr>running_requests := a @ b, pending_queue := heappush (ref_lt st) (pending_queue m) r\<rparr>"
    using f Some ab lt by (auto simp: preempt_request_def Let_def st')
  have refs': "mset (refs m') = mset (refs m)" using ab by (simp add: refs_def m')
  note nr = running_other [OF inv ab(1)]
  have "queue_inv st' m'"
  proof (rule queue_inv_move [OF inv st' _ _ refs'])
    show "lt_order.heap (ref_lt st) (pending_queue m')"
      using request_order.heap_heappush [OF queue_invD(1) [OF inv]] by (simp add: m')
  next
    fix j x assume x: "(j, x) \<in> set (running_requests m')"
    then show "j = request_id (st x) \<and> status (st' x) \<in> {RUNNING_PREFILL, RUNNING_DECODE}"
      using nr [of j x] queue_invD(4,5) [OF inv, of j x] ab by (auto simp: m' st')
  next
    fix j x assume x: "(j, x) \<in> set (completed_requests m')"
    then have "x \<noteq> r" using ids_disjoint(3) [OF inv r, of j x] by (auto simp: m')
    then show "j = request_id (st x) \<and> status (st' x) \<in> {COMPLETED, FAILED}"
      using x queue_invD(6,7) [OF inv, of j x] by (simp add: m' st')
  next
    fix x assume x: "x \<in> set (pending_queue m')"
    then show "status (st' x) \<in> {PENDING, PREEMPTED}" using queue_invD(3) [OF inv, of x] by (auto simp: m' st')
  qed simp_all
  then show ?thesis using refs' by (simp add: m' st')
qed

lemma fold_delete: "fold AList.delete ks d = filter (\<lambda>(k, v). k \<notin> set ks) d"
proof (induction ks arbitrary: d)
  case (Cons k ks)
  have "filter (\<lambda>(k', v). k' \<notin> set ks) (AList.delete k d) = filter (\<lambda>(k', v). k' \<notin> set (k # ks)) d"
    unfolding AList.delete_eq filter_filter by (rule filter_cong) auto
  then show ?case using Cons.IH [of "AList.delete k d"] by simp
qed (simp add: filter_True)

lemma clear_completed_result:
  assumes "distinct (map fst (completed_requests m))" and "clear_completed t st m = (n, m')"
  shows "\<exists>p. m' = m\<lparr>completed_requests := filter p (completed_requests m)\<rparr> \<and>
    n + length (completed_requests m') = length (completed_requests m)"
proof (cases t)
  case None
  then show ?thesis using assms(2) by (intro exI [of _ "\<lambda>_. False"]) (auto simp: clear_completed_def)
next
  case (Some u)
  let ?d = "completed_requests m" and ?q = "\<lambda>(_ :: string, r). ended_before u (st r)"
  have same: "k \<in> set (map fst (filter ?q ?d)) \<longleftrightarrow> ?q (k, v)" if "(k, v) \<in> set ?d" for k v
  proof
    assume "k \<in> set (map fst (filter ?q ?d))"
    then obtain w where "(k, w) \<in> set ?d" "?q (k, w)" by auto
    then show "?q (k, v)" using eq_key_imp_eq_value [OF assms(1) that] by blast
  next
    assume "?q (k, v)"
    then show "k \<in> set (map fst (filter ?q ?d))" using that by (force intro: image_eqI [of _ fst "(k, v)"])
  qed
  have "filter (\<lambda>(k, v). k \<notin> set (map fst (filter ?q ?d))) ?d = filter (\<lambda>x. \<not> ?q x) ?d"
    using same by (intro filter_cong) auto
  then have "m' = m\<lparr>completed_requests := filter (\<lambda>x. \<not> ?q x) ?d\<rparr>" "n = length (filter ?q ?d)"
    using assms(2) Some by (auto simp: clear_completed_def fold_delete Let_def)
  moreover have "length (filter ?q ?d) + length (filter (\<lambda>x. \<not> ?q x) ?d) = length ?d"
    by (rule sum_length_filter_compl)
  ultimately show ?thesis by (intro exI [of _ "\<lambda>x. \<not> ?q x"]) simp
qed

lemma clear_completed_inv:
  assumes inv: "queue_inv st m" and c: "clear_completed t st m = (n, m')"
  shows "queue_inv st m' \<and> n + length (refs m') = length (refs m) \<and> total_requests m' = total_requests m \<and>
    set (refs m') \<subseteq> set (refs m)"
proof -
  have keys: "distinct (map fst (completed_requests m))"
  proof -
    have "map fst (completed_requests m) = ids st (map snd (completed_requests m))"
      using queue_invD(6) [OF inv] by auto
    then show ?thesis using queue_invD(2) [OF inv] unfolding refs_def by (simp only: map_append distinct_append)
  qed
  obtain p where m': "m' = m\<lparr>completed_requests := filter p (completed_requests m)\<rparr>"
    "n + length (completed_requests m') = length (completed_requests m)"
    using clear_completed_result [OF keys c] by blast
  have "distinct (ids st (refs m'))"
    using queue_invD(2) [OF inv] distinct_map_filter [of "\<lambda>x. request_id (st (snd x))" "completed_requests m" p]
    by (auto simp: refs_def m'(1) comp_def)
  then show ?thesis using inv m' by (auto simp: queue_inv_def refs_def)
qed

section \<open>Runs\<close>

text \<open>
  The states that calls on the manager reach, with the number of requests cleared so far. A caller
  creates request objects (any object the manager does not hold), and adds a request that is
  pending and whose identifier is not in use. The scheduler works on running requests: it writes
  their objects (\<open>_execute_prefill\<close> sets the status to \<open>RUNNING_DECODE\<close>, decoding appends tokens), but
  not their identifier, priority or arrival time, and leaves them running.
\<close>

inductive life :: "int \<Rightarrow> nat \<Rightarrow> store \<Rightarrow> request_manager \<Rightarrow> bool" for qs :: int where
  start: "life qs 0 st (manager_init qs)"
| create: "life qs c st m \<Longrightarrow> r \<notin> set (refs m) \<Longrightarrow> life qs c (st(r := q)) m"
| add: "life qs c st m \<Longrightarrow> status (st r) = PENDING \<Longrightarrow> request_id (st r) \<notin> set (ids st (refs m)) \<Longrightarrow>
    life qs c st (snd (add_request r st m))"
| get_next: "life qs c st m \<Longrightarrow> get_next_requests k clock st m = (rs, st', m') \<Longrightarrow> life qs c st' m'"
| work: "life qs c st m \<Longrightarrow> (i, r) \<in> set (running_requests m) \<Longrightarrow>
    request_id q = request_id (st r) \<Longrightarrow> request_key q = request_key (st r) \<Longrightarrow>
    status q \<in> {RUNNING_PREFILL, RUNNING_DECODE} \<Longrightarrow> life qs c (st(r := q)) m"
| complete: "life qs c st m \<Longrightarrow> complete_request i now st m = (res, st', m') \<Longrightarrow> life qs c st' m'"
| fail: "life qs c st m \<Longrightarrow> fail_request i now st m = (res, st', m') \<Longrightarrow> life qs c st' m'"
| preempt: "life qs c st m \<Longrightarrow> preempt_request i st m = (res, st', m') \<Longrightarrow> life qs c st' m'"
| clear: "life qs c st m \<Longrightarrow> clear_completed t st m = (n, m') \<Longrightarrow> life qs (c + n) st m'"

lemma queue_inv_create:
  assumes "queue_inv st m" and "r \<notin> set (refs m)"
  shows "queue_inv (st(r := q)) m"
proof -
  have r: "r \<notin> set (pending_queue m)" "\<And>i. (i, r) \<notin> set (running_requests m)" "\<And>i. (i, r) \<notin> set (completed_requests m)"
    using assms(2) by (force simp: refs_def)+
  have "ids (st(r := q)) (refs m) = ids st (refs m)" using assms(2) by auto
  then have "distinct (ids (st(r := q)) (refs m))" using queue_invD(2) [OF assms(1)] by (simp only:)
  moreover have "lt_order.heap_ok (ref_lt (st(r := q))) (pending_queue m) j = lt_order.heap_ok (ref_lt st) (pending_queue m) j"
    if "j < length (pending_queue m)" for j
  proof -
    have "pending_queue m ! j \<noteq> r" "pending_queue m ! ((j - 1) div 2) \<noteq> r"
      using r(1) that nth_mem [of j "pending_queue m"] nth_mem [of "(j - 1) div 2" "pending_queue m"] by auto
    then show ?thesis by (simp add: request_order.heap_ok_def)
  qed
  moreover have "queue_heap st m" by (rule queue_invD(1) [OF assms(1)])
  moreover have "status ((st(r := q)) x) \<in> {PENDING, PREEMPTED}" if "x \<in> set (pending_queue m)" for x
    using that r(1) queue_invD(3) [OF assms(1) that] by (cases "x = r") simp_all
  moreover have "i = request_id ((st(r := q)) x) \<and> status ((st(r := q)) x) \<in> {RUNNING_PREFILL, RUNNING_DECODE}"
    if "(i, x) \<in> set (running_requests m)" for i x
    using that r(2) queue_invD(4,5) [OF assms(1) that] by (cases "x = r") simp_all
  moreover have "i = request_id ((st(r := q)) x) \<and> status ((st(r := q)) x) \<in> {COMPLETED, FAILED}"
    if "(i, x) \<in> set (completed_requests m)" for i x
    using that r(3) queue_invD(6,7) [OF assms(1) that] by (cases "x = r") simp_all
  ultimately show ?thesis
    unfolding queue_inv_def request_order.heap_def by (intro conjI ballI allI impI) simp_all
qed

lemma queue_inv_work:
  assumes inv: "queue_inv st m" and r: "(i, r) \<in> set (running_requests m)"
    and q: "request_id q = request_id (st r)" "request_key q = request_key (st r)"
      "status q \<in> {RUNNING_PREFILL, RUNNING_DECODE}"
  shows "queue_inv (st(r := q)) m"
proof (rule queue_inv_move [OF inv refl q(1,2) refl queue_invD(1) [OF inv]])
  fix j x
  show "(j, x) \<in> set (running_requests m) \<Longrightarrow>
      j = request_id (st x) \<and> status ((st(r := q)) x) \<in> {RUNNING_PREFILL, RUNNING_DECODE}"
    using queue_invD(4,5) [OF inv, of j x] q(3) by auto
  show "(j, x) \<in> set (completed_requests m) \<Longrightarrow>
      j = request_id (st x) \<and> status ((st(r := q)) x) \<in> {COMPLETED, FAILED}"
    using queue_invD(6,7) [OF inv, of j x] ids_disjoint(3) [OF inv r, of j x] by auto
  show "x \<in> set (pending_queue m) \<Longrightarrow> status ((st(r := q)) x) \<in> {PENDING, PREEMPTED}"
    using queue_invD(3) [OF inv, of x] ids_disjoint(1) [OF inv _ r, of x] by auto
qed

lemma life_inv: "life qs c st m \<Longrightarrow> queue_inv st m \<and> total_requests m = int (c + length (refs m))"
proof (induction rule: life.induct)
  case (start st)
  then show ?case using queue_init_inv by (simp add: manager_init_def refs_def)
next
  case (create c st m r q)
  then show ?case using queue_inv_create by blast
next
  case (add c st m r)
  then show ?case
    using add_request_inv [of st m r] by (auto simp: add_request_def refs_def)
next
  case (get_next c st m k clock rs st' m')
  then show ?case using pop_requests_inv [of st m "nat k" clock 0 st' m'] by (simp add: get_next_requests_def)
next
  case (work c st m i r q)
  then show ?case using queue_inv_work by blast
next
  case (complete c st m i now res st' m')
  then show ?case using finish_request_inv [of st m COMPLETED i now res st' m']
    by (auto simp: complete_request_def dest: mset_eq_length)
next
  case (fail c st m i now res st' m')
  then show ?case using finish_request_inv [of st m FAILED i now res st' m']
    by (auto simp: fail_request_def dest: mset_eq_length)
next
  case (preempt c st m i res st' m')
  then show ?case using preempt_request_inv [of st m i res st' m'] by (auto dest: mset_eq_length)
next
  case (clear c st m t n m')
  then show ?case using clear_completed_inv [of st m t n m'] by auto
qed

section \<open>What a caller can rely on\<close>

lemma get_request_found:
  assumes inv: "queue_inv st m" and r: "r \<in> set (refs m)"
  shows "get_request (request_id (st r)) st m = Some r"
proof -
  let ?i = "request_id (st r)"
  have run: "map_of (running_requests m) ?i = Some x \<Longrightarrow> (?i, x) \<in> set (running_requests m)" for x
    by (rule map_of_SomeD)
  have comp: "map_of (completed_requests m) ?i = Some x \<Longrightarrow> (?i, x) \<in> set (completed_requests m)" for x
    by (rule map_of_SomeD)
  have inj: "inj_on (\<lambda>r. request_id (st r)) (set (refs m))" using queue_invD(2) [OF inv] by (simp add: distinct_map)
  have same: "x = r" if "(?i, x) \<in> set (running_requests m) \<or> (?i, x) \<in> set (completed_requests m)" for x
  proof -
    have "x \<in> set (refs m)" using that by (auto simp: refs_def intro: image_eqI [of _ snd "(?i, x)"])
    moreover have "request_id (st x) = ?i" using that queue_invD(4,6) [OF inv, of ?i x] by auto
    ultimately show ?thesis using inj r by (auto dest: inj_onD)
  qed
  show ?thesis
  proof (cases "?i \<in> keys_of (running_requests m) \<or> ?i \<in> keys_of (completed_requests m)")
    case True
    then show ?thesis
      using run comp same by (auto simp: get_request_def keys_of_iff split: option.splits)
  next
    case False
    then have none: "map_of (running_requests m) ?i = None" "map_of (completed_requests m) ?i = None"
      by (simp_all add: map_of_eq_None_keys)
    have "r \<in> set (pending_queue m)"
      using r False queue_invD(4,6) [OF inv] by (auto simp: refs_def keys_of_def) (metis fst_conv image_eqI)+
    then obtain x where x: "find (\<lambda>x. request_id (st x) = ?i) (pending_queue m) = Some x"
      by (cases "find (\<lambda>x. request_id (st x) = ?i) (pending_queue m)") (auto simp: find_None_iff_set)
    then have "request_id (st x) = ?i" "x \<in> set (refs m)" by (auto simp: refs_def dest: find_SomeD)
    then have "x = r" using inj r by (auto dest: inj_onD)
    then show ?thesis using none x by (simp add: get_request_def)
  qed
qed

text \<open>
  C9: the life of requests. At every time, the manager holds a request in exactly one of the queue,
  the running and the completed requests, and its status tells which; the counters account for
  every request ever accepted (pending, running, completed or cleared); and every request it holds
  is found under its identifier.
\<close>

theorem request_lifecycle:
  assumes "life qs cleared st m"
  shows "distinct (refs m) \<and>
    (\<forall>r\<in>set (pending_queue m). status (st r) \<in> {PENDING, PREEMPTED}) \<and>
    (\<forall>r\<in>set (get_running_requests m). status (st r) \<in> {RUNNING_PREFILL, RUNNING_DECODE}) \<and>
    (\<forall>(i, r)\<in>set (completed_requests m). status (st r) \<in> {COMPLETED, FAILED}) \<and>
    total_count (get_stats m) =
      int (cleared + pending_count (get_stats m) + running_count (get_stats m) + completed_count (get_stats m)) \<and>
    (\<forall>r\<in>set (refs m). get_request (request_id (st r)) st m = Some r)"
proof -
  have inv: "queue_inv st m" and tot: "total_requests m = int (cleared + length (refs m))"
    using life_inv [OF assms] by auto
  have "distinct (refs m)" using queue_invD(2) [OF inv] by (simp add: distinct_map)
  moreover have "status (st r) \<in> {RUNNING_PREFILL, RUNNING_DECODE}" if r: "r \<in> set (get_running_requests m)" for r
  proof -
    obtain i where "(i, r) \<in> set (running_requests m)" using r by (auto simp: get_running_requests_def)
    then show ?thesis by (rule queue_invD(5) [OF inv])
  qed
  moreover have "\<forall>(i, r)\<in>set (completed_requests m). status (st r) \<in> {COMPLETED, FAILED}"
    using queue_invD(7) [OF inv] by blast
  moreover have "total_count (get_stats m) =
      int (cleared + pending_count (get_stats m) + running_count (get_stats m) + completed_count (get_stats m))"
    using tot by (simp add: get_stats_def refs_def)
  ultimately show ?thesis
    using queue_invD(3) [OF inv] get_request_found [OF inv] by (intro conjI ballI) blast+
qed

text \<open>A request \<open>''a''\<close> that is added and taken from the queue.\<close>

definition ex_store :: store where
  "ex_store = (\<lambda>r. new_request ''a'' ''hi'' [1, 2] (default_params\<lparr>max_tokens := 2\<rparr>) NORMAL 0)"

lemma ex_life: "life 3 0 ex_store (snd (add_request 0 ex_store (manager_init 3)))"
  by (intro life.add life.start) (simp_all add: ex_store_def new_request_def refs_def manager_init_def)

theorem request_lifecycle_witness:
  "\<exists>m. life 3 0 ex_store m \<and> pending_queue m = [0] \<and> get_request ''a'' ex_store m = Some 0"
proof -
  let ?m = "snd (add_request 0 ex_store (manager_init 3))"
  have p: "pending_queue ?m = [0]" by code_simp
  then have "get_request (request_id (ex_store 0)) ex_store ?m = Some 0"
    using request_lifecycle [OF ex_life] by (simp add: refs_def)
  then show ?thesis using p ex_life by (intro exI [of _ ?m]) (simp add: ex_store_def new_request_def)
qed

lemma map_sort_key: "map f (sort_key f xs) = sort (map f xs)"
  by (rule properties_for_sort [symmetric]) simp_all

text \<open>
  C31: the queue serves by priority and then by arrival: the requests that \<open>get_next_requests\<close>
  takes from the heap have, position by position, the priorities and arrival times of the first
  requests of the sorted queue, which is what \<open>peek_pending\<close> announces.
\<close>

theorem next_requests_as_peeked:
  assumes "life qs cleared st m"
  shows "map (\<lambda>r. request_key (st r)) (fst (get_next_requests (int n) clock st m)) =
      take n (sort (map (\<lambda>r. request_key (st r)) (pending_queue m))) \<and>
    map (\<lambda>r. request_key (st r)) (peek_pending (int n) st m) =
      map (\<lambda>r. request_key (st r)) (fst (get_next_requests (int n) clock st m))"
proof -
  have "queue_heap st m" using life_inv [OF assms] queue_invD(1) by blast
  then have "map (\<lambda>r. request_key (st r)) (fst (get_next_requests (int n) clock st m)) =
      take n (sort (map (\<lambda>r. request_key (st r)) (pending_queue m)))"
    using pop_requests_keys by (simp add: get_next_requests_def)
  then show ?thesis by (simp add: peek_pending_def take_map [symmetric] map_sort_key)
qed

theorem next_requests_as_peeked_witness:
  "map (\<lambda>r. request_key (ex_store r))
     (fst (get_next_requests (int 2) (\<lambda>_. 0) ex_store (snd (add_request 0 ex_store (manager_init 3))))) =
   [(- 1, 0)]"
proof -
  have "pending_queue (snd (add_request 0 ex_store (manager_init 3))) = [0]" by code_simp
  then show ?thesis
    using next_requests_as_peeked [OF ex_life, of 2 "\<lambda>_. 0"]
    by (simp add: ex_store_def new_request_def request_key_def)
qed

text \<open>
  The limit on the queue is not a limit. \<open>add_request\<close> refuses a request when the queue holds
  \<open>max_queue_size\<close> requests, but a preempted request is always put back: preempting when the queue is
  full leaves it longer than its maximum.
\<close>

theorem preempt_exceeds_queue_limit:
  assumes "int (length (pending_queue m)) = max_queue_size m" and "map_of (running_requests m) i = Some r"
  shows "fst (add_request x st m) = False \<and>
    (let m' = snd (snd (preempt_request i st m)) in
     int (length (pending_queue m')) = max_queue_size m' + 1)"
  using assms by (simp add: add_request_def preempt_request_def Let_def)

theorem preempt_exceeds_queue_limit_witness:
  "let m = (manager_init 0)\<lparr>running_requests := [(''a'', 0)]\<rparr>;
       m' = snd (snd (preempt_request ''a'' ex_store m))
   in int (length (pending_queue m')) = max_queue_size m' + 1"
  using preempt_exceeds_queue_limit [of "(manager_init 0)\<lparr>running_requests := [(''a'', 0)]\<rparr>" "''a''" 0 0 ex_store]
  by (simp add: manager_init_def Let_def)

end
