(* ===== verification/Batch_Props.thy ===== *)
theory Batch_Props
  imports Batching Request_Life
begin

text \<open>
  What the batches of the inference engine guarantee: they fit, they follow the priorities, the
  shortest-job-first policy serves as many requests as possible, and the tensors of a batch agree
  in shape and content.
\<close>

section \<open>The batches of a step\<close>

lemma decode_part:
  assumes "0 \<le> max_batch_size b" and "form_batches b st pending running = (prefill, decode)"
  shows "decode = take (nat (max_batch_size b)) (decoding st running)"
    and "prefill = select_loop st (max_batch_size b - int (length decode))
      (max_prefill_tokens b - int (length decode)) pending [] 0"
  using assms by (auto simp: form_batches_def Let_def py_take_def fill_prefill_select split: if_splits)

text \<open>
  C32: the batches fit. The decode batch is the decoding requests in their order, cut at
  \<open>max_batch_size\<close>; the two batches together have at most \<open>max_batch_size\<close> requests; when something is
  prefilled, the prompts and one token for each decoding request are at most \<open>max_prefill_tokens\<close>
  tokens; prefilled requests are pending ones in their order; and a pending request is left out only
  when the batch is full or its prompt does not fit beside the chosen ones.
\<close>

theorem form_batches_fit:
  assumes "0 \<le> max_batch_size b" and "form_batches b st pending running = (prefill, decode)"
  shows "decode = take (nat (max_batch_size b)) (decoding st running) \<and>
    int (length prefill + length decode) \<le> max_batch_size b \<and>
    (prefill = [] \<or> batch_tokens st prefill + int (length decode) \<le> max_prefill_tokens b) \<and>
    subseq prefill pending \<and>
    (\<forall>r\<in>set pending. r \<in> set prefill \<or> int (length prefill + length decode) = max_batch_size b \<or>
       max_prefill_tokens b < batch_tokens st prefill + int (length decode) + prompt_len st r)"
proof -
  note d = decode_part [OF assms]
  have len: "int (length decode) \<le> max_batch_size b" using d(1) assms(1) by simp
  obtain new where "prefill = new" "subseq new pending"
    "new \<noteq> [] \<longrightarrow> int (length new) \<le> max_batch_size b - int (length decode) \<and>
       batch_tokens st new \<le> max_prefill_tokens b - int (length decode)"
    "\<forall>r\<in>set pending. r \<in> set new \<or> max_batch_size b - int (length decode) \<le> int (length new) \<or>
       max_prefill_tokens b - int (length decode) < batch_tokens st new + prompt_len st r"
    using select_loop_spec [of st "[]" 0 "max_batch_size b - int (length decode)"
        "max_prefill_tokens b - int (length decode)" pending] d(2) by auto
  then have "int (length prefill + length decode) \<le> max_batch_size b \<and>
      (prefill = [] \<or> batch_tokens st prefill + int (length decode) \<le> max_prefill_tokens b) \<and>
      subseq prefill pending \<and>
      (\<forall>r\<in>set pending. r \<in> set prefill \<or> int (length prefill + length decode) = max_batch_size b \<or>
         max_prefill_tokens b < batch_tokens st prefill + int (length decode) + prompt_len st r)"
    using len by (cases "prefill = []") auto
  then show ?thesis using d(1) by blast
qed

definition ex_batcher :: batcher where
  "ex_batcher = batcher_init 2 8 4"

definition ex_decoding :: store where
  "ex_decoding = ex_store(7 := (ex_store 7)\<lparr>status := RUNNING_DECODE\<rparr>)"

theorem form_batches_fit_witness:
  "form_batches ex_batcher ex_decoding [0, 1, 2] [7] = ([0], [7]) \<and>
   [7] = take (nat (max_batch_size ex_batcher)) (decoding ex_decoding [7]) \<and>
   int (length [0 :: nat] + length [7 :: nat]) \<le> max_batch_size ex_batcher"
proof -
  have f: "form_batches ex_batcher ex_decoding [0, 1, 2] [7] = ([0], [7])" by code_simp
  have "0 \<le> max_batch_size ex_batcher" by code_simp
  from form_batches_fit [OF this f] f show ?thesis by blast
qed

section \<open>Batches follow the priorities\<close>

lemma sort_key_sorted: "sorted (map f xs) \<Longrightarrow> sort_key f xs = xs"
  by (induction xs) (auto simp: insort_is_Cons)

lemma pop_requests_key_kept:
  assumes "pop_requests n clock i st m = (rs, st', m')"
  shows "request_key (st' r) = request_key (st r)"
  using assms
proof (induction n arbitrary: i st m rs)
  case (Suc n)
  then show ?case
    by (fastforce simp: Let_def split: if_splits prod.splits dest!: Suc.IH)
qed simp

text \<open>
  C33: the engine's default batches are those of the priority policy. When the pending requests are
  the ones just taken from the queue, \<open>form_batches\<close> selects exactly what \<open>PriorityPolicy\<close> would with
  the same limits, whatever requests are already decoding: the same decode batch, and the same
  prompts within the slots and tokens that the decoding requests leave.
\<close>

theorem form_batches_by_priority:
  assumes "life qs cleared st m" and "get_next_requests (int k) clock st m = (rs, st', m')"
    and "0 \<le> max_batch_size b"
  shows "form_batches b st' rs (get_running_requests m') =
    priority_select st' rs (get_running_requests m') (max_batch_size b) (max_prefill_tokens b)"
proof -
  have "map (\<lambda>r. request_key (st r)) rs = take k (sort (map (\<lambda>r. request_key (st r)) (pending_queue m)))"
    using pop_requests_keys [OF queue_invD(1), of st m k clock 0] life_inv [OF assms(1)] assms(2)
    by (simp add: get_next_requests_def)
  then have "sorted (map (\<lambda>r. request_key (st' r)) rs)"
    using pop_requests_key_kept [of k clock 0 st m rs st' m'] assms(2)
    by (simp add: get_next_requests_def sorted_wrt_take)
  then have s: "sort_key (\<lambda>r. request_key (st' r)) rs = rs" by (rule sort_key_sorted)
  obtain prefill decode where f: "form_batches b st' rs (get_running_requests m') = (prefill, decode)" by force
  show ?thesis
    using decode_part [OF assms(3) f] f assms(3) by (simp add: priority_select_def s py_take_def Let_def)
qed

text \<open>One request is decoding when the next one is taken from the queue.\<close>

definition ex_two :: store where
  "ex_two = ex_store(1 := new_request ''b'' ''ho'' [3] default_params HIGH 1)"

definition ex_busy :: "store \<times> request_manager" where
  "ex_busy = (let (rs, st, m) = get_next_requests 1 (\<lambda>_. 0) ex_two (snd (add_request 0 ex_two (manager_init 3)));
       st' = st(0 := (st 0)\<lparr>status := RUNNING_DECODE\<rparr>)
     in (st', snd (add_request 1 st' m)))"

lemma ex_busy_life: "life 3 0 (fst ex_busy) (snd ex_busy)"
proof -
  let ?m0 = "snd (add_request 0 ex_two (manager_init 3))"
  obtain rs st m where g: "get_next_requests 1 (\<lambda>_. 0) ex_two ?m0 = (rs, st, m)" using prod_cases3 by blast
  have "life 3 0 ex_two ?m0"
    by (intro life.add life.start)
      (simp_all add: ex_two_def ex_store_def new_request_def refs_def manager_init_def)
  then have l: "life 3 0 st m" using g by (rule life.get_next)
  have "running_requests (snd (snd (get_next_requests 1 (\<lambda>_. 0) ex_two ?m0))) = [(''a'', 0)]"
    "refs (snd (snd (get_next_requests 1 (\<lambda>_. 0) ex_two ?m0))) = [0]"
    "request_id (fst (snd (get_next_requests 1 (\<lambda>_. 0) ex_two ?m0)) 0) = ''a''"
    "request_id (fst (snd (get_next_requests 1 (\<lambda>_. 0) ex_two ?m0)) 1) = ''b''"
    "status (fst (snd (get_next_requests 1 (\<lambda>_. 0) ex_two ?m0)) 1) = PENDING" by code_simp+
  then have f: "running_requests m = [(''a'', 0)]" "refs m = [0]" "request_id (st 0) = ''a''"
    "request_id (st 1) = ''b''" "status (st 1) = PENDING" using g by simp_all
  let ?st = "st(0 := (st 0)\<lparr>status := RUNNING_DECODE\<rparr>)"
  have "life 3 0 ?st m"
    by (rule life.work [OF l, of "''a''"]) (simp_all add: f(1) request_key_def)
  then have "life 3 0 ?st (snd (add_request 1 ?st m))" by (rule life.add) (simp_all add: f [unfolded One_nat_def])
  then show ?thesis using g by (simp add: ex_busy_def Let_def)
qed

theorem form_batches_by_priority_witness:
  "\<exists>rs st' m'. get_next_requests (int 2) (\<lambda>_. 0) (fst ex_busy) (snd ex_busy) = (rs, st', m') \<and>
    form_batches ex_batcher st' rs (get_running_requests m') = ([1], [0]) \<and>
    priority_select st' rs (get_running_requests m') (max_batch_size ex_batcher) (max_prefill_tokens ex_batcher) =
      ([1], [0])"
proof -
  let ?g = "get_next_requests (int 2) (\<lambda>_. 0) (fst ex_busy) (snd ex_busy)"
  obtain rs st' m' where g: "?g = (rs, st', m')" using prod_cases3 by blast
  have "form_batches ex_batcher (fst (snd ?g)) (fst ?g) (get_running_requests (snd (snd ?g))) = ([1], [0])"
    by code_simp
  then have f: "form_batches ex_batcher st' rs (get_running_requests m') = ([1], [0])" using g by simp
  have "0 \<le> max_batch_size ex_batcher" by code_simp
  from form_batches_by_priority [OF ex_busy_life g this] show ?thesis using f g by metis
qed

section \<open>Shortest job first serves the most requests\<close>

lemma sum_smallest:
  assumes "sorted xs" and "M \<subseteq># mset xs"
  shows "sum_list (take (size M) xs) \<le> (\<Sum>\<^sub># M :: nat)"
  using assms
proof (induction xs arbitrary: M)
  case (Cons x xs)
  show ?case
  proof (cases "M = {#}")
    case False
    obtain z where z: "z \<in># M" using False by (rule multiset_nonemptyE)
    define y where "y = (if x \<in># M then x else z)"
    have y: "y \<in># M" using z by (simp add: y_def)
    define N where "N = M - {#y#}"
    have N: "M = add_mset y N" using y by (simp add: N_def)
    have sub: "N \<subseteq># mset xs"
    proof (cases "x \<in># M")
      case True
      then have "y = x" by (simp add: y_def)
      then show ?thesis using Cons.prems(2) unfolding N by simp
    next
      case False
      have "M \<subseteq># mset xs"
      proof (rule mset_subset_eqI)
        fix z
        have "count M z \<le> count (add_mset x (mset xs)) z"
          using Cons.prems(2) mset_subset_eq_count [of M "add_mset x (mset xs)" z] by simp
        moreover have "count M x = 0" using False by (simp add: count_eq_zero_iff)
        ultimately show "count M z \<le> count (mset xs) z" by (cases "z = x") simp_all
      qed
      moreover have "N \<subseteq># M" using N by simp
      ultimately show ?thesis by (rule subset_mset.order_trans [rotated])
    qed
    have "y \<in># mset (x # xs)" using mset_subset_eqD [OF Cons.prems(2) y] .
    then have "x \<le> y" using Cons.prems(1) by auto
    then show ?thesis using Cons.IH [OF _ sub] Cons.prems(1) N by simp
  qed simp
qed simp

lemma select_loop_none:
  assumes "\<And>r. r \<in> set rs \<Longrightarrow> \<not> (int (length batch) < slots \<and> tokens + prompt_len st r \<le> cap)"
  shows "select_loop st slots cap rs batch tokens = batch"
  using assms by (induction rs) auto

lemma select_loop_sorted:
  assumes "sorted (map (prompt_len st) rs)"
  shows "\<exists>k\<le>length rs. select_loop st slots cap rs batch tokens = batch @ take k rs \<and>
    (k < length rs \<longrightarrow> slots \<le> int (length batch + k) \<or> cap < tokens + batch_tokens st (take (Suc k) rs))"
  using assms
proof (induction rs arbitrary: batch tokens)
  case (Cons r rs)
  show ?case
  proof (cases "int (length batch) < slots \<and> tokens + prompt_len st r \<le> cap")
    case True
    obtain k where "k \<le> length rs"
      "select_loop st slots cap rs (batch @ [r]) (tokens + prompt_len st r) = (batch @ [r]) @ take k rs"
      "k < length rs \<longrightarrow> slots \<le> int (length (batch @ [r]) + k) \<or>
        cap < tokens + prompt_len st r + batch_tokens st (take (Suc k) rs)"
      using Cons.IH [of "batch @ [r]" "tokens + prompt_len st r"] Cons.prems by auto
    then show ?thesis using True by (intro exI [of _ "Suc k"]) auto
  next
    case False
    have "select_loop st slots cap rs batch tokens = batch"
      using False Cons.prems by (intro select_loop_none) fastforce
    then show ?thesis using False by (intro exI [of _ 0]) auto
  qed
qed simp

lemma select_loop_most:
  assumes s: "sorted (map (prompt_len st) rs)" and sub: "mset other \<subseteq># mset rs"
    and fit: "int (length other) \<le> slots" "batch_tokens st other \<le> cap"
  shows "length other \<le> length (select_loop st slots cap rs [] 0)"
proof (rule ccontr)
  assume less: "\<not> length other \<le> length (select_loop st slots cap rs [] 0)"
  obtain k where k: "k \<le> length rs" "select_loop st slots cap rs [] 0 = take k rs"
    "k < length rs \<longrightarrow> slots \<le> int k \<or> cap < batch_tokens st (take (Suc k) rs)"
    using select_loop_sorted [OF s, of slots cap "[]" 0] by auto
  have j: "k < length other" "length other \<le> length rs"
    using less k(1,2) size_mset_mono [OF sub] by auto
  then have over: "cap < batch_tokens st (take (Suc k) rs)" using k(3) fit(1) by auto
  let ?n = "\<lambda>r. length (prompt_token_ids (st r))"
  have conv: "batch_tokens st xs = int (sum_list (map ?n xs))" for xs by (induction xs) auto
  have "sorted (map ?n rs)" using s by (simp add: sorted_map)
  moreover have "mset (map ?n other) \<subseteq># mset (map ?n rs)" using image_mset_subseteq_mono [OF sub] by simp
  ultimately have "sum_list (take (length other) (map ?n rs)) \<le> sum_list (map ?n other)"
    using sum_smallest [of "map ?n rs" "mset (map ?n other)"] by (simp only: sum_mset_sum_list size_mset length_map)
  moreover have "sum_list (map ?n (take (Suc k) rs)) \<le> sum_list (map ?n (take (length other) rs))"
  proof -
    have "take (length other) rs = take (Suc k) rs @ drop (Suc k) (take (length other) rs)"
      using j(1) by (metis append_take_drop_id min.absorb1 Suc_leI take_take)
    then show ?thesis by (metis le_add1 map_append sum_list_append)
  qed
  ultimately have "batch_tokens st (take (Suc k) rs) \<le> batch_tokens st other"
    unfolding conv by (simp add: take_map)
  then show False using over fit(2) by simp
qed

text \<open>
  C34: shortest job first is optimal. No choice of pending requests that fits into the free slots and
  into the token budget has more requests than the one \<open>ShortestJobFirstPolicy\<close> selects.
\<close>

theorem sjf_serves_most:
  assumes "sjf_select st pending running max_size max_toks = (prefill, decode)"
    and "mset other \<subseteq># mset pending"
    and "int (length other + length decode) \<le> max_size"
    and "batch_tokens st other + int (length decode) \<le> max_toks"
  shows "length other \<le> length prefill"
proof -
  let ?n = "\<lambda>r. length (prompt_token_ids (st r))"
  have "sorted (map ?n (sort_key ?n pending))" by simp
  then have "sorted (map (prompt_len st) (sort_key ?n pending))" by (simp add: sorted_map)
  moreover have "prefill = select_loop st (max_size - int (length decode)) (max_toks - int (length decode))
      (sort_key ?n pending) [] 0"
    using assms(1) by (auto simp: sjf_select_def Let_def)
  ultimately show ?thesis using select_loop_most [of st "sort_key ?n pending" other] assms(2-4) by auto
qed

definition ex_jobs :: store where
  "ex_jobs r = new_request ''j'' ''p'' (replicate (3 - r) 7) default_params NORMAL 0"

theorem sjf_serves_most_witness:
  "sjf_select ex_jobs [0, 1, 2] [] 4 3 = ([2, 1], []) \<and> length [0 :: nat] \<le> length [2 :: nat, 1]"
proof -
  have f: "sjf_select ex_jobs [0, 1, 2] [] 4 3 = ([2, 1], [])" by code_simp
  show ?thesis
    using sjf_serves_most [OF f, of "[0]"] f by (simp add: ex_jobs_def new_request_def)
qed

section \<open>The tensors of a batch\<close>

text \<open>The rows before padding; a batch is well formed when every decoding request has a token.\<close>

definition input_rows :: "batched_inputs \<Rightarrow> int list list" where
  "input_rows b = map prompt_token_ids (prefill_requests b) @
     map (\<lambda>q. [last (prompt_token_ids q @ output_token_ids q)]) (decode_requests b)"

lemma decode_rows_eq:
  "\<forall>q\<in>set qs. prompt_token_ids q \<noteq> [] \<Longrightarrow>
   decode_rows qs = Inr (map (\<lambda>q. [last (prompt_token_ids q @ output_token_ids q)]) qs)"
  by (induction qs) (auto simp: decode_token_def)

lemma padded_nth:
  assumes "i < length rows"
  shows "padded rows ! i = rows ! i @ replicate (Max (set (map length rows)) - length (rows ! i)) 0"
proof -
  have "rows \<noteq> []" using assms by auto
  then show ?thesis using assms by (simp add: padded_def Let_def)
qed

lemma length_padded [simp]: "length (padded rows) = length rows"
  by (simp add: padded_def Let_def)

lemma padded_width:
  assumes "i < length rows"
  shows "length (padded rows ! i) = Max (set (map length rows))"
proof -
  have "length (rows ! i) \<le> Max (set (map length rows))" using assms by (intro Max_ge) auto
  then show ?thesis using padded_nth [OF assms] by simp
qed

lemma padded_lengths: "map length rows = map length rows' \<Longrightarrow> i < length rows \<Longrightarrow>
    length (padded rows ! i) = length (padded rows' ! i)"
  by (metis length_map padded_width)

lemma row_lengths:
  "map length (input_rows b) = get_sequence_lengths b"
  "length (input_rows b) = batch_size b"
  by (simp_all add: input_rows_def get_sequence_lengths_def batch_size_def comp_def)

text \<open>
  C35: the tensors of a batch fit together. Token numbers, positions and attention mask have one row
  per request (prefilled ones first, in the order of \<open>get_request_ids\<close>) of one common length; in each
  row the first tokens, as many as \<open>get_sequence_lengths\<close> says, are the real ones: the prompt, or the
  last token for a decoding request; the mask is 1 exactly there, and the rest is padding.
\<close>

theorem batch_inputs_aligned:
  assumes "\<forall>q\<in>set (decode_requests b). prompt_token_ids q \<noteq> []" and "i < batch_size b"
  shows "\<exists>ids. get_input_ids b = Inr ids \<and> length ids = batch_size b \<and>
    length (get_request_ids b) = batch_size b \<and>
    length (get_position_ids b) = batch_size b \<and> length (get_attention_mask b) = batch_size b \<and>
    length (ids ! i) = length (get_position_ids b ! i) \<and> length (ids ! i) = length (get_attention_mask b ! i) \<and>
    (let n = get_sequence_lengths b ! i in
     take n (ids ! i) = input_rows b ! i \<and> drop n (ids ! i) = replicate (length (ids ! i) - n) 0 \<and>
     get_attention_mask b ! i = replicate n 1 @ replicate (length (ids ! i) - n) 0)"
proof -
  let ?ids = "padded (input_rows b)"
  have ids: "get_input_ids b = Inr ?ids"
    using decode_rows_eq [OF assms(1)] by (simp add: get_input_ids_def input_rows_def)
  have i: "i < length (input_rows b)" using assms(2) row_lengths(2) by simp
  have ne: "input_rows b \<noteq> []" using i by auto
  have len: "get_sequence_lengths b ! i = length (input_rows b ! i)"
    using i by (simp add: row_lengths(1) [symmetric])
  have le: "length (input_rows b ! i) \<le> Max (set (get_sequence_lengths b))"
    using i len by (intro Max_ge) (auto simp: row_lengths(1) [symmetric] intro: image_eqI [OF refl])
  have w: "length (?ids ! i) = Max (set (get_sequence_lengths b))"
    using padded_width [OF i] by (simp only: row_lengths(1))
  have mask: "get_attention_mask b = map (\<lambda>n. replicate n 1 @ replicate (Max (set (get_sequence_lengths b)) - n) 0) (get_sequence_lengths b)"
    using ne by (auto simp: get_attention_mask_def get_sequence_lengths_def Let_def input_rows_def)
  have "i < length (get_sequence_lengths b)" using i by (simp add: row_lengths(1) [symmetric])
  then have m: "get_attention_mask b ! i = replicate (length (input_rows b ! i)) 1 @ replicate (length (?ids ! i) - length (input_rows b ! i)) 0"
    using mask len w by simp
  have pos: "length (get_position_ids b ! i) = length (?ids ! i)"
    unfolding get_position_ids_def
    by (rule padded_lengths) (use i in \<open>auto simp: input_rows_def comp_def\<close>)
  have "?ids ! i = input_rows b ! i @ replicate (length (?ids ! i) - length (input_rows b ! i)) 0"
    using padded_nth [OF i] w by (simp only: row_lengths(1))
  then have split: "take (length (input_rows b ! i)) (?ids ! i) = input_rows b ! i"
    "drop (length (input_rows b ! i)) (?ids ! i) = replicate (length (?ids ! i) - length (input_rows b ! i)) 0"
    by (metis append_eq_conv_conj)+
  have "length (get_position_ids b) = batch_size b" "length (get_attention_mask b) = batch_size b"
    "length (get_request_ids b) = batch_size b"
    by (simp_all add: get_position_ids_def mask batch_size_def get_request_ids_def get_sequence_lengths_def)
  then show ?thesis
    using ids row_lengths(2) [of b] pos m split len w le by (intro exI [of _ ?ids]) (simp add: Let_def)
qed

definition ex_inputs :: batched_inputs where
  "ex_inputs = \<lparr>prefill_requests = [new_request ''a'' ''p'' [5, 6, 7] default_params NORMAL 0],
     decode_requests = [(new_request ''b'' ''q'' [8] default_params NORMAL 0)\<lparr>output_token_ids := [9]\<rparr>]\<rparr>"

theorem batch_inputs_aligned_witness:
  "\<exists>ids. get_input_ids ex_inputs = Inr ids \<and> length ids = 2 \<and> take 1 (ids ! 1) = [9] \<and>
    get_attention_mask ex_inputs ! 1 = [1, 0, 0]"
proof -
  have h: "\<forall>q\<in>set (decode_requests ex_inputs). prompt_token_ids q \<noteq> []" "1 < batch_size ex_inputs"
    "batch_size ex_inputs = 2" "get_sequence_lengths ex_inputs ! 1 = 1" "input_rows ex_inputs ! 1 = [9]"
    "get_attention_mask ex_inputs ! 1 = [1, 0, 0]"
    by (simp_all add: ex_inputs_def new_request_def batch_size_def get_sequence_lengths_def input_rows_def
        get_attention_mask_def Let_def)
  from batch_inputs_aligned [OF h(1,2)] show ?thesis unfolding h(3-6) Let_def by blast
qed

text \<open>
  C36: the position of a decoded token is one too large, in every batch and for every decoding
  request. A prefilled prompt numbers its tokens from 0, so that token number \<open>j\<close> of the context has
  position \<open>j\<close>; but the token that a decoding request feeds, the last of its \<open>n\<close> tokens and hence
  number \<open>n - 1\<close>, is given the position \<open>n\<close>.
\<close>

theorem decode_position_past_end:
  assumes "\<forall>q\<in>set (decode_requests b). prompt_token_ids q \<noteq> []"
  shows "\<exists>ids. get_input_ids b = Inr ids \<and>
    (\<forall>i < length (prefill_requests b). \<forall>j < length (prompt_token_ids (prefill_requests b ! i)).
       ids ! i ! j = prompt_token_ids (prefill_requests b ! i) ! j \<and> get_position_ids b ! i ! j = int j) \<and>
    (\<forall>i < length (decode_requests b).
       let q = decode_requests b ! i; context = prompt_token_ids q @ output_token_ids q;
           row = length (prefill_requests b) + i
       in ids ! row ! 0 = context ! (length context - 1) \<and>
          get_position_ids b ! row ! 0 = int (length context))"
proof -
  let ?P = "prefill_requests b" and ?D = "decode_requests b"
  have ids: "get_input_ids b = Inr (padded (input_rows b))"
    using decode_rows_eq [OF assms] by (simp add: get_input_ids_def input_rows_def)
  have "padded (input_rows b) ! i ! j = prompt_token_ids (?P ! i) ! j \<and> get_position_ids b ! i ! j = int j"
    if "i < length ?P" "j < length (prompt_token_ids (?P ! i))" for i j
    using that by (simp add: get_position_ids_def input_rows_def padded_nth nth_append)
  moreover have "padded (input_rows b) ! (length ?P + i) ! 0 = last (prompt_token_ids (?D ! i) @ output_token_ids (?D ! i)) \<and>
      get_position_ids b ! (length ?P + i) ! 0 = int (length (prompt_token_ids (?D ! i) @ output_token_ids (?D ! i)))"
    if "i < length ?D" for i
    using that by (simp add: get_position_ids_def input_rows_def padded_nth nth_append)
  moreover have "prompt_token_ids (?D ! i) @ output_token_ids (?D ! i) \<noteq> []" if "i < length ?D" for i
    using assms that by simp
  ultimately show ?thesis using ids unfolding Let_def by (metis last_conv_nth)
qed

theorem decode_position_past_end_witness:
  "\<exists>ids. get_input_ids ex_inputs = Inr ids \<and> ids ! 0 ! 2 = 7 \<and> get_position_ids ex_inputs ! 0 ! 2 = 2 \<and>
     ids ! 1 ! 0 = 9 \<and> get_position_ids ex_inputs ! 1 ! 0 = 2"
proof -
  have h: "\<forall>q\<in>set (decode_requests ex_inputs). prompt_token_ids q \<noteq> []"
    by (simp add: ex_inputs_def new_request_def)
  obtain ids where "get_input_ids ex_inputs = Inr ids"
    "\<forall>i < length (prefill_requests ex_inputs). \<forall>j < length (prompt_token_ids (prefill_requests ex_inputs ! i)).
       ids ! i ! j = prompt_token_ids (prefill_requests ex_inputs ! i) ! j \<and>
       get_position_ids ex_inputs ! i ! j = int j"
    "\<forall>i < length (decode_requests ex_inputs).
       let q = decode_requests ex_inputs ! i; context = prompt_token_ids q @ output_token_ids q;
           row = length (prefill_requests ex_inputs) + i
       in ids ! row ! 0 = context ! (length context - 1) \<and>
          get_position_ids ex_inputs ! row ! 0 = int (length context)"
    using decode_position_past_end [OF h] by blast
  then show ?thesis by (auto simp: ex_inputs_def new_request_def Let_def numeral_2_eq_2)
qed

end
