(* ===== verification/Scheduler.thy ===== *)
theory Scheduler
  imports KV_Cache Request_Life Batching
begin

text \<open>
  The scheduler of the inference engine
  (\<open>44-autoregressive-inference/src/autoregressive_inference/scheduler.py\<close>), which composes the request
  manager, the key/value cache and the batcher.

  The transformer model is code outside the repository (a protocol class): it is the parameter
  \<open>prefill_fn\<close> (the call of \<open>model.prefill\<close>) and \<open>next_token\<close> (\<open>model.decode\<close> followed by
  \<open>sampler.sample\<close> on its logits); both give the change they make to the cache, if there is one, and
  change a state of their own, of the type variable \<^typ>\<open>'x\<close>, which also stands for the random generator. The speculative decoder is the
  parameter \<open>decode_step\<close>, the tokens it accepts. Clock readings are parameters: the \<open>i\<close>-th request
  taken from the queue in a step starts at \<open>clk i\<close>, and a request \<open>r\<close> that ends in a step ends at
  \<open>fin r\<close>. The list of blocks that \<open>allocate_blocks\<close> returns is the one the cache keeps for the
  request; the engine never changes or reads it through the request.
\<close>

section \<open>State and parameters\<close>

record ('t, 'x) model =
  prefill_fn :: "int list \<Rightarrow> string \<Rightarrow> 't kv_manager option \<times> 'x \<Rightarrow> ('t kv_manager \<Rightarrow> 't kv_manager) \<times> 'x"
  next_token :: "int \<Rightarrow> string \<Rightarrow> sampling_params \<Rightarrow> int list \<Rightarrow> 't kv_manager option \<times> 'x
    \<Rightarrow> int \<times> ('t kv_manager \<Rightarrow> 't kv_manager) \<times> 'x"

type_synonym 'x spec_decoder = "int list \<Rightarrow> sampling_params \<Rightarrow> string \<Rightarrow> 'x \<Rightarrow> int list \<times> 'x"

record ('t, 'x) engine =
  model_of :: "('t, 'x) model option"
  kv_cfg :: kv_config
  kv_tensors :: "'t tensors"
  batcher_of :: batcher
  eos_token_id :: int
  speculative_decoder :: "'x spec_decoder option"
  use_speculative :: bool

record ('t, 'x) scheduler =
  objects :: store
  manager :: request_manager
  kv :: "'t kv_manager option"
  env :: 'x
  is_running :: bool
  step_count :: int
  prefill_total :: int
  decode_total :: int
  speculative_total :: int
  started :: "real option"

definition scheduler_init ::
    "store \<Rightarrow> request_manager \<Rightarrow> 't kv_manager option \<Rightarrow> 'x \<Rightarrow> ('t, 'x) scheduler" where
  "scheduler_init st m c x =
     \<lparr>objects = st, manager = m, kv = c, env = x, is_running = False, step_count = 0,
      prefill_total = 0, decode_total = 0, speculative_total = 0, started = None\<rparr>"

definition sched_add_request :: "nat \<Rightarrow> ('t, 'x) scheduler \<Rightarrow> bool \<times> ('t, 'x) scheduler" where
  "sched_add_request r s =
     (let (ok, m) = add_request r (objects s) (manager s) in (ok, s\<lparr>manager := m\<rparr>))"

section \<open>Prefill and decode\<close>

definition prefill_one :: "('t, 'x) engine \<Rightarrow> nat \<Rightarrow> ('t, 'x) scheduler \<Rightarrow> ('t, 'x) scheduler" where
  "prefill_one eng r s =
     (let q = objects s r;
          s1 = (case model_of eng of
                  None \<Rightarrow> s
                | Some M \<Rightarrow>
                    let (c, x) = prefill_fn M (prompt_token_ids q) (request_id q) (kv s, env s)
                    in s\<lparr>kv := map_option c (kv s), env := x\<rparr>);
          n = int (length (prompt_token_ids q))
      in s1\<lparr>objects := (objects s1)(r := (objects s1 r)\<lparr>status := RUNNING_DECODE, prefill_tokens := n\<rparr>),
            prefill_total := prefill_total s1 + n\<rparr>)"

definition execute_prefill :: "('t, 'x) engine \<Rightarrow> nat list \<Rightarrow> ('t, 'x) scheduler \<Rightarrow> ('t, 'x) scheduler" where
  "execute_prefill eng batch s = fold (prefill_one eng) batch s"

definition should_stop :: "('t, 'x) engine \<Rightarrow> inference_request \<Rightarrow> int \<Rightarrow> bool" where
  "should_stop eng q token_id \<longleftrightarrow>
     max_tokens (sampling q) \<le> int (length (output_token_ids q)) \<or> token_id = eos_token_id eng"

text \<open>
  \<open>if self.kv_cache: self.kv_cache.free_blocks_for_request(id)\<close> and
  \<open>self.request_manager.complete_request(id)\<close>.
\<close>

definition free_cache :: "('t, 'x) engine \<Rightarrow> string \<Rightarrow> ('t, 'x) scheduler \<Rightarrow> ('t, 'x) scheduler" where
  "free_cache eng i s =
     s\<lparr>kv := map_option (\<lambda>c. snd (free_blocks_for_request (kv_cfg eng) (kv_tensors eng) i c)) (kv s)\<rparr>"

definition finish :: "('t, 'x) engine \<Rightarrow> real \<Rightarrow> nat \<Rightarrow> ('t, 'x) scheduler \<Rightarrow> ('t, 'x) scheduler" where
  "finish eng now r s =
     (let i = request_id (objects s r);
          s1 = free_cache eng i s;
          (_, st, m) = complete_request i now (objects s1) (manager s1)
      in s1\<lparr>objects := st, manager := m\<rparr>)"

text \<open>\<open>request.output_token_ids.append(token_id)\<close> and the two counters.\<close>

definition push_token :: "nat \<Rightarrow> int \<Rightarrow> ('t, 'x) scheduler \<Rightarrow> ('t, 'x) scheduler" where
  "push_token r t s =
     s\<lparr>objects := (objects s)(r := (objects s r)\<lparr>output_token_ids := output_token_ids (objects s r) @ [t],
                                                decode_tokens := decode_tokens (objects s r) + 1\<rparr>),
       decode_total := decode_total s + 1\<rparr>"

definition at_max :: "inference_request \<Rightarrow> bool" where
  "at_max q \<longleftrightarrow> max_tokens (sampling q) \<le> int (length (output_token_ids q))"

text \<open>The three ways to decode one request of the batch; the list collects completed requests.\<close>

definition decode_mock ::
    "('t, 'x) engine \<Rightarrow> (nat \<Rightarrow> real) \<Rightarrow> nat \<Rightarrow> nat list \<times> ('t, 'x) scheduler
      \<Rightarrow> (py_error, unit, nat list \<times> ('t, 'x) scheduler) outcome" where
  "decode_mock eng fin r = (\<lambda>(completed, s).
     if at_max (objects s r) then (Inr (), completed @ [r], finish eng (fin r) r s)
     else let s1 = push_token r 100 s in
       if should_stop eng (objects s1 r) 100 then (Inr (), completed @ [r], finish eng (fin r) r s1)
       else (Inr (), completed, s1))"

definition decode_model ::
    "('t, 'x) engine \<Rightarrow> ('t, 'x) model \<Rightarrow> (nat \<Rightarrow> real) \<Rightarrow> nat \<Rightarrow> nat list \<times> ('t, 'x) scheduler
      \<Rightarrow> (py_error, unit, nat list \<times> ('t, 'x) scheduler) outcome" where
  "decode_model eng M fin r = (\<lambda>(completed, s).
     let q = objects s r in
     case decode_token q of
       Inl e \<Rightarrow> (Inl e, completed, s)
     | Inr input_id \<Rightarrow>
         let (t, c, x) = next_token M input_id (request_id q) (sampling q)
                           (prompt_token_ids q @ output_token_ids q) (kv s, env s);
             s1 = push_token r t (s\<lparr>kv := map_option c (kv s), env := x\<rparr>)
         in if should_stop eng (objects s1 r) t then (Inr (), completed @ [r], finish eng (fin r) r s1)
            else (Inr (), completed, s1))"

fun accept_tokens ::
    "('t, 'x) engine \<Rightarrow> (nat \<Rightarrow> real) \<Rightarrow> nat \<Rightarrow> int list \<Rightarrow> nat list \<times> ('t, 'x) scheduler
      \<Rightarrow> nat list \<times> ('t, 'x) scheduler" where
  "accept_tokens eng fin r [] (completed, s) = (completed, s)"
| "accept_tokens eng fin r (t # ts) (completed, s) =
     (let s1 = (push_token r t s)\<lparr>speculative_total := speculative_total s + 1\<rparr> in
      if should_stop eng (objects s1 r) t then (completed @ [r], finish eng (fin r) r s1)
      else accept_tokens eng fin r ts (completed, s1))"

definition decode_speculative ::
    "('t, 'x) engine \<Rightarrow> 'x spec_decoder \<Rightarrow> (nat \<Rightarrow> real) \<Rightarrow> nat \<Rightarrow> nat list \<times> ('t, 'x) scheduler
      \<Rightarrow> (py_error, unit, nat list \<times> ('t, 'x) scheduler) outcome" where
  "decode_speculative eng D fin r = (\<lambda>(completed, s).
     let q = objects s r in
     if at_max q then (Inr (), completed @ [r], finish eng (fin r) r s)
     else let (ts, x) = D (prompt_token_ids q @ output_token_ids q) (sampling q) (request_id q) (env s)
          in (Inr (), accept_tokens eng fin r ts (completed, s\<lparr>env := x\<rparr>)))"

definition execute_decode ::
    "('t, 'x) engine \<Rightarrow> (nat \<Rightarrow> real) \<Rightarrow> nat list \<Rightarrow> ('t, 'x) scheduler
      \<Rightarrow> (py_error, unit, nat list \<times> ('t, 'x) scheduler) outcome" where
  "execute_decode eng fin batch s =
     (case (if use_speculative eng then speculative_decoder eng else None) of
        Some D \<Rightarrow> for_each (decode_speculative eng D fin) batch ([], s)
      | None \<Rightarrow>
          (case model_of eng of
             None \<Rightarrow> for_each (decode_mock eng fin) batch ([], s)
           | Some M \<Rightarrow> for_each (decode_model eng M fin) batch ([], s)))"

section \<open>Memory\<close>

definition preempt_for_memory :: "('t, 'x) engine \<Rightarrow> ('t, 'x) scheduler \<Rightarrow> bool \<times> ('t, 'x) scheduler" where
  "preempt_for_memory eng s =
     (let running = get_running_requests (manager s) in
      if running = [] then (False, s)
      else let oldest = arg_min_list (\<lambda>r. arrival_time (objects s r)) running;
               i = request_id (objects s oldest);
               s1 = free_cache eng i s;
               (_, st, m) = preempt_request i (objects s1) (manager s1)
           in (True, s1\<lparr>objects := st, manager := m\<rparr>))"

definition allocate_for ::
    "('t, 'x) engine \<Rightarrow> nat \<Rightarrow> ('t, 'x) scheduler \<Rightarrow> (py_error, unit, ('t, 'x) scheduler) outcome" where
  "allocate_for eng r s =
     (case kv s of
        None \<Rightarrow> (Inr (), s)
      | Some c \<Rightarrow>
          let q = objects s r in
          if block_size (kv_cfg eng) = 0 then (Inl ZeroDivisionError, s)
          else let n = (int (length (prompt_token_ids q)) + max_tokens (sampling q)) div int (block_size (kv_cfg eng)) + 1;
                   (block_ids, c1) = kv_allocate_blocks (request_id q) n c;
                   s1 = s\<lparr>kv := Some c1\<rparr>
               in if block_ids = [] then (Inr (), snd (preempt_for_memory eng s1))
                  else (Inr (), s1\<lparr>objects := (objects s1)(r := (objects s1 r)\<lparr>kv_cache_block_ids := block_ids\<rparr>)\<rparr>))"

section \<open>The step and the main loop\<close>

text \<open>What a step does once the requests of the step are known.\<close>

definition work ::
    "('t, 'x) engine \<Rightarrow> (nat \<Rightarrow> real) \<Rightarrow> nat list \<Rightarrow> nat list \<Rightarrow> ('t, 'x) scheduler
      \<Rightarrow> (py_error, unit, nat list \<times> ('t, 'x) scheduler) outcome" where
  "work eng fin pending running s =
     (let (prefill, decode) = form_batches (batcher_of eng) (objects s) pending running;
          s1 = (if prefill \<noteq> [] then execute_prefill eng prefill s else s)
      in if decode \<noteq> [] then execute_decode eng fin decode s1 else (Inr (), [], s1))"

definition step ::
    "('t, 'x) engine \<Rightarrow> (nat \<Rightarrow> real) \<Rightarrow> (nat \<Rightarrow> real) \<Rightarrow> ('t, 'x) scheduler
      \<Rightarrow> (py_error, unit, nat list \<times> ('t, 'x) scheduler) outcome" where
  "step eng clk fin s =
     (let (pending, st, m) = get_next_requests (max_batch_size (batcher_of eng)) clk (objects s) (manager s);
          s1 = s\<lparr>step_count := step_count s + 1, objects := st, manager := m\<rparr>;
          running = get_running_requests m
      in if pending = [] \<and> running = [] then (Inr (), [], s1)
         else case for_each (allocate_for eng) pending s1 of
             (Inl e, s2) \<Rightarrow> (Inl e, [], s2)
           | (Inr _, s2) \<Rightarrow> work eng fin pending running s2)"

abbreviation after_step :: "(py_error, unit, nat list \<times> ('t, 'x) scheduler) outcome \<Rightarrow> ('t, 'x) scheduler" where
  "after_step r \<equiv> snd (state_of r)"

text \<open>
  The loop of \<open>run\<close> from step number \<open>n\<close> on, with the clock readings of every step; \<^term>\<open>None\<close> when it
  does not return.
\<close>

partial_function (option) run_loop ::
    "('t, 'x) engine \<Rightarrow> (nat \<Rightarrow> nat \<Rightarrow> real) \<Rightarrow> (nat \<Rightarrow> nat \<Rightarrow> real) \<Rightarrow> int option \<Rightarrow> nat \<Rightarrow> ('t, 'x) scheduler
      \<Rightarrow> ((py_error + unit) \<times> ('t, 'x) scheduler) option" where
  "run_loop eng clk fin max_steps n s =
     (if \<not> is_running s then Some (Inr (), s)
      else case step eng (clk n) (fin n) s of
          (Inl e, _, s1) \<Rightarrow> Some (Inl e, s1)
        | (Inr _, _, s1) \<Rightarrow>
            if (case max_steps of None \<Rightarrow> False | Some k \<Rightarrow> k \<le> int (n + 1)) then Some (Inr (), s1)
            else if pending_count (get_stats (manager s1)) = 0 \<and> running_count (get_stats (manager s1)) = 0
            then Some (Inr (), s1)
            else run_loop eng clk fin max_steps (n + 1) s1)"

definition run ::
    "('t, 'x) engine \<Rightarrow> (nat \<Rightarrow> nat \<Rightarrow> real) \<Rightarrow> (nat \<Rightarrow> nat \<Rightarrow> real) \<Rightarrow> real \<Rightarrow> int option \<Rightarrow> ('t, 'x) scheduler
      \<Rightarrow> ((py_error + unit) \<times> ('t, 'x) scheduler) option" where
  "run eng clk fin now max_steps s =
     run_loop eng clk fin max_steps 0 (s\<lparr>is_running := True, started := Some now\<rparr>)"

definition stop :: "('t, 'x) scheduler \<Rightarrow> ('t, 'x) scheduler" where
  "stop s = s\<lparr>is_running := False\<rparr>"

definition get_step_count :: "('t, 'x) scheduler \<Rightarrow> int" where
  "get_step_count s = step_count s"

record scheduler_stats =
  queue :: queue_stats
  steps_done :: int
  total_prefilled :: int
  total_decoded :: int
  elapsed_time :: real
  tokens_per_second :: real
  speculative_enabled :: bool
  speculative_tokens :: int

definition sched_get_stats :: "('t, 'x) engine \<Rightarrow> real \<Rightarrow> ('t, 'x) scheduler \<Rightarrow> scheduler_stats" where
  "sched_get_stats eng now s =
     (let elapsed = (case started s of Some t \<Rightarrow> if t \<noteq> 0 then now - t else 0 | None \<Rightarrow> 0) in
      \<lparr>queue = get_stats (manager s), steps_done = step_count s,
       total_prefilled = prefill_total s, total_decoded = decode_total s, elapsed_time = elapsed,
       tokens_per_second = (if 0 < elapsed then real_of_int (prefill_total s + decode_total s) / elapsed else 0),
       speculative_enabled = use_speculative eng, speculative_tokens = speculative_total s\<rparr>)"

text \<open>
  \<open>wait_for_completion\<close> from its \<open>n\<close>-th round on, \<open>now n\<close> being the time of the round. A timeout of
  zero is no timeout.
\<close>

partial_function (option) wait_loop ::
    "('t, 'x) engine \<Rightarrow> (nat \<Rightarrow> nat \<Rightarrow> real) \<Rightarrow> (nat \<Rightarrow> nat \<Rightarrow> real) \<Rightarrow> (nat \<Rightarrow> real) \<Rightarrow> string \<Rightarrow> real option \<Rightarrow> real
      \<Rightarrow> nat \<Rightarrow> ('t, 'x) scheduler \<Rightarrow> ((py_error + nat option) \<times> ('t, 'x) scheduler) option" where
  "wait_loop eng clk fin now i timeout t0 n s =
     (case get_request i (objects s) (manager s) of
        Some r \<Rightarrow>
          if status (objects s r) = COMPLETED then Some (Inr (Some r), s)
          else if (case timeout of None \<Rightarrow> False | Some t \<Rightarrow> t \<noteq> 0 \<and> t < now n - t0) then Some (Inr None, s)
          else (case step eng (clk n) (fin n) s of
              (Inl e, _, s1) \<Rightarrow> Some (Inl e, s1)
            | (Inr _, _, s1) \<Rightarrow> wait_loop eng clk fin now i timeout t0 (n + 1) s1)
      | None \<Rightarrow>
          if (case timeout of None \<Rightarrow> False | Some t \<Rightarrow> t \<noteq> 0 \<and> t < now n - t0) then Some (Inr None, s)
          else (case step eng (clk n) (fin n) s of
              (Inl e, _, s1) \<Rightarrow> Some (Inl e, s1)
            | (Inr _, _, s1) \<Rightarrow> wait_loop eng clk fin now i timeout t0 (n + 1) s1))"

end
