(* ===== verification/Sched_Step.thy ===== *)
theory Sched_Step
  imports Scheduler
begin

text \<open>
  What one step of the scheduler does, without a key/value cache: the requests outside the batches
  keep their fields and their place, and the invariant of the request manager is kept.
\<close>

section \<open>Frames\<close>

abbreviation sched_inv :: "('t, 'x) scheduler \<Rightarrow> bool" where
  "sched_inv s \<equiv> queue_inv (objects s) (manager s)"

abbreviation runs :: "nat \<Rightarrow> ('t, 'x) scheduler \<Rightarrow> bool" where
  "runs r s \<equiv> (request_id (objects s r), r) \<in> set (running_requests (manager s))"

text \<open>The fields of a request that no step changes.\<close>

definition same_request :: "inference_request \<Rightarrow> inference_request \<Rightarrow> bool" where
  "same_request q q' \<longleftrightarrow> request_id q' = request_id q \<and> prompt_token_ids q' = prompt_token_ids q \<and>
     sampling q' = sampling q \<and> request_key q' = request_key q"

lemma same_request_refl [simp]: "same_request q q"
  by (simp add: same_request_def)

lemma same_request_trans: "same_request p q \<Longrightarrow> same_request q r \<Longrightarrow> same_request p r"
  by (simp add: same_request_def)

text \<open>
  The scheduler \<open>s'\<close> results from \<open>s\<close> by work on the requests of \<open>B\<close>.
\<close>

definition frame :: "nat set \<Rightarrow> ('t, 'x) scheduler \<Rightarrow> ('t, 'x) scheduler \<Rightarrow> bool" where
  "frame B s s' \<longleftrightarrow>
     sched_inv s' \<and> kv s' = None \<and> is_running s' = is_running s \<and>
     pending_queue (manager s') = pending_queue (manager s) \<and>
     set (refs (manager s')) = set (refs (manager s)) \<and>
     (\<forall>x. same_request (objects s x) (objects s' x)) \<and>
     (\<forall>x. x \<notin> B \<longrightarrow> objects s' x = objects s x \<and>
        (\<forall>i. (i, x) \<in> set (running_requests (manager s')) \<longleftrightarrow> (i, x) \<in> set (running_requests (manager s))))"

lemma frame_refl: "sched_inv s \<Longrightarrow> kv s = None \<Longrightarrow> frame B s s"
  by (simp add: frame_def)

lemma frame_trans: "frame B s t \<Longrightarrow> frame C t u \<Longrightarrow> frame (B \<union> C) s u"
  unfolding frame_def by (auto intro: same_request_trans)

lemma frame_mono: "frame B s t \<Longrightarrow> B \<subseteq> C \<Longrightarrow> frame C s t"
  unfolding frame_def by auto

lemma frame_runs: "frame B s s' \<Longrightarrow> x \<notin> B \<Longrightarrow> runs x s' \<longleftrightarrow> runs x s"
  by (simp add: frame_def)

lemma queue_inv_cong:
  assumes "queue_inv st m" and "\<And>x. request_id (st' x) = request_id (st x)"
    and "\<And>x. request_key (st' x) = request_key (st x)"
    and "\<And>x. status (st' x) = status (st x) \<or>
      (\<exists>i. (i, x) \<in> set (running_requests m)) \<and> status (st' x) \<in> {RUNNING_PREFILL, RUNNING_DECODE}"
  shows "queue_inv st' m"
proof -
  have lt: "ref_lt st' = ref_lt st" by (rule ref_lt_cong) (rule assms(3))
  have p: "status (st' x) = status (st x)" if "x \<in> set (pending_queue m)" for x
    using assms(4) [of x] ids_disjoint(1) [OF assms(1) that] by blast
  have c: "status (st' x) = status (st x)" if "(i, x) \<in> set (completed_requests m)" for i x
    using assms(4) [of x] ids_disjoint(3) [OF assms(1) _ that] by blast
  have r: "status (st' x) \<in> {RUNNING_PREFILL, RUNNING_DECODE}" if "(i, x) \<in> set (running_requests m)" for i x
    using assms(4) [of x] queue_invD(5) [OF assms(1) that] by auto
  have "queue_heap st' m" "distinct (ids st' (refs m))"
    using queue_invD(1,2) [OF assms(1)] by (simp_all only: lt assms(2))
  moreover have "\<forall>x\<in>set (pending_queue m). status (st' x) \<in> {PENDING, PREEMPTED}"
    using p queue_invD(3) [OF assms(1)] by simp
  moreover have "i = request_id (st' x) \<and> status (st' x) \<in> {RUNNING_PREFILL, RUNNING_DECODE}"
    if "(i, x) \<in> set (running_requests m)" for i x
    using r [OF that] queue_invD(4) [OF assms(1) that] assms(2) by simp
  moreover have "i = request_id (st' x) \<and> status (st' x) \<in> {COMPLETED, FAILED}"
    if "(i, x) \<in> set (completed_requests m)" for i x
    using c [OF that] queue_invD(6,7) [OF assms(1) that] assms(2) by simp
  ultimately show ?thesis unfolding queue_inv_def by blast
qed

section \<open>Single requests\<close>

lemma prefill_one_frame:
  assumes "sched_inv s" and "kv s = None" and r: "runs r s"
  shows "frame {r} s (prefill_one eng r s)"
    and "objects (prefill_one eng r s) r = (objects s r)\<lparr>status := RUNNING_DECODE,
      prefill_tokens := int (length (prompt_token_ids (objects s r)))\<rparr>"
    and "manager (prefill_one eng r s) = manager s"
proof -
  let ?q = "(objects s r)\<lparr>status := RUNNING_DECODE, prefill_tokens := int (length (prompt_token_ids (objects s r)))\<rparr>"
  have eq: "objects (prefill_one eng r s) = (objects s)(r := ?q)" "manager (prefill_one eng r s) = manager s"
    "kv (prefill_one eng r s) = None" "is_running (prefill_one eng r s) = is_running s"
    using assms(2) by (auto simp: prefill_one_def Let_def split: option.splits prod.splits)
  have key: "request_key ?q = request_key (objects s r)" by (simp add: request_key_def)
  have "queue_inv ((objects s)(r := ?q)) (manager s)"
    by (rule queue_inv_cong [OF assms(1)]) (use r key in auto)
  then show "frame {r} s (prefill_one eng r s)"
    using eq key by (simp add: frame_def same_request_def)
  show "objects (prefill_one eng r s) r = ?q" "manager (prefill_one eng r s) = manager s"
    using eq by simp_all
qed

lemma push_token_frame:
  assumes "sched_inv s" and "kv s = None"
  shows "frame {r} s (push_token r t s)"
    and "objects (push_token r t s) r = (objects s r)\<lparr>output_token_ids := output_token_ids (objects s r) @ [t],
      decode_tokens := decode_tokens (objects s r) + 1\<rparr>"
    and "manager (push_token r t s) = manager s"
proof -
  let ?q = "(objects s r)\<lparr>output_token_ids := output_token_ids (objects s r) @ [t],
      decode_tokens := decode_tokens (objects s r) + 1\<rparr>"
  have key: "request_key ?q = request_key (objects s r)" by (simp add: request_key_def)
  have "queue_inv ((objects s)(r := ?q)) (manager s)"
    by (rule queue_inv_cong [OF assms(1)]) (use key in auto)
  then show "frame {r} s (push_token r t s)"
    using key assms(2) by (simp add: frame_def same_request_def push_token_def)
qed (simp_all add: push_token_def)

lemma finish_frame:
  assumes inv: "sched_inv s" and "kv s = None" and r: "runs r s"
  shows "frame {r} s (finish eng now r s)"
    and "objects (finish eng now r s) r = (objects s r)\<lparr>status := COMPLETED, end_time := Some now\<rparr>"
    and "running_requests (manager (finish eng now r s)) = AList.delete (request_id (objects s r)) (running_requests (manager s))"
    and "completed_requests (manager (finish eng now r s)) = completed_requests (manager s) @ [(request_id (objects s r), r)]"
proof -
  let ?i = "request_id (objects s r)"
  have look: "map_of (running_requests (manager s)) ?i = Some r"
    using running_keys_distinct [OF inv] r by simp
  obtain res st m where c: "complete_request ?i now (objects s) (manager s) = (res, st, m)"
    using prod_cases3 by blast
  have f: "finish eng now r s = s\<lparr>kv := None, objects := st, manager := m\<rparr>"
    using c assms(2) by (simp add: finish_def free_cache_def Let_def)
  have st: "st = (objects s)(r := (objects s r)\<lparr>status := COMPLETED, end_time := Some now\<rparr>)"
    and m: "m = (manager s)\<lparr>running_requests := AList.delete ?i (running_requests (manager s)),
             completed_requests := AList.update ?i r (completed_requests (manager s))\<rparr>"
    using c look by (auto simp: complete_request_def finish_request_def)
  have new: "completed_requests m = completed_requests (manager s) @ [(?i, r)]"
    using running_key_not_completed [OF inv r] by (simp add: m update_new_key)
  have F: "queue_inv st m" "mset (refs m) = mset (refs (manager s))"
    using finish_request_inv [OF inv, of COMPLETED ?i now res st m] c by (simp_all add: complete_request_def)
  have other: "(i, x) \<in> set (AList.delete ?i (running_requests (manager s))) \<longleftrightarrow> (i, x) \<in> set (running_requests (manager s))"
    if "x \<noteq> r" for i x
  proof -
    have "(i, x) \<in> set (running_requests (manager s)) \<Longrightarrow> i \<noteq> ?i"
      using look running_keys_distinct [OF inv] that by (metis map_of_is_SomeI option.inject)
    then show ?thesis by (auto simp: AList.delete_eq)
  qed
  show "frame {r} s (finish eng now r s)"
    using F(1) mset_eq_setD [OF F(2)] other by (simp add: f frame_def st same_request_def, simp add: m)
  show "objects (finish eng now r s) r = (objects s r)\<lparr>status := COMPLETED, end_time := Some now\<rparr>"
    "running_requests (manager (finish eng now r s)) = AList.delete ?i (running_requests (manager s))"
    "completed_requests (manager (finish eng now r s)) = completed_requests (manager s) @ [(?i, r)]"
    using new by (simp_all add: f st, simp add: m)
qed

section \<open>Decoding one request\<close>

definition stopped :: "('t, 'x) engine \<Rightarrow> inference_request \<Rightarrow> bool" where
  "stopped eng q \<longleftrightarrow> at_max q \<or> output_token_ids q \<noteq> [] \<and> last (output_token_ids q) = eos_token_id eng"

definition continues :: "nat \<Rightarrow> nat \<Rightarrow> ('t, 'x) scheduler \<Rightarrow> ('t, 'x) scheduler \<Rightarrow> bool" where
  "continues n r s s' \<longleftrightarrow> manager s' = manager s \<and> status (objects s' r) = status (objects s r) \<and>
     \<not> at_max (objects s' r) \<and>
     length (output_token_ids (objects s r)) + n \<le> length (output_token_ids (objects s' r))"

definition completes :: "('t, 'x) engine \<Rightarrow> nat \<Rightarrow> ('t, 'x) scheduler \<Rightarrow> ('t, 'x) scheduler \<Rightarrow> bool" where
  "completes eng r s s' \<longleftrightarrow>
     running_requests (manager s') = AList.delete (request_id (objects s r)) (running_requests (manager s)) \<and>
     completed_requests (manager s') = completed_requests (manager s) @ [(request_id (objects s r), r)] \<and>
     status (objects s' r) = COMPLETED \<and> stopped eng (objects s' r)"

abbreviation below :: "inference_request \<Rightarrow> bool" where
  "below q \<equiv> output_token_ids q = [] \<or> \<not> at_max q"

abbreviation bounded :: "inference_request \<Rightarrow> bool" where
  "bounded q \<equiv> int (length (output_token_ids q)) \<le> max 1 (max_tokens (sampling q))"

definition decoded :: "('t, 'x) engine \<Rightarrow> nat \<Rightarrow> nat \<Rightarrow> ('t, 'x) scheduler \<Rightarrow> ('t, 'x) scheduler \<Rightarrow> bool" where
  "decoded eng n r s s' \<longleftrightarrow> frame {r} s s' \<and> (continues n r s s' \<or> completes eng r s s') \<and>
     (below (objects s r) \<longrightarrow> bounded (objects s' r))"

lemma frame_inv: "frame B s s' \<Longrightarrow> sched_inv s' \<and> kv s' = None"
  by (simp add: frame_def)

lemma frame_tweak:
  assumes "sched_inv s" and "kv s = None"
  shows "frame B s (s\<lparr>env := x\<rparr>)" "frame B s (s\<lparr>kv := None, env := x\<rparr>)" "frame B s (s\<lparr>speculative_total := n\<rparr>)"
  using assms by (simp_all add: frame_def)

lemma finish_now:
  assumes "sched_inv s" and "kv s = None" and "runs r s" and "stopped eng (objects s r)" and "bounded (objects s r)"
  shows "frame {r} s (finish eng now r s) \<and> completes eng r s (finish eng now r s) \<and>
    bounded (objects (finish eng now r s) r)"
  using finish_frame [OF assms(1-3), of eng now] assms(4,5)
  by (simp add: completes_def stopped_def at_max_def)

lemma after_token:
  assumes inv: "sched_inv s" "kv s = None" and r: "runs r s" and s1: "s1 = push_token r t s"
  shows "decoded eng 1 r s (if should_stop eng (objects s1 r) t then finish eng now r s1 else s1)"
proof -
  note P = push_token_frame [OF inv, of r t, folded s1]
  have fr: "sched_inv s1" "kv s1 = None" using frame_inv [OF P(1)] by auto
  have r1: "runs r s1" using r P(2,3) by simp
  have b: "bounded (objects s1 r)" if "below (objects s r)"
    using that P(2) by (auto simp: at_max_def)
  show ?thesis
  proof (cases "should_stop eng (objects s1 r) t")
    case True
    have "stopped eng (objects s1 r)" using True P(2) by (auto simp: stopped_def should_stop_def at_max_def)
    then have F: "frame {r} s1 (finish eng now r s1)" "completes eng r s1 (finish eng now r s1)"
      "output_token_ids (objects (finish eng now r s1) r) = output_token_ids (objects s1 r)"
      "sampling (objects (finish eng now r s1) r) = sampling (objects s1 r)"
      using finish_frame [OF fr r1, of eng now] by (simp_all add: completes_def stopped_def at_max_def)
    have "frame {r} s (finish eng now r s1)" using frame_trans [OF P(1) F(1)] by simp
    moreover have "completes eng r s (finish eng now r s1)" using F(2) P(2,3) by (simp add: completes_def)
    ultimately show ?thesis using True b F(3,4) by (simp add: decoded_def)
  next
    case False
    then have "continues 1 r s s1" using P(2,3) by (simp add: continues_def should_stop_def at_max_def)
    then show ?thesis using False b P(1) by (simp add: decoded_def)
  qed
qed

lemma decoded_pre:
  assumes "frame {r} s s1" and "objects s1 = objects s" and "manager s1 = manager s" and "decoded eng n r s1 s'"
  shows "decoded eng n r s s'"
  using assms frame_trans [OF assms(1), of "{r}" s'] by (simp add: decoded_def continues_def completes_def)

lemma decoded_continues:
  assumes "frame {r} s s1" and c: "continues 0 r s s1" and "decoded eng 0 r s1 s'"
  shows "decoded eng 0 r s s'"
proof -
  have "frame {r} s s'" using frame_trans [OF assms(1), of "{r}" s'] assms(3) by (simp add: decoded_def)
  moreover have "request_id (objects s1 r) = request_id (objects s r)"
    using assms(1) by (simp add: frame_def same_request_def)
  ultimately show ?thesis
    using assms(3) c by (auto simp: decoded_def continues_def completes_def)
qed

lemma decode_mock_decoded:
  assumes inv: "sched_inv s" "kv s = None" and r: "runs r s"
    and d: "decode_mock eng fin r (done, s) = (res, done', s')"
  shows "res = Inr () \<and> decoded eng 1 r s s'"
proof (cases "at_max (objects s r)")
  case True
  then have s': "s' = finish eng (fin r) r s" "res = Inr ()" using d by (auto simp: decode_mock_def)
  have "stopped eng (objects s r)" using True by (simp add: stopped_def)
  then show ?thesis
    using finish_frame [OF inv r, of eng "fin r"] True
    by (auto simp: s' decoded_def completes_def stopped_def at_max_def)
next
  case False
  then show ?thesis
    using after_token [OF inv r refl, of eng 100 "fin r"] d by (auto simp: decode_mock_def Let_def split: if_splits)
qed

lemma decode_model_decoded:
  assumes inv: "sched_inv s" "kv s = None" and r: "runs r s" and i: "decode_token (objects s r) = Inr input"
    and d: "decode_model eng M fin r (done, s) = (res, done', s')"
  shows "res = Inr () \<and> decoded eng 1 r s s'"
proof -
  let ?q = "objects s r"
  obtain t c x where n: "next_token M input (request_id ?q) (sampling ?q) (prompt_token_ids ?q @ output_token_ids ?q) (kv s, env s) = (t, c, x)"
    using prod_cases3 by blast
  let ?s = "s\<lparr>kv := None, env := x\<rparr>"
  have fr: "frame {r} s ?s" by (rule frame_tweak(2) [OF inv])
  have "decoded eng 1 r ?s (if should_stop eng (objects (push_token r t ?s) r) t then finish eng (fin r) r (push_token r t ?s) else push_token r t ?s)"
    by (rule after_token) (use inv r in simp_all)
  then have "decoded eng 1 r s (if should_stop eng (objects (push_token r t ?s) r) t then finish eng (fin r) r (push_token r t ?s) else push_token r t ?s)"
    by (rule decoded_pre [OF fr, rotated 2]) simp_all
  then show ?thesis
    using d i n inv(2) by (auto simp: decode_model_def Let_def split: if_splits)
qed

lemma decode_token_Inl: "decode_token q = Inl e \<Longrightarrow> prompt_token_ids q = []"
  by (auto simp: decode_token_def split: if_splits)

lemma decode_model_raises:
  assumes "decode_token (objects s r) = Inl e" and "decode_model eng M fin r (done, s) = (res, done', s')"
  shows "s' = s"
  using assms by (simp add: decode_model_def Let_def)

lemma accept_tokens_decoded:
  assumes "sched_inv s" "kv s = None" and "runs r s" and "\<not> at_max (objects s r)"
    and "accept_tokens eng fin r ts (done, s) = (done', s')"
  shows "decoded eng 0 r s s'"
  using assms
proof (induction ts arbitrary: s)
  case Nil
  then show ?case
    using frame_refl [of s "{r}"] by (auto simp: decoded_def continues_def at_max_def)
next
  case (Cons t ts)
  let ?s = "s\<lparr>speculative_total := speculative_total s + 1\<rparr>"
  let ?s1 = "(push_token r t s)\<lparr>speculative_total := speculative_total s + 1\<rparr>"
  have s1: "?s1 = push_token r t ?s" by (simp add: push_token_def)
  have fr: "frame {r} s ?s" by (rule frame_tweak(3) [OF Cons.prems(1,2)])
  have "decoded eng 1 r ?s (if should_stop eng (objects ?s1 r) t then finish eng (fin r) r ?s1 else ?s1)"
    by (rule after_token [OF _ _ _ s1]) (use Cons.prems in simp_all)
  then have d: "decoded eng 1 r s (if should_stop eng (objects ?s1 r) t then finish eng (fin r) r ?s1 else ?s1)"
    by (rule decoded_pre [OF fr, rotated 2]) simp_all
  show ?case
  proof (cases "should_stop eng (objects ?s1 r) t")
    case True
    then show ?thesis using d Cons.prems(5) by (auto simp: Let_def decoded_def continues_def)
  next
    case False
    then have d1: "decoded eng 1 r s ?s1" using d by simp
    have c: "manager ?s1 = manager s" "\<not> at_max (objects ?s1 r)" "frame {r} s ?s1"
      using d1 False by (auto simp: decoded_def push_token_def should_stop_def at_max_def)
    have run: "runs r ?s1" using Cons.prems(3) by (simp add: push_token_def)
    have "accept_tokens eng fin r ts (done, ?s1) = (done', s')" using Cons.prems(5) False by (simp add: Let_def)
    then have "decoded eng 0 r ?s1 s'"
      using frame_inv [OF c(3)] by (intro Cons.IH [OF _ _ run c(2)]) simp_all
    moreover have "continues 0 r s ?s1" using c by (simp add: continues_def push_token_def)
    ultimately show ?thesis using decoded_continues [OF c(3)] by blast
  qed
qed

lemma decode_speculative_decoded:
  assumes inv: "sched_inv s" "kv s = None" and r: "runs r s"
    and d: "decode_speculative eng D fin r (done, s) = (res, done', s')"
  shows "res = Inr () \<and> decoded eng 0 r s s'"
proof (cases "at_max (objects s r)")
  case True
  then have s': "s' = finish eng (fin r) r s" "res = Inr ()" using d by (auto simp: decode_speculative_def Let_def)
  then show ?thesis
    using finish_frame [OF inv r, of eng "fin r"] True
    by (auto simp: decoded_def completes_def stopped_def at_max_def)
next
  case False
  let ?q = "objects s r"
  obtain ts x where D: "D (prompt_token_ids ?q @ output_token_ids ?q) (sampling ?q) (request_id ?q) (env s) = (ts, x)" by force
  have a: "accept_tokens eng fin r ts (done, s\<lparr>env := x\<rparr>) = (done', s')" "res = Inr ()"
    using d False D by (auto simp: decode_speculative_def Let_def)
  have "decoded eng 0 r (s\<lparr>env := x\<rparr>) s'"
    by (rule accept_tokens_decoded [OF _ _ _ _ a(1)]) (use inv r False in simp_all)
  then show ?thesis
    using decoded_pre [OF frame_tweak(1) [OF inv]] a(2) by simp
qed

end
