(* ===== verification/Sched_Batch.thy ===== *)
theory Sched_Batch
  imports Sched_Step
begin

text \<open>
  From single requests to batches: what the three ways of decoding have in common is the contract of
  the locale \<open>decode_step\<close>, on which a whole batch is reasoned about once.
\<close>

section \<open>The contract of decoding one request\<close>

locale decode_step =
  fixes eng :: "('t, 'x) engine"
    and n :: nat
    and dec :: "nat \<Rightarrow> nat list \<times> ('t, 'x) scheduler \<Rightarrow> (py_error, unit, nat list \<times> ('t, 'x) scheduler) outcome"
  assumes dec_ok: "\<lbrakk>sched_inv s; kv s = None; runs r s; prompt_token_ids (objects s r) \<noteq> [];
      dec r (done, s) = (res, done', s')\<rbrakk> \<Longrightarrow> res = Inr () \<and> decoded eng n r s s'"
    and dec_empty: "\<lbrakk>sched_inv s; kv s = None; runs r s; prompt_token_ids (objects s r) = [];
      dec r (done, s) = (res, done', s')\<rbrakk> \<Longrightarrow> s' = s \<or> decoded eng n r s s'"
begin

lemma dec_frame:
  assumes "sched_inv s" "kv s = None" "runs r s" "dec r (done, s) = (res, done', s')"
  shows "frame {r} s s'"
proof (cases "prompt_token_ids (objects s r) = []")
  case True
  then show ?thesis
    using dec_empty [OF assms(1-3) True assms(4)] frame_refl [OF assms(1,2)] by (auto simp: decoded_def)
next
  case False
  then show ?thesis using dec_ok [OF assms(1-3) False assms(4)] by (simp add: decoded_def)
qed

lemma batch_frame:
  assumes "sched_inv s" "kv s = None" "distinct batch" "\<And>r. r \<in> set batch \<Longrightarrow> runs r s"
  shows "frame (set batch) s (after_step (for_each dec batch (done, s)))"
  using assms
proof (induction batch arbitrary: "done" s)
  case Nil
  then show ?case using frame_refl by simp
next
  case (Cons r rs)
  obtain res done1 s1 where d: "dec r (done, s) = (res, done1, s1)" using prod_cases3 by blast
  have r: "runs r s" using Cons.prems(4) by simp
  have f: "frame {r} s s1" by (rule dec_frame [OF Cons.prems(1,2) r d])
  have inv1: "sched_inv s1" "kv s1 = None" using frame_inv [OF f] by auto
  have run1: "runs x s1" if "x \<in> set rs" for x
    using frame_runs [OF f, of x] Cons.prems(3,4) that by auto
  have "distinct rs" using Cons.prems(3) by simp
  from Cons.IH [OF inv1 this run1, of done1]
  have IH: "frame (set rs) s1 (after_step (for_each dec rs (done1, s1)))" .
  show ?case
  proof (cases res)
    case (Inl e)
    then show ?thesis using d frame_mono [OF f, of "set (r # rs)"] by (simp add: and_then_def)
  next
    case (Inr u)
    then show ?thesis using d frame_trans [OF f IH] by simp
  qed
qed

end

interpretation mock_decode: decode_step eng 1 "decode_mock eng fin" for eng fin
  by unfold_locales (use decode_mock_decoded in blast)+

interpretation model_decode: decode_step eng 1 "decode_model eng M fin" for eng M fin
proof (unfold_locales, goal_cases)
  case (1 s r "done" res done' s')
  then obtain input where "decode_token (objects s r) = Inr input"
    using decode_token_Inl by (cases "decode_token (objects s r)") auto
  then show ?case using decode_model_decoded 1 by blast
next
  case (2 s r "done" res done' s')
  then show ?case
    using decode_model_decoded [OF 2(1-3)] decode_model_raises
    by (cases "decode_token (objects s r)") blast+
qed

interpretation spec_decode: decode_step eng 0 "decode_speculative eng D fin" for eng D fin
  by unfold_locales (use decode_speculative_decoded in blast)+

section \<open>A batch\<close>

lemma execute_decode_frame:
  assumes "sched_inv s" "kv s = None" "distinct batch" "\<And>r. r \<in> set batch \<Longrightarrow> runs r s"
  shows "frame (set batch) s (after_step (execute_decode eng fin batch s))"
  using mock_decode.batch_frame [OF assms] model_decode.batch_frame [OF assms] spec_decode.batch_frame [OF assms]
  by (auto simp: execute_decode_def split: option.split)

lemma execute_prefill_frame:
  assumes "sched_inv s" "kv s = None" "distinct batch" "\<And>r. r \<in> set batch \<Longrightarrow> runs r s"
  shows "frame (set batch) s (execute_prefill eng batch s) \<and> manager (execute_prefill eng batch s) = manager s \<and>
    (\<forall>r\<in>set batch. status (objects (execute_prefill eng batch s) r) = RUNNING_DECODE \<and>
       output_token_ids (objects (execute_prefill eng batch s) r) = output_token_ids (objects s r))"
  using assms unfolding execute_prefill_def
proof (induction batch arbitrary: s)
  case Nil
  then show ?case using frame_refl by simp
next
  case (Cons r rs)
  let ?s = "prefill_one eng r s"
  have r: "runs r s" using Cons.prems(4) by simp
  note P = prefill_one_frame [OF Cons.prems(1,2) r, of eng]
  have inv1: "sched_inv ?s" "kv ?s = None" using frame_inv [OF P(1)] by auto
  have run1: "runs x ?s" if "x \<in> set rs" for x
    using frame_runs [OF P(1), of x] Cons.prems(3,4) that by auto
  have d: "distinct rs" "r \<notin> set rs" using Cons.prems(3) by auto
  note IH = Cons.IH [OF inv1 d(1) run1]
  have fr: "frame (set rs) ?s (fold (prefill_one eng) rs ?s)" using IH by blast
  have "frame (set (r # rs)) s (fold (prefill_one eng) rs ?s)" using frame_trans [OF P(1) fr] by simp
  moreover have "objects (fold (prefill_one eng) rs ?s) r = objects ?s r" using fr d(2) by (simp add: frame_def)
  moreover have "objects ?s x = objects s x" if "x \<in> set rs" for x
    using P(1) that d(2) by (auto simp: frame_def)
  ultimately show ?case using IH P(2,3) by simp
qed

end
