(* ===== verification/Sched_Starve.thy ===== *)
theory Sched_Starve
  imports Sched_Batch
begin

text \<open>
  A step of the scheduler without a key/value cache, and what becomes of a request that is taken
  from the queue but does not fit into the prefill batch of that step.
\<close>

section \<open>Taking requests from the queue\<close>

lemma pop_requests_result:
  assumes "queue_inv st m" and "pop_requests k clock i st m = (rs, st', m')"
  shows "running_requests m' = running_requests m @ map (\<lambda>r. (request_id (st r), r)) rs \<and>
    completed_requests m' = completed_requests m \<and> mset (pending_queue m) = mset rs + mset (pending_queue m') \<and>
    length rs = min k (length (pending_queue m)) \<and>
    (\<forall>x. same_request (st x) (st' x) \<and> output_token_ids (st' x) = output_token_ids (st x) \<and>
       (if x \<in> set rs then status (st' x) = RUNNING_PREFILL else st' x = st x))"
  using assms
proof (induction k arbitrary: i st m rs)
  case 0
  then show ?case by simp
next
  case (Suc k)
  show ?case
  proof (cases "pending_queue m = []")
    case True
    then show ?thesis using Suc.prems(2) by simp
  next
    case False
    obtain r rest where pop: "heappop (ref_lt st) (pending_queue m) = (r, rest)" by force
    define st1 where "st1 = st(r := (st r)\<lparr>status := RUNNING_PREFILL, start_time := Some (clock i)\<rparr>)"
    define m1 where "m1 = m\<lparr>pending_queue := rest,
       running_requests := AList.update (request_id (st r)) r (running_requests m)\<rparr>"
    obtain rs1 where rs: "rs = r # rs1" and p1: "pop_requests k clock (Suc i) st1 m1 = (rs1, st', m')"
      using Suc.prems(2) False by (auto simp: pop st1_def m1_def split: prod.splits)
    have "pop_requests 1 clock i st m = ([r], st1, m1)"
      using False by (simp add: pop st1_def m1_def)
    then have inv1: "queue_inv st1 m1" using pop_requests_inv [OF Suc.prems(1), of 1 clock i st1 m1] by simp
    have ms: "mset (pending_queue m) = add_mset r (mset rest)" "length (pending_queue m) = Suc (length rest)"
      using mset_heappop [OF False, of "ref_lt st"] length_heappop [OF False, of "ref_lt st"] False pop by auto
    have mem: "r \<in> set (pending_queue m)" using ms(1) by (metis set_mset_mset union_single_eq_member)
    have "request_id (st r) \<notin> keys_of (running_requests m)"
      using ids_disjoint(1) [OF Suc.prems(1) mem] queue_invD(4) [OF Suc.prems(1)] by (auto simp: keys_of_def) metis
    then have run: "running_requests m1 = running_requests m @ [(request_id (st r), r)]"
      by (simp add: m1_def update_new_key)
    have rest: "pending_queue m1 = rest" "completed_requests m1 = completed_requests m" by (simp_all add: m1_def)
    have "r \<notin> set rest"
      using ids_disjoint(4) [OF Suc.prems(1)] mset_eq_imp_distinct_iff [of "r # rest" "pending_queue m"] ms by simp
    note IH = Suc.IH [OF inv1 p1]
    have ids: "request_id (st1 x) = request_id (st x)" for x by (simp add: st1_def)
    have st1: "same_request (st x) (st1 x)" "output_token_ids (st1 x) = output_token_ids (st x)"
      "x \<noteq> r \<Longrightarrow> st1 x = st x" for x
      by (auto simp: st1_def same_request_def)
    have st1r: "status (st1 r) = RUNNING_PREFILL" by (simp add: st1_def)
    have "set rs1 \<subseteq> set rest" using IH rest by (metis set_mset_mset set_mset_union sup_ge1)
    then have "r \<notin> set rs1" using \<open>r \<notin> set rest\<close> by blast
    have obj: "same_request (st x) (st' x) \<and> output_token_ids (st' x) = output_token_ids (st x) \<and>
       (if x \<in> set rs then status (st' x) = RUNNING_PREFILL else st' x = st x)" for x
    proof -
      have "same_request (st1 x) (st' x)" "output_token_ids (st' x) = output_token_ids (st1 x)"
        "if x \<in> set rs1 then status (st' x) = RUNNING_PREFILL else st' x = st1 x" using IH by blast+
      then show ?thesis
        using st1 [of x] st1r \<open>r \<notin> set rs1\<close> same_request_trans [of "st x" "st1 x" "st' x"]
        by (cases "x = r") (auto simp: rs)
    qed
    have "running_requests m' = running_requests m @ map (\<lambda>r. (request_id (st r), r)) rs"
      "completed_requests m' = completed_requests m"
      "mset (pending_queue m) = mset rs + mset (pending_queue m')"
      "length rs = min (Suc k) (length (pending_queue m))"
      using IH run rest ms by (simp_all add: rs ids)
    then show ?thesis using obj by blast
  qed
qed

section \<open>The step\<close>

lemma allocate_for_none: "kv s = None \<Longrightarrow> for_each (allocate_for eng) rs s = (Inr (), s)"
  by (induction rs) (simp_all add: allocate_for_def)

text \<open>The state of a step once the requests are taken, and the batches it forms.\<close>

definition step_taken :: "('t, 'x) engine \<Rightarrow> (nat \<Rightarrow> real) \<Rightarrow> ('t, 'x) scheduler \<Rightarrow> nat list \<times> ('t, 'x) scheduler" where
  "step_taken eng clk s =
     (let (pending, st, m) = get_next_requests (max_batch_size (batcher_of eng)) clk (objects s) (manager s)
      in (pending, s\<lparr>step_count := step_count s + 1, objects := st, manager := m\<rparr>))"

definition batches :: "('t, 'x) engine \<Rightarrow> (nat \<Rightarrow> real) \<Rightarrow> ('t, 'x) scheduler \<Rightarrow> nat list \<times> nat list" where
  "batches eng clk s =
     (let (pending, s1) = step_taken eng clk s in
      form_batches (batcher_of eng) (objects s1) pending (get_running_requests (manager s1)))"

lemma step_eq:
  assumes "kv s = None" and t: "step_taken eng clk s = (pending, s1)" and b: "batches eng clk s = (prefill, decode)"
  shows "step eng clk fin s =
    (let s2 = (if prefill \<noteq> [] then execute_prefill eng prefill s1 else s1)
     in if decode \<noteq> [] then execute_decode eng fin decode s2 else (Inr (), [], s2))"
proof -
  obtain st m where g: "get_next_requests (max_batch_size (batcher_of eng)) clk (objects s) (manager s) = (pending, st, m)"
    and s1: "s1 = s\<lparr>step_count := step_count s + 1, objects := st, manager := m\<rparr>"
    using t by (auto simp: step_taken_def split: prod.splits)
  have fb: "form_batches (batcher_of eng) (objects s1) pending (get_running_requests (manager s1)) = (prefill, decode)"
    using b t by (simp add: batches_def)
  show ?thesis
  proof (cases "pending = [] \<and> get_running_requests m = []")
    case True
    then have "prefill = []" "decode = []"
      using fb s1 by (auto simp: form_batches_def decoding_def Let_def py_take_def split: if_splits)
    then show ?thesis using True g s1 by (simp add: step_def)
  next
    case False
    then show ?thesis
      using g s1 fb assms(1) allocate_for_none [of s1 eng pending]
      by (auto simp: step_def work_def Let_def)
  qed
qed

lemma taken_result:
  assumes inv: "sched_inv s" "kv s = None" and t: "step_taken eng clk s = (pending, s1)"
  shows "sched_inv s1 \<and> kv s1 = None \<and> is_running s1 = is_running s \<and>
    set (refs (manager s1)) = set (refs (manager s)) \<and>
    running_requests (manager s1) = running_requests (manager s) @ map (\<lambda>r. (request_id (objects s r), r)) pending \<and>
    completed_requests (manager s1) = completed_requests (manager s) \<and>
    mset (pending_queue (manager s)) = mset pending + mset (pending_queue (manager s1)) \<and>
    length pending = min (nat (max_batch_size (batcher_of eng))) (length (pending_queue (manager s))) \<and>
    (\<forall>x. same_request (objects s x) (objects s1 x) \<and> output_token_ids (objects s1 x) = output_token_ids (objects s x) \<and>
       (if x \<in> set pending then status (objects s1 x) = RUNNING_PREFILL else objects s1 x = objects s x))"
proof -
  obtain st m where g: "pop_requests (nat (max_batch_size (batcher_of eng))) clk 0 (objects s) (manager s) = (pending, st, m)"
    and s1: "s1 = s\<lparr>step_count := step_count s + 1, objects := st, manager := m\<rparr>"
    using t by (auto simp: step_taken_def get_next_requests_def split: prod.splits)
  show ?thesis
    using pop_requests_inv [OF inv(1), of "nat (max_batch_size (batcher_of eng))" clk 0 st m] pop_requests_result [OF inv(1) g] g inv(2)
    by (simp add: s1)
qed

lemma subseq_elements: "subseq xs ys \<Longrightarrow> set xs \<subseteq> set ys \<and> (distinct ys \<longrightarrow> distinct xs)"
  by (induction rule: list_emb.induct) auto

text \<open>Every request of a batch is running, and no request is twice in the batches.\<close>

lemma batches_ok:
  assumes inv: "sched_inv s" "kv s = None" and t: "step_taken eng clk s = (pending, s1)"
    and b: "batches eng clk s = (prefill, decode)"
  shows "distinct prefill \<and> distinct decode \<and> set prefill \<inter> set decode = {} \<and> set prefill \<subseteq> set pending \<and>
    (\<forall>r\<in>set prefill \<union> set decode. runs r s1) \<and> (\<forall>r\<in>set decode. status (objects s1 r) = RUNNING_DECODE)"
proof -
  note T = taken_result [OF inv t]
  have fb: "form_batches (batcher_of eng) (objects s1) pending (get_running_requests (manager s1)) = (prefill, decode)"
    using b t by (simp add: batches_def)
  obtain new where new: "prefill = new" "subseq new pending"
    using fb select_loop_spec [of "objects s1" "[]" 0]
    by (auto simp: form_batches_def Let_def fill_prefill_select)
  have dec: "\<exists>k. decode = take k (decoding (objects s1) (get_running_requests (manager s1)))"
    using fb by (auto simp: form_batches_def Let_def py_take_def split: if_splits intro: exI [of _ "length (decoding (objects s1) (get_running_requests (manager s1)))"])
  have dref: "distinct (refs (manager s1))" using T queue_invD(2) [of "objects s1" "manager s1"] by (simp add: distinct_map)
  then have drun: "distinct (get_running_requests (manager s1))" by (simp add: refs_def get_running_requests_def)
  have "distinct pending" using drun T by (simp add: get_running_requests_def comp_def)
  then have d1: "distinct prefill" "set prefill \<subseteq> set pending"
    using new subseq_elements [of new pending] by auto
  have sub: "set decode \<subseteq> set (decoding (objects s1) (get_running_requests (manager s1)))"
    using dec by (auto dest: in_set_takeD)
  then have d2: "r \<in> set (get_running_requests (manager s1))" "status (objects s1 r) = RUNNING_DECODE"
    if "r \<in> set decode" for r using that by (auto simp: decoding_def)
  have "distinct decode" using dec drun by (auto simp: decoding_def)
  moreover have "runs r s1" if "r \<in> set prefill" for r
  proof -
    have "r \<in> set pending" using that d1(2) by blast
    then have "(request_id (objects s r), r) \<in> set (running_requests (manager s1))" using T by simp
    then show ?thesis using T by (simp add: same_request_def)
  qed
  moreover have "runs r s1" if r: "r \<in> set decode" for r
  proof -
    obtain i where i: "(i, r) \<in> set (running_requests (manager s1))"
      using d2(1) [OF r] unfolding get_running_requests_def by auto
    moreover have "sched_inv s1" using T by blast
    ultimately show ?thesis using queue_invD(4) by metis
  qed
  moreover have "set prefill \<inter> set decode = {}"
  proof -
    have "status (objects s1 r) = RUNNING_PREFILL" if "r \<in> set prefill" for r using that d1(2) T by auto
    then show ?thesis using d2(2) by force
  qed
  ultimately show ?thesis using d1 d2 by blast
qed

lemma step_frame:
  assumes inv: "sched_inv s" "kv s = None" and t: "step_taken eng clk s = (pending, s1)"
    and b: "batches eng clk s = (prefill, decode)"
  shows "frame (set prefill \<union> set decode) s1 (after_step (step eng clk fin s))"
proof -
  note B = batches_ok [OF inv t b] and T = taken_result [OF inv t]
  let ?s2 = "if prefill \<noteq> [] then execute_prefill eng prefill s1 else s1"
  have inv1: "sched_inv s1" "kv s1 = None" using T by blast+
  have f2: "frame (set prefill) s1 ?s2"
    using execute_prefill_frame [OF inv1, of prefill eng] B frame_refl [OF inv1] by auto
  have inv2: "sched_inv ?s2" "kv ?s2 = None" using frame_inv [OF f2] by blast+
  have run2: "runs r ?s2" if "r \<in> set decode" for r
  proof -
    have "r \<notin> set prefill" "runs r s1" using B that by auto
    then show ?thesis using frame_runs [OF f2] by blast
  qed
  have "frame (set decode) ?s2 (after_step (execute_decode eng fin decode ?s2))"
    by (rule execute_decode_frame [OF inv2 _ run2]) (use B in simp_all)
  from frame_trans [OF f2 this] show ?thesis
    unfolding step_eq [OF inv(2) t b] Let_def using frame_mono [OF f2, of "set prefill \<union> set decode"]
    by (cases "decode = []") simp_all
qed

lemma step_inv:
  assumes inv: "sched_inv s" "kv s = None"
  shows "sched_inv (after_step (step eng clk fin s)) \<and> kv (after_step (step eng clk fin s)) = None \<and>
    is_running (after_step (step eng clk fin s)) = is_running s"
proof -
  obtain pending s1 where t: "step_taken eng clk s = (pending, s1)" by force
  obtain prefill decode where b: "batches eng clk s = (prefill, decode)" by force
  show ?thesis
    using step_frame [OF inv t b, of fin] taken_result [OF inv t] by (simp add: frame_def)
qed

section \<open>Starvation\<close>

text \<open>A running request whose prompt was not processed when it was taken from the queue.\<close>

definition starved :: "nat \<Rightarrow> ('t, 'x) scheduler \<Rightarrow> bool" where
  "starved r s \<longleftrightarrow> sched_inv s \<and> kv s = None \<and> runs r s \<and> status (objects s r) = RUNNING_PREFILL"

lemma starved_step:
  assumes "starved r s"
  shows "starved r (after_step (step eng clk fin s))"
    and "output_token_ids (objects (after_step (step eng clk fin s)) r) = output_token_ids (objects s r)"
proof -
  let ?s' = "after_step (step eng clk fin s)"
  have inv: "sched_inv s" "kv s = None" and r: "runs r s" "status (objects s r) = RUNNING_PREFILL"
    using assms by (auto simp: starved_def)
  obtain pending s1 where t: "step_taken eng clk s = (pending, s1)" by force
  obtain prefill decode where b: "batches eng clk s = (prefill, decode)" by force
  note B = batches_ok [OF inv t b] and T = taken_result [OF inv t]
  have "set pending \<subseteq> set (pending_queue (manager s))"
    using T by (metis set_mset_mset set_mset_union sup_ge1)
  then have "r \<notin> set pending" using ids_disjoint(1) [OF inv(1) _ r(1), of r] by blast
  then have o: "objects s1 r = objects s r" using T by auto
  then have out: "r \<notin> set prefill \<union> set decode" using \<open>r \<notin> set pending\<close> B r(2) by auto
  have r1: "runs r s1" using r(1) T o by simp
  have F: "frame (set prefill \<union> set decode) s1 ?s'" by (rule step_frame [OF inv t b])
  have o': "objects ?s' r = objects s r" using F out o by (simp add: frame_def)
  show "starved r ?s'"
    using step_inv [OF inv, of eng clk fin] frame_runs [OF F out] r1 o' r(2) by (simp add: starved_def)
  show "output_token_ids (objects ?s' r) = output_token_ids (objects s r)" using o' by simp
qed

text \<open>The scheduler after \<open>n\<close> more steps, an exception of a step being handled by the caller.\<close>

fun steps :: "('t, 'x) engine \<Rightarrow> (nat \<Rightarrow> nat \<Rightarrow> real) \<Rightarrow> (nat \<Rightarrow> nat \<Rightarrow> real) \<Rightarrow> nat \<Rightarrow> ('t, 'x) scheduler \<Rightarrow> ('t, 'x) scheduler" where
  "steps eng clk fin 0 s = s"
| "steps eng clk fin (Suc n) s = steps eng clk fin n (after_step (step eng (clk n) (fin n) s))"

lemma starved_steps:
  "starved r s \<Longrightarrow> starved r (steps eng clk fin n s) \<and>
    output_token_ids (objects (steps eng clk fin n s) r) = output_token_ids (objects s r)"
  by (induction n arbitrary: s) (auto simp: starved_step)

lemma starved_run_loop:
  assumes "run_loop eng clk fin max_steps n s = Some y"
  shows "max_steps = None \<and> is_running s \<and> starved r s \<longrightarrow> (\<exists>e. fst y = Inl e)"
proof (rule run_loop.raw_induct [where P = "\<lambda>eng clk fin max_steps n s y.
    max_steps = None \<and> is_running s \<and> starved r s \<longrightarrow> (\<exists>e. fst y = Inl e)", OF _ assms], intro impI, goal_cases)
  case (1 loop eng clk fin max_steps n s y)
  obtain v d s1 where st: "step eng (clk n) (fin n) s = (v, d, s1)" using prod_cases3 by blast
  have sv: "starved r s1" "is_running s1"
    using starved_step(1) [of r s eng "clk n" "fin n"] step_inv [of s eng "clk n" "fin n"] st 1(3)
    by (simp_all add: starved_def)
  then have "running_requests (manager s1) \<noteq> []" by (auto simp: starved_def)
  then show ?case
    using 1(2,3) st sv 1(1) [of eng clk fin None "Suc n" s1 y]
    by (auto simp: get_stats_def split: sum.splits)
qed

text \<open>
  C40: in a scheduler without a KV cache (so that no request is preempted for memory), a request that
  is taken from the queue but does not fit into the prefill batch of that step is never served. After
  any number of further steps it is still among the running requests, in the prefill state and
  without a new token; and \<open>run()\<close> without a step limit never returns normally after that.
\<close>

theorem unbatched_request_starves:
  assumes "sched_inv s" and "kv s = None" and "step_taken eng (clk 0) s = (pending, s1)"
    and "batches eng (clk 0) s = (prefill, decode)" and "r \<in> set pending" and "r \<notin> set prefill"
    and "s2 = after_step (step eng (clk 0) (fin 0) s)"
  shows "status (objects (steps eng clk' fin' n s2) r) = RUNNING_PREFILL \<and>
    output_token_ids (objects (steps eng clk' fin' n s2) r) = output_token_ids (objects s r) \<and>
    run eng clk' fin' now None s2 \<noteq> Some (Inr (), s3)"
proof -
  note B = batches_ok [OF assms(1-4)] and T = taken_result [OF assms(1-3)]
  have st: "status (objects s1 r) = RUNNING_PREFILL" "output_token_ids (objects s1 r) = output_token_ids (objects s r)"
    using T assms(5) by auto
  have "(request_id (objects s r), r) \<in> set (running_requests (manager s1))" using T assms(5) by simp
  then have r1: "runs r s1" using T by (simp add: same_request_def)
  have out: "r \<notin> set prefill \<union> set decode" using B st assms(6) by auto
  have F: "frame (set prefill \<union> set decode) s1 s2" unfolding assms(7) by (rule step_frame [OF assms(1-4)])
  have s2: "starved r s2" "output_token_ids (objects s2 r) = output_token_ids (objects s r)"
    using frame_inv [OF F] frame_runs [OF F out] r1 st F out by (auto simp: starved_def frame_def)
  have "starved r (s2\<lparr>is_running := True, started := Some now\<rparr>)" using s2(1) by (simp add: starved_def)
  then have "run eng clk' fin' now None s2 \<noteq> Some (Inr (), s3)"
    unfolding run_def using starved_run_loop [of eng clk' fin' None 0 _ "(Inr (), s3)" r] by fastforce
  then show ?thesis
    using starved_steps [OF s2(1), of eng clk' fin' n] s2(2) by (simp add: starved_def)
qed

text \<open>Two requests and a batch of one: the second is taken while the first decodes.\<close>

definition two_requests :: store where
  "two_requests r = new_request (if r = 0 then ''a'' else ''b'') ''hi'' [1, 2] (default_params\<lparr>max_tokens := 2\<rparr>) NORMAL 0"

definition small_engine :: "(unit, unit) engine" where
  "small_engine = \<lparr>model_of = None,
     kv_cfg = \<lparr>num_layers = 1, num_heads = 1, head_dim = 1, max_seq_len = 8, block_size = 2,
       dtype = ''float16'', device = ''cpu''\<rparr>,
     kv_tensors = \<lparr>zero_slice = (), cast = (\<lambda>x. x)\<rparr>, batcher_of = batcher_init 1 64 64, eos_token_id = 2,
     speculative_decoder = None, use_speculative = False\<rparr>"

definition two_pending :: "(unit, unit) scheduler" where
  "two_pending = scheduler_init two_requests
     (snd (add_request 1 two_requests (snd (add_request 0 two_requests (manager_init 8))))) None ()"

definition one_decoding :: "(unit, unit) scheduler" where
  "one_decoding = after_step (step small_engine (\<lambda>_. 0) (\<lambda>_. 0) two_pending)"

lemma two_pending_inv: "sched_inv two_pending" "kv two_pending = None"
proof -
  have p: "pending_queue (snd (add_request 0 two_requests (manager_init 8))) = [0]"
    "running_requests (snd (add_request 0 two_requests (manager_init 8))) = []"
    "completed_requests (snd (add_request 0 two_requests (manager_init 8))) = []" by code_simp+
  then have r: "refs (snd (add_request 0 two_requests (manager_init 8))) = [0]" by (simp add: refs_def)
  have "queue_inv two_requests (snd (add_request 0 two_requests (manager_init 8)))"
    by (rule add_request_inv [OF queue_init_inv]) (simp_all add: two_requests_def new_request_def refs_def manager_init_def)
  then have "queue_inv two_requests (snd (add_request 1 two_requests (snd (add_request 0 two_requests (manager_init 8)))))"
    by (rule add_request_inv) (unfold r, simp_all add: two_requests_def new_request_def)
  then show "sched_inv two_pending" "kv two_pending = None" by (simp_all add: two_pending_def scheduler_init_def)
qed

theorem unbatched_request_starves_witness:
  "fst (step_taken small_engine (\<lambda>_. 0) one_decoding) = [1] \<and> batches small_engine (\<lambda>_. 0) one_decoding = ([], [0]) \<and>
   status (objects (steps small_engine (\<lambda>_ _. 0) (\<lambda>_ _. 0) 100
     (after_step (step small_engine (\<lambda>_. 0) (\<lambda>_. 0) one_decoding))) 1) = RUNNING_PREFILL"
proof -
  have inv: "sched_inv one_decoding" "kv one_decoding = None"
    using step_inv [OF two_pending_inv] by (simp_all add: one_decoding_def)
  have b: "batches small_engine (\<lambda>_. 0) one_decoding = ([], [0])" by code_simp
  have t: "fst (step_taken small_engine (\<lambda>_. 0) one_decoding) = [1]" by code_simp
  then obtain s1 where t1: "step_taken small_engine (\<lambda>_. 0) one_decoding = ([1], s1)" by (metis prod.collapse)
  show ?thesis
    using unbatched_request_starves [where clk = "\<lambda>_ _. 0" and fin = "\<lambda>_ _. 0" and r = 1, OF inv t1 b _ _ refl] b t
    by simp
qed

end
