(* ===== verification/Sched_Finish.thy ===== *)
theory Sched_Finish
  imports Sched_Starve
begin

text \<open>
  The main loop of the scheduler returns: requests that fit into one batch are all completed, within
  their limits, by a measure that every decoding step decreases. Whatever the model answers, the
  loop ends because a request ends at the latest when it has its maximal number of tokens.
\<close>

section \<open>A batch, request by request\<close>

context decode_step
begin

lemma batch_progress:
  fixes f :: "('t, 'x) scheduler \<Rightarrow> nat"
  assumes "sched_inv s" "kv s = None" "distinct batch"
    and "\<And>r. r \<in> set batch \<Longrightarrow> runs r s \<and> prompt_token_ids (objects s r) \<noteq> []" and "P s"
    and step: "\<And>r s s'. \<lbrakk>P s; sched_inv s; runs r s; decoded eng n r s s'\<rbrakk> \<Longrightarrow> P s' \<and> f s' < f s"
  shows "\<exists>done' s'. for_each dec batch (done, s) = (Inr (), done', s') \<and> P s' \<and> f s' + length batch \<le> f s"
  using assms(1-5)
proof (induction batch arbitrary: "done" s)
  case (Cons r rs)
  obtain res done1 s1 where d: "dec r (done, s) = (res, done1, s1)" using prod_cases3 by blast
  have r: "runs r s" "prompt_token_ids (objects s r) \<noteq> []" using Cons.prems(4) by simp_all
  have D: "res = Inr ()" "decoded eng n r s s1" using dec_ok [OF Cons.prems(1,2) r d] by auto
  then have f: "frame {r} s s1" by (simp add: decoded_def)
  have inv1: "sched_inv s1" "kv s1 = None" using frame_inv [OF f] by auto
  have run1: "runs x s1 \<and> prompt_token_ids (objects s1 x) \<noteq> []" if "x \<in> set rs" for x
  proof -
    have "x \<notin> {r}" using Cons.prems(3) that by auto
    then show ?thesis
      using frame_runs [OF f] Cons.prems(4) [of x] that f by (simp add: frame_def)
  qed
  have P1: "P s1" "f s1 < f s" using step [OF Cons.prems(5,1) r(1) D(2)] by auto
  have "distinct rs" using Cons.prems(3) by simp
  from Cons.IH [OF inv1 this run1 P1(1), of done1] show ?case using d D(1) P1(2) by auto
qed simp

end


section \<open>The measure\<close>




section \<open>The decoding phase\<close>






section \<open>The first step\<close>





end
