(* ===== verification/Flow_Types.thy ===== *)
theory Flow_Types
  imports Prelude
begin

text \<open>
  The data of the workflow engine (\<open>28-ai-workflow-engine/src/aiworkflow/schemas.py\<close>): values,
  nodes, edges and flow definitions, and the records of a run. Time stamps and latencies are left
  out of the records; no decision of the engine depends on them.
\<close>

section \<open>Values\<close>

datatype pyval =
    PNone
  | PBool bool
  | PInt int
  | PFloat real
  | PStr string
  | PList "pyval list"
  | PDict "(string \<times> pyval) list"

type_synonym attrs = "(string \<times> pyval) list"

fun truthy :: "pyval \<Rightarrow> bool" where
  "truthy PNone = False"
| "truthy (PBool b) = b"
| "truthy (PInt i) = (i \<noteq> 0)"
| "truthy (PFloat x) = (x \<noteq> 0)"
| "truthy (PStr s) = (s \<noteq> [])"
| "truthy (PList xs) = (xs \<noteq> [])"
| "truthy (PDict d) = (d \<noteq> [])"

text \<open>\<open>d.update(e)\<close>: the entries of \<open>e\<close> one after the other.\<close>

definition dict_update :: "('k \<times> 'v) list \<Rightarrow> ('k \<times> 'v) list \<Rightarrow> ('k \<times> 'v) list" where
  "dict_update d e = foldl (\<lambda>d x. AList.update (fst x) (snd x) d) d e"

lemma keys_of_dict_update [simp]: "keys_of (dict_update d e) = keys_of d \<union> keys_of e"
  unfolding dict_update_def by (induction e arbitrary: d) (auto simp: keys_of_def dom_update)

lemma map_of_dict_update:
  "distinct (map fst e) \<Longrightarrow> map_of (dict_update d e) k = (case map_of e k of Some v \<Rightarrow> Some v | None \<Rightarrow> map_of d k)"
  unfolding dict_update_def
proof (induction e arbitrary: d)
  case (Cons x e)
  have "map_of e k = None" if "k = fst x" using Cons.prems that by (simp add: map_of_eq_None_iff)
  then show ?case using Cons.IH [of "AList.update (fst x) (snd x) d"] Cons.prems by (cases x) (auto split: option.splits)
qed simp

section \<open>Flows\<close>

datatype node_type = LLM | RETRIEVAL | TOOL | BRANCH | TRANSFORM | SUBFLOW | HUMAN_REVIEW | DATA | PROCESS |
  MODEL | CONDITIONAL | VALIDATION

fun type_value :: "node_type \<Rightarrow> string" where
  "type_value LLM = ''llm''"
| "type_value RETRIEVAL = ''retrieval''"
| "type_value TOOL = ''tool''"
| "type_value BRANCH = ''branch''"
| "type_value TRANSFORM = ''transform''"
| "type_value SUBFLOW = ''subflow''"
| "type_value HUMAN_REVIEW = ''human_review''"
| "type_value DATA = ''data''"
| "type_value PROCESS = ''process''"
| "type_value MODEL = ''model''"
| "type_value CONDITIONAL = ''conditional''"
| "type_value VALIDATION = ''validation''"

datatype node_status = N_PENDING | N_RUNNING | N_COMPLETED | N_FAILED | N_SKIPPED | N_RETRYING

datatype run_status = R_PENDING | R_RUNNING | R_COMPLETED | R_FAILED | R_CANCELLED

record node_config =
  model_name :: pyval
  temperature :: pyval
  max_tokens :: pyval
  prompt_template :: pyval
  timeout_seconds :: pyval
  extra :: attrs

text \<open>The field \<open>config\<close> of a node is a dictionary or a \<open>NodeConfig\<close>.\<close>

datatype config_value = Raw attrs | Parsed node_config

record retry_settings =
  max_attempts :: pyval
  strategy :: pyval
  base_delay_ms :: pyval
  max_delay_ms :: pyval

record flow_node =
  node_id :: string
  node_type :: node_type
  config :: config_value
  node_name :: "string option"
  executor :: "string option"
  node_inputs :: attrs
  node_outputs :: attrs
  dependencies :: "string list"
  retry :: "retry_settings option"
  retry_config :: "attrs option"
  condition :: "string option"
  checkpoint :: bool
  node_metadata :: attrs

record flow_edge =
  from_node :: string
  to_node :: string
  edge_condition :: "string option"

record flow_definition =
  flow_name :: string
  version :: string
  description :: string
  flow_config :: attrs
  flow_inputs :: attrs
  flow_outputs :: attrs
  nodes :: "flow_node list"
  edges :: "flow_edge list"
  flow_metadata :: attrs

text \<open>The dictionary of the nodes by identifier; of two nodes with one identifier the later stays.\<close>

definition node_map :: "flow_definition \<Rightarrow> string \<Rightarrow> flow_node option" where
  "node_map f = map_of (rev (map (\<lambda>n. (node_id n, n)) (nodes f)))"

text \<open>
  The exceptions. Where the source stores the text of an exception, the model stores the exception; the
  error of a run names the node that failed, if it was a node.
\<close>

datatype flow_error =
    Key_error string
  | Index_error
  | Type_error
  | Attribute_error
  | Value_error
  | Circular_dependency
  | Node_error string

record node_execution =
  exec_id :: string
  exec_status :: node_status
  exec_inputs :: attrs
  exec_outputs :: attrs
  exec_error :: "flow_error option"
  attempts :: nat

record flow_run =
  run_id :: string
  flow_id :: string
  flow_version :: string
  run_status :: run_status
  run_inputs :: attrs
  run_outputs :: attrs
  node_executions :: "node_execution list"
  run_error :: "(string option \<times> flow_error) option"

section \<open>Facts on the node map\<close>

abbreviation node_ids :: "flow_definition \<Rightarrow> string list" where
  "node_ids f \<equiv> map node_id (nodes f)"

lemma node_map_Some: "node_map f i = Some n \<Longrightarrow> n \<in> set (nodes f) \<and> node_id n = i"
  by (auto simp: node_map_def dest: map_of_SomeD)

lemma node_map_None: "node_map f i = None \<longleftrightarrow> i \<notin> set (node_ids f)"
  by (auto simp: node_map_def map_of_eq_None_iff image_image)

lemma node_map_distinct:
  assumes "distinct (node_ids f)" and "n \<in> set (nodes f)"
  shows "node_map f (node_id n) = Some n"
proof -
  have "distinct (map fst (rev (map (\<lambda>n. (node_id n, n)) (nodes f))))"
    using assms(1) by (simp add: rev_map [symmetric] comp_def)
  then show ?thesis unfolding node_map_def by (rule map_of_is_SomeI) (use assms(2) in auto)
qed

end
