(* ===== verification/Flow_Graph.thy ===== *)
theory Flow_Graph
  imports Flow_Types "HOL-Library.While_Combinator" "HOL-Library.Multiset"
begin

text \<open>
  The graph of a flow: \<open>DAGBuilder\<close> of \<open>28-ai-workflow-engine/src/aiworkflow/compiler/dag.py\<close> and
  \<open>FlowValidator\<close> of \<open>compiler/parser.py\<close>.

  The adjacency of the graph is a dictionary of sets. A set is a list of distinct elements; the
  order in which Python iterates over a set of strings depends on the hash seed of the process, so
  every operation that iterates takes this order as the parameter \<open>it\<close>, which rearranges the list.
  The depth-first search recurses once per edge of the current path; the recursion limit of the
  interpreter is not modelled.
\<close>

type_synonym graph = "(string \<times> string list) list"

definition iteration_order :: "('a list \<Rightarrow> 'a list) \<Rightarrow> bool" where
  "iteration_order it \<longleftrightarrow> (\<forall>xs. mset (it xs) = mset xs)"

abbreviation succs :: "graph \<Rightarrow> string \<Rightarrow> string list" where
  "succs g x \<equiv> dict_get g x []"

section \<open>Building the graph\<close>

record dag =
  flow :: "flow_definition option"
  adjacency :: graph
  reverse_adjacency :: graph

definition add_edge :: "string \<Rightarrow> string \<Rightarrow> dag \<Rightarrow> (flow_error, unit, dag) outcome" where
  "add_edge a b d = (case map_of (adjacency d) a of
     None \<Rightarrow> (Inl (Key_error a), d)
   | Some bs \<Rightarrow>
       let d1 = d\<lparr>adjacency := AList.update a (set_add b bs) (adjacency d)\<rparr> in
       (case map_of (reverse_adjacency d1) b of
          None \<Rightarrow> (Inl (Key_error b), d1)
        | Some as \<Rightarrow> (Inr (), d1\<lparr>reverse_adjacency := AList.update b (set_add a as) (reverse_adjacency d1)\<rparr>)))"

definition init_nodes :: "flow_node list \<Rightarrow> dag \<Rightarrow> dag" where
  "init_nodes ns d = foldl (\<lambda>d n. d\<lparr>adjacency := AList.update (node_id n) [] (adjacency d),
     reverse_adjacency := AList.update (node_id n) [] (reverse_adjacency d)\<rparr>) d ns"

definition build_graph :: "flow_definition \<Rightarrow> dag \<Rightarrow> (flow_error, unit, dag) outcome" where
  "build_graph f d =
     and_then (for_each (\<lambda>n. for_each (\<lambda>dep. add_edge dep (node_id n)) (dependencies n)) (nodes f) (init_nodes (nodes f) d))
       (\<lambda>_. for_each (\<lambda>e. add_edge (from_node e) (to_node e)) (edges f))"

definition dag_builder :: "flow_definition option \<Rightarrow> (flow_error, unit, dag) outcome" where
  "dag_builder fo = (let d = \<lparr>flow = fo, adjacency = [], reverse_adjacency = []\<rparr> in
     case fo of None \<Rightarrow> (Inr (), d) | Some f \<Rightarrow> build_graph f d)"

section \<open>Cycle detection\<close>

text \<open>
  The loop of \<open>dfs\<close> over the neighbours of a node, with the two sets; the call \<open>dfs(neighbor)\<close> is
  the inner recursive call, after which the neighbour leaves the recursion stack.
\<close>

function dfs_loop :: "(string list \<Rightarrow> string list) \<Rightarrow> graph \<Rightarrow> string list \<Rightarrow> string list \<Rightarrow> string list \<Rightarrow>
    bool \<times> string list \<times> string list" where
  "dfs_loop it g [] visited rec_stack = (False, visited, rec_stack)"
| "dfs_loop it g (y # ys) visited rec_stack =
     (if y \<notin> set visited then
        (case dfs_loop it g (it (succs g y)) (set_add y visited) (set_add y rec_stack) of
           (True, v, st) \<Rightarrow> (True, v, st)
         | (False, v, st) \<Rightarrow> dfs_loop it g ys v (set_discard y st))
      else if y \<in> set rec_stack then (True, visited, rec_stack)
      else dfs_loop it g ys visited rec_stack)"
  by pat_completeness auto

lemma dfs_loop_visited:
  assumes "dfs_loop_dom (it, g, ys, visited, st)"
  shows "set visited \<subseteq> set (fst (snd (dfs_loop it g ys visited st)))"
  using assms
proof (induction rule: dfs_loop.pinduct)
  case (2 it g y ys visited st)
  obtain b v t where r: "dfs_loop it g (it (succs g y)) (set_add y visited) (set_add y st) = (b, v, t)"
    by (metis prod_cases3)
  show ?case
  proof (cases "y \<in> set visited")
    case True
    then show ?thesis using 2(4) by (simp add: dfs_loop.psimps(2) [OF 2(1)])
  next
    case new: False
    have v: "set visited \<subseteq> set v" using 2(2) [OF new] r by simp
    show ?thesis
    proof (cases b)
      case True
      then show ?thesis using new v r by (simp add: dfs_loop.psimps(2) [OF 2(1)])
    next
      case False
      have "set v \<subseteq> set (fst (snd (dfs_loop it g ys v (set_discard y t))))"
        using 2(3) [OF new r [symmetric], of v t] False by simp
      then show ?thesis using new v r False by (simp add: dfs_loop.psimps(2) [OF 2(1)])
    qed
  qed
qed (simp add: dfs_loop.psimps)

definition dfs_universe :: "(string list \<Rightarrow> string list) \<Rightarrow> graph \<Rightarrow> string set" where
  "dfs_universe it g = keys_of g \<union> set (it [])"

lemma finite_keys_of [simp]: "finite (keys_of g)"
  by (simp add: keys_of_def)

lemma dfs_universe_less:
  assumes "y \<in> dfs_universe it g" and "y \<notin> set v" and "insert y (set v) \<subseteq> set w"
  shows "card (dfs_universe it g - set w) < card (dfs_universe it g - set v)"
  by (rule psubset_card_mono) (use assms in \<open>auto simp: dfs_universe_def\<close>)

lemma dfs_universe_le: "set v \<subseteq> set w \<Longrightarrow> card (dfs_universe it g - set w) \<le> card (dfs_universe it g - set v)"
  by (rule card_mono) (auto simp: dfs_universe_def)

lemma succs_outside [simp]: "y \<notin> keys_of g \<Longrightarrow> succs g y = []"
  using map_of_eq_None_keys [of g y] by (simp add: dict_get_def)

lemma dfs_outside:
  assumes "y \<notin> dfs_universe it g"
  shows "filter (\<lambda>x. x \<notin> dfs_universe it g) (it (succs g y)) = []"
proof -
  have "succs g y = []" using assms by (simp add: dfs_universe_def)
  then show ?thesis by (simp add: dfs_universe_def filter_empty_conv)
qed

termination dfs_loop
proof (relation "measures [\<lambda>(it, g, ys, v, st). card (dfs_universe it g - set v),
    \<lambda>(it, g, ys, v, st). length (filter (\<lambda>x. x \<notin> dfs_universe it g) ys), \<lambda>(it, g, ys, v, st). length ys]", goal_cases)
  case (2 it g y ys v st)
  show ?case
  proof (cases "y \<in> dfs_universe it g")
    case True
    then show ?thesis using dfs_universe_less [of y it g v "set_add y v"] 2 by simp
  next
    case False
    have "card (dfs_universe it g - insert y (set v)) = card (dfs_universe it g - set v)" using False by (simp add: Diff_insert0)
    then show ?thesis using dfs_outside [OF False] False by simp
  qed
next
  case (3 it g y ys v st b r w t)
  have "set v \<subseteq> set w" using dfs_loop_visited [OF 3(5)] by (simp add: 3(2) [symmetric] 3(4) [symmetric])
  then have "card (dfs_universe it g - set w) \<le> card (dfs_universe it g - set v)" by (rule dfs_universe_le)
  then show ?case by (auto simp: le_less)
qed auto

definition dfs :: "(string list \<Rightarrow> string list) \<Rightarrow> graph \<Rightarrow> string \<Rightarrow> string list \<Rightarrow> string list \<Rightarrow>
    bool \<times> string list \<times> string list" where
  "dfs it g x visited rec_stack =
     (case dfs_loop it g (it (succs g x)) (set_add x visited) (set_add x rec_stack) of
        (True, v, st) \<Rightarrow> (True, v, st)
      | (False, v, st) \<Rightarrow> (False, v, set_discard x st))"

primrec dfs_all :: "(string list \<Rightarrow> string list) \<Rightarrow> graph \<Rightarrow> string list \<Rightarrow> string list \<Rightarrow> string list \<Rightarrow> bool" where
  "dfs_all it g [] visited rec_stack = False"
| "dfs_all it g (x # xs) visited rec_stack =
     (if x \<notin> set visited then
        (case dfs it g x visited rec_stack of (found, v, st) \<Rightarrow> if found then True else dfs_all it g xs v st)
      else dfs_all it g xs visited rec_stack)"

definition has_cycle :: "(string list \<Rightarrow> string list) \<Rightarrow> dag \<Rightarrow> bool" where
  "has_cycle it d = dfs_all it (adjacency d) (map fst (adjacency d)) [] []"

definition build :: "(string list \<Rightarrow> string list) \<Rightarrow> flow_definition \<Rightarrow> dag \<Rightarrow> (flow_error, unit, dag) outcome" where
  "build it f d = and_then (build_graph f (d\<lparr>flow := Some f, adjacency := [], reverse_adjacency := []\<rparr>))
     (\<lambda>_ d. if has_cycle it d then (Inl Circular_dependency, d) else (Inr (), d))"

section \<open>Topological order\<close>

text \<open>\<open>in_degree[y] += k\<close> for every \<open>y\<close> of a list.\<close>

primrec bump :: "int \<Rightarrow> string list \<Rightarrow> (string \<times> int) list \<Rightarrow> flow_error + (string \<times> int) list" where
  "bump k [] deg = Inr deg"
| "bump k (y # ys) deg =
     (case map_of deg y of None \<Rightarrow> Inl (Key_error y) | Some n \<Rightarrow> bump k ys (AList.update y (n + k) deg))"

fun count_in :: "(string list \<Rightarrow> string list) \<Rightarrow> graph \<Rightarrow> (string \<times> int) list \<Rightarrow> flow_error + (string \<times> int) list" where
  "count_in it [] deg = Inr deg"
| "count_in it ((x, ys) # g) deg = (case bump 1 (it ys) deg of Inl e \<Rightarrow> Inl e | Inr deg \<Rightarrow> count_in it g deg)"

text \<open>The loop over the neighbours of the node just sorted: in-degrees and the queue.\<close>

primrec relax :: "string list \<Rightarrow> (string \<times> int) list \<Rightarrow> string list \<Rightarrow> flow_error + (string \<times> int) list \<times> string list" where
  "relax [] deg queue = Inr (deg, queue)"
| "relax (y # ys) deg queue =
     (case map_of deg y of
        None \<Rightarrow> Inl (Key_error y)
      | Some n \<Rightarrow> relax ys (AList.update y (n - 1) deg) (if n - 1 = 0 then queue @ [y] else queue))"

type_synonym sort_state = "(string \<times> int) list \<times> string list \<times> string list"

fun sort_step :: "(string list \<Rightarrow> string list) \<Rightarrow> graph \<Rightarrow> flow_error + sort_state \<Rightarrow> flow_error + sort_state" where
  "sort_step it g (Inr (deg, x # queue, res)) =
     (case relax (it (succs g x)) deg queue of Inl e \<Rightarrow> Inl e | Inr (deg, queue) \<Rightarrow> Inr (deg, queue, res @ [x]))"
| "sort_step it g s = s"

fun sorting :: "flow_error + sort_state \<Rightarrow> bool" where
  "sorting (Inr (deg, queue, res)) = (queue \<noteq> [])"
| "sorting (Inl e) = False"

definition topological_sort :: "(string list \<Rightarrow> string list) \<Rightarrow> dag \<Rightarrow> (flow_error + string list) option" where
  "topological_sort it d = (case flow d of
     None \<Rightarrow> Some (Inl Attribute_error)
   | Some f \<Rightarrow>
       (case count_in it (adjacency d) (foldl (\<lambda>deg n. AList.update (node_id n) 0 deg) [] (nodes f)) of
          Inl e \<Rightarrow> Some (Inl e)
        | Inr deg \<Rightarrow>
            map_option (map_sum id (\<lambda>(deg, queue, res). res))
              (while_option sorting (sort_step it (adjacency d))
                (Inr (deg, map fst (filter (\<lambda>(x, n). n = 0) deg), [])))))"

section \<open>Execution levels\<close>

primrec release :: "(string list \<Rightarrow> string list) \<Rightarrow> graph \<Rightarrow> string list \<Rightarrow> (string \<times> int) list \<Rightarrow>
    flow_error + (string \<times> int) list" where
  "release it g [] deg = Inr deg"
| "release it g (x # xs) deg =
     (case bump (- 1) (it (succs g x)) deg of Inl e \<Rightarrow> Inl e | Inr deg \<Rightarrow> release it g xs deg)"

function levels_loop :: "(string list \<Rightarrow> string list) \<Rightarrow> graph \<Rightarrow> string list \<Rightarrow> (string \<times> int) list \<Rightarrow>
    flow_error + string list list" where
  "levels_loop it g remaining deg =
     (if remaining = [] then Inr []
      else let current = sort (filter (\<lambda>x. map_of deg x = Some 0) remaining) in
        if current = [] then Inr []
        else (case release it g current deg of
            Inl e \<Rightarrow> Inl e
          | Inr deg \<Rightarrow> map_sum id ((#) current) (levels_loop it g (filter (\<lambda>x. x \<notin> set current) remaining) deg)))"
  by pat_completeness auto

termination levels_loop
proof (relation "measure (\<lambda>(it, g, remaining, deg). length remaining)", goal_cases)
  case (2 it g remaining deg current deg')
  have "hd current \<in> set current" by (rule hd_in_set) fact
  moreover have "set current \<subseteq> set remaining" using 2(2) by auto
  ultimately show ?case by (auto intro!: length_filter_less [of "hd current"])
qed simp

declare levels_loop.simps [simp del]

definition get_execution_levels :: "(string list \<Rightarrow> string list) \<Rightarrow> dag \<Rightarrow> flow_error + string list list" where
  "get_execution_levels it d = (case flow d of
     None \<Rightarrow> Inl Attribute_error
   | Some f \<Rightarrow> levels_loop it (adjacency d) (remdups (map node_id (nodes f)))
       (foldl (\<lambda>deg n. AList.update (node_id n) (int (length (dict_get (reverse_adjacency d) (node_id n) []))) deg) [] (nodes f)))"

section \<open>Queries\<close>

definition get_node :: "string \<Rightarrow> dag \<Rightarrow> flow_node option" where
  "get_node i d = (case flow d of None \<Rightarrow> None | Some f \<Rightarrow> node_map f i)"

definition get_dependencies :: "string \<Rightarrow> dag \<Rightarrow> string list" where
  "get_dependencies i d = dict_get (reverse_adjacency d) i []"

definition get_dependents :: "string \<Rightarrow> dag \<Rightarrow> string list" where
  "get_dependents i d = dict_get (adjacency d) i []"

text \<open>The worklist loop: the last element is taken, and a new one adds its neighbours.\<close>

function collect :: "(string list \<Rightarrow> string list) \<Rightarrow> graph \<Rightarrow> string list \<Rightarrow> string list \<Rightarrow> string list" where
  "collect it g stack seen =
     (if stack = [] then seen
      else let x = last stack; stack = butlast stack in
        if x \<in> set seen then collect it g stack seen
        else collect it g (stack @ it (succs g x)) (set_add x seen))"
  by pat_completeness auto

definition collect_universe :: "(string list \<Rightarrow> string list) \<Rightarrow> graph \<Rightarrow> string set" where
  "collect_universe it g = dfs_universe it g \<union> (\<Union>x\<in>keys_of g. set (it (succs g x)))"

definition unseen :: "(string list \<Rightarrow> string list) \<Rightarrow> graph \<Rightarrow> string list \<Rightarrow> nat" where
  "unseen it g seen = (\<Sum>x\<in>collect_universe it g - set seen. Suc (length (it (succs g x))))"

definition stack_weight :: "(string list \<Rightarrow> string list) \<Rightarrow> graph \<Rightarrow> string list \<Rightarrow> nat" where
  "stack_weight it g stack = sum_list (map (\<lambda>x. if x \<in> collect_universe it g then 1 else length (it []) + 2) stack)"

lemma finite_collect_universe [simp]: "finite (collect_universe it g)"
  by (simp add: collect_universe_def dfs_universe_def)

lemma collect_universe_succs: "set (it (succs g x)) \<subseteq> collect_universe it g"
proof (cases "x \<in> keys_of g")
  case False
  then have "succs g x = []" by simp
  then show ?thesis unfolding collect_universe_def dfs_universe_def by auto
qed (auto simp: collect_universe_def)

lemma stack_weight_succs: "stack_weight it g (it (succs g x)) = length (it (succs g x))"
proof -
  have "map (\<lambda>y. if y \<in> collect_universe it g then 1 else length (it []) + 2) (it (succs g x)) = map (\<lambda>y. 1) (it (succs g x))"
    using collect_universe_succs [of it g x] by (intro map_cong) auto
  then have "stack_weight it g (it (succs g x)) = sum_list (map (\<lambda>y. 1) (it (succs g x)))" by (simp only: stack_weight_def)
  then show ?thesis by (simp add: sum_list_triv)
qed

lemma unseen_insert:
  assumes "x \<notin> set seen"
  shows "unseen it g seen = unseen it g (set_add x seen) + (if x \<in> collect_universe it g then Suc (length (it (succs g x))) else 0)"
proof (cases "x \<in> collect_universe it g")
  case True
  have "unseen it g seen = Suc (length (it (succs g x))) + (\<Sum>x\<in>(collect_universe it g - set seen) - {x}. Suc (length (it (succs g x))))"
    unfolding unseen_def by (rule sum.remove) (use True assms in simp_all)
  also have "(collect_universe it g - set seen) - {x} = collect_universe it g - set (set_add x seen)" by auto
  finally show ?thesis using True by (simp only: unseen_def) simp
next
  case False
  then have "collect_universe it g - set (set_add x seen) = collect_universe it g - set seen" by auto
  then show ?thesis using False by (simp only: unseen_def) simp
qed

lemma stack_weight_append [simp]: "stack_weight it g (xs @ ys) = stack_weight it g xs + stack_weight it g ys"
  by (simp add: stack_weight_def)

lemma stack_weight_one: "stack_weight it g [x] = (if x \<in> collect_universe it g then 1 else length (it []) + 2)"
  by (simp add: stack_weight_def)

termination collect
proof (relation "measure (\<lambda>(it, g, stack, seen). unseen it g seen + stack_weight it g stack)", goal_cases)
  case (2 it g stack seen x xs)
  then have "stack = xs @ [x]" by simp
  then show ?case by (simp add: stack_weight_one)
next
  case (3 it g stack seen x xs)
  then have s: "stack = xs @ [x]" by simp
  have "x \<notin> collect_universe it g \<Longrightarrow> succs g x = []" by (auto simp: collect_universe_def dfs_universe_def)
  then show ?case
    using unseen_insert [OF 3(4), of it g] by (auto simp: s stack_weight_one stack_weight_succs)
qed simp

declare collect.simps [simp del]

definition get_ancestors :: "(string list \<Rightarrow> string list) \<Rightarrow> string \<Rightarrow> dag \<Rightarrow> string list" where
  "get_ancestors it i d = collect it (reverse_adjacency d) (it (dict_get (reverse_adjacency d) i [])) []"

definition get_parallel_groups :: "(string list \<Rightarrow> string list) \<Rightarrow> dag \<Rightarrow> flow_error + string set list" where
  "get_parallel_groups it d = map_sum id (map set) (get_execution_levels it d)"

definition can_execute :: "string \<Rightarrow> string set \<Rightarrow> dag \<Rightarrow> bool" where
  "can_execute i completed d \<longleftrightarrow> set (get_dependencies i d) \<subseteq> completed"

section \<open>Validation\<close>

definition validator_graph :: "flow_definition \<Rightarrow> graph" where
  "validator_graph f =
     foldl (\<lambda>g e. if from_node e \<in> keys_of g then AList.map_entry (from_node e) (set_add (to_node e)) g else g)
       (foldl (\<lambda>g n. foldl (\<lambda>g dep. if dep \<in> keys_of g then AList.map_entry dep (set_add (node_id n)) g else g) g (dependencies n))
         (foldl (\<lambda>g n. AList.update (node_id n) [] g) [] (nodes f)) (nodes f))
       (edges f)"

definition validator_has_cycle :: "(string list \<Rightarrow> string list) \<Rightarrow> flow_definition \<Rightarrow> bool" where
  "validator_has_cycle it f = dfs_all it (validator_graph f) (map fst (validator_graph f)) [] []"

definition missing_node :: "string \<Rightarrow> string" where
  "missing_node i = ''Edge references non-existent node '' @ i"

definition validate :: "(string list \<Rightarrow> string list) \<Rightarrow> flow_definition \<Rightarrow> bool \<times> string list" where
  "validate it f = (let
     errors =
       (if nodes f = [] then [''Empty flow: no nodes defined''] else []) @
       (if length (node_ids f) \<noteq> card (set (node_ids f)) then [''Duplicate node IDs found''] else []) @
       concat (map (\<lambda>n. map (\<lambda>dep. ''Node '' @ node_id n @ '' depends on non-existent node: invalid dependency '' @ dep)
         (filter (\<lambda>dep. dep \<notin> set (node_ids f)) (dependencies n))) (nodes f)) @
       concat (map (\<lambda>e. (if from_node e \<notin> set (node_ids f) then [missing_node (from_node e)] else []) @
         (if to_node e \<notin> set (node_ids f) then [missing_node (to_node e)] else [])) (edges f)) @
       (if nodes f \<noteq> [] \<and> validator_has_cycle it f then [''Circular dependency detected''] else [])
     in (errors = [], errors))"

end
