(* ===== verification/Flow_Cycle.thy ===== *)
theory Flow_Cycle
  imports Flow_Graph
begin

text \<open>
  The depth-first search finds a cycle exactly when the graph has one. The invariant: the finished
  nodes (visited and not on the recursion stack) are closed under successors and carry no cycle,
  and every node on the stack has a path to the node whose neighbours are looked at.
\<close>

definition edge_set :: "graph \<Rightarrow> (string \<times> string) set" where
  "edge_set g = {(x, y). y \<in> set (succs g x)}"

lemma edge_set_iff [simp]: "(x, y) \<in> edge_set g \<longleftrightarrow> y \<in> set (succs g x)"
  by (simp add: edge_set_def)

lemma set_iteration [simp]: "iteration_order it \<Longrightarrow> set (it xs) = set xs"
  by (metis iteration_order_def mset_eq_setD)

lemma length_iteration: "iteration_order it \<Longrightarrow> length (it xs) = length xs"
  by (metis iteration_order_def size_mset)

lemma distinct_iteration: "iteration_order it \<Longrightarrow> distinct (it xs) = distinct xs"
  by (metis iteration_order_def mset_eq_imp_distinct_iff)

text \<open>A set of finished nodes.\<close>

definition finished :: "graph \<Rightarrow> string set \<Rightarrow> bool" where
  "finished g F \<longleftrightarrow> (\<forall>x\<in>F. set (succs g x) \<subseteq> F) \<and> (\<forall>x\<in>F. (x, x) \<notin> (edge_set g)\<^sup>+)"

lemma finished_empty [simp]: "finished g {}"
  by (simp add: finished_def)

lemma finished_path: "(x, y) \<in> (edge_set g)\<^sup>+ \<Longrightarrow> finished g F \<Longrightarrow> x \<in> F \<Longrightarrow> y \<in> F"
  by (induction rule: trancl_induct) (auto simp: finished_def)

lemma finished_insert:
  assumes "finished g F" and "x \<notin> F" and "set (succs g x) \<subseteq> F"
  shows "finished g (insert x F)"
proof -
  have "(x, x) \<notin> (edge_set g)\<^sup>+"
  proof
    assume "(x, x) \<in> (edge_set g)\<^sup>+"
    then obtain z where z: "(x, z) \<in> edge_set g" "(z, x) \<in> (edge_set g)\<^sup>*" by (meson tranclD)
    then have "z \<in> F" "z \<noteq> x" using assms(2,3) by auto
    then have "x \<in> F" using z(2) assms(1) by (metis rtranclD finished_path)
    then show False using assms(2) by simp
  qed
  then show ?thesis using assms by (auto simp: finished_def)
qed

text \<open>What one call of the search loop at the node \<open>x\<close> on top of the stack establishes.\<close>

definition searched :: "graph \<Rightarrow> string list \<Rightarrow> string list \<Rightarrow> string list \<Rightarrow> bool \<times> string list \<times> string list \<Rightarrow> bool" where
  "searched g ys v st r \<longleftrightarrow> (case r of (found, v', st') \<Rightarrow>
     if found then \<exists>z. (z, z) \<in> (edge_set g)\<^sup>+
     else st' = st \<and> set v \<subseteq> set v' \<and> set ys \<subseteq> set v' - set st \<and> finished g (set v' - set st))"

lemma set_discard_add: "y \<notin> set st \<Longrightarrow> set_discard y (set_add y st) = st"
  by (auto simp: set_discard_def set_add_def filter_id_conv)

lemma dfs_loop_searched:
  assumes "iteration_order it" and "set st \<subseteq> set v" and "finished g (set v - set st)"
    and "\<forall>z\<in>set st. \<forall>y\<in>set ys. (z, y) \<in> (edge_set g)\<^sup>+"
  shows "searched g ys v st (dfs_loop it g ys v st)"
  using assms
proof (induction it g ys v st rule: dfs_loop.induct)
  case (1 it g v st)
  then show ?case by (simp add: searched_def)
next
  case (2 it g y ys v st)
  note it = 2(4)
  consider (new) "y \<notin> set v" | (stack) "y \<in> set v" "y \<in> set st" | (old) "y \<in> set v" "y \<notin> set st" by blast
  then show ?case
  proof cases
    case new
    have yst: "y \<notin> set st" using new 2(5) by auto
    obtain b w t where r: "dfs_loop it g (it (succs g y)) (set_add y v) (set_add y st) = (b, w, t)" by (metis prod_cases3)
    have "\<forall>z\<in>set (set_add y st). \<forall>x\<in>set (it (succs g y)). (z, x) \<in> (edge_set g)\<^sup>+"
      using it 2(7) by (auto intro: trancl_into_trancl)
    moreover have "set (set_add y v) - set (set_add y st) = set v - set st" using new by auto
    ultimately have s: "searched g (it (succs g y)) (set_add y v) (set_add y st) (b, w, t)"
      using 2(1) [OF new it] 2(5,6) r by auto
    show ?thesis
    proof (cases b)
      case True
      then show ?thesis using s r new by (simp add: searched_def)
    next
      case False
      have t: "set_discard y t = st" and w: "insert y (set v) \<subseteq> set w" "set (succs g y) \<subseteq> set w - insert y (set st)"
        and fin: "finished g (set w - insert y (set st))"
        using s False it yst by (auto simp: searched_def set_discard_add)
      have "insert y (set w - insert y (set st)) = set w - set st" using w yst by auto
      then have fin': "finished g (set w - set st)" using finished_insert [OF fin _ w(2)] by simp
      have "searched g ys w st (dfs_loop it g ys w st)"
        using 2(2) [OF new r [symmetric] _ refl it] False t fin' 2(5,7) w(1) by auto
      then show ?thesis using r new False t w(1) yst by (auto simp: searched_def split: prod.splits if_splits)
    qed
  next
    case stack
    then show ?thesis using 2(7) by (auto simp: searched_def)
  next
    case old
    then show ?thesis using 2(3) [OF _ _ it] 2(5-7) by (auto simp: searched_def split: prod.splits if_splits)
  qed
qed

lemma dfs_searched:
  assumes it: "iteration_order it" and "finished g (set v)" and "x \<notin> set v"
  shows "searched g [x] v [] (dfs it g x v [])"
proof -
  have "searched g [x] v [] (dfs_loop it g [x] v [])" by (rule dfs_loop_searched [OF it]) (use assms in simp_all)
  then show ?thesis using assms(3) by (auto simp: dfs_def split: prod.splits bool.splits)
qed

lemma dfs_all_iff:
  assumes it: "iteration_order it" and "finished g (set v)" and "keys_of g \<subseteq> set v \<union> set xs"
  shows "dfs_all it g xs v [] \<longleftrightarrow> (\<exists>z. (z, z) \<in> (edge_set g)\<^sup>+)"
  using assms(2,3)
proof (induction xs arbitrary: v)
  case Nil
  have key: "z \<in> keys_of g" if z: "(z, z) \<in> (edge_set g)\<^sup>+" for z
  proof -
    obtain y where "y \<in> set (succs g z)" using tranclD [OF z] by auto
    then show ?thesis using succs_outside [of z g] by (cases "z \<in> keys_of g") simp_all
  qed
  have "(z, z) \<notin> (edge_set g)\<^sup>+" for z
  proof
    assume z: "(z, z) \<in> (edge_set g)\<^sup>+"
    then have "z \<in> set v" using key [OF z] Nil(2) by auto
    then show False using z Nil(1) by (simp add: finished_def)
  qed
  then show ?case by simp
next
  case (Cons x xs)
  show ?case
  proof (cases "x \<in> set v")
    case True
    then show ?thesis using Cons by auto
  next
    case False
    obtain b w t where r: "dfs it g x v [] = (b, w, t)" by (metis prod_cases3)
    have s: "searched g [x] v [] (b, w, t)" using dfs_searched [OF it Cons.prems(1) False] r by simp
    show ?thesis
    proof (cases b)
      case False
      have "finished g (set w)" "set v \<subseteq> set w" "x \<in> set w" "t = []" using s False by (auto simp: searched_def)
      then have "dfs_all it g xs w t \<longleftrightarrow> (\<exists>z. (z, z) \<in> (edge_set g)\<^sup>+)" using Cons.IH [of w] Cons.prems(2) by auto
      then show ?thesis using \<open>x \<notin> set v\<close> r False by simp
    qed (use s r False in \<open>auto simp: searched_def\<close>)
  qed
qed

lemma has_cycle_iff: "iteration_order it \<Longrightarrow> has_cycle it d \<longleftrightarrow> \<not> acyclic (edge_set (adjacency d))"
  using dfs_all_iff [of it "adjacency d" "[]" "map fst (adjacency d)"] by (simp add: has_cycle_def acyclic_def keys_of_def)

lemma validator_has_cycle_iff: "iteration_order it \<Longrightarrow> validator_has_cycle it f \<longleftrightarrow> \<not> acyclic (edge_set (validator_graph f))"
  using dfs_all_iff [of it "validator_graph f" "[]" "map fst (validator_graph f)"]
  by (simp add: validator_has_cycle_def acyclic_def keys_of_def)

section \<open>The graph that is built\<close>

text \<open>The dependencies and edges of a flow, and that they name nodes of the flow.\<close>

definition flow_edges :: "flow_definition \<Rightarrow> (string \<times> string) set" where
  "flow_edges f = (\<Union>n\<in>set (nodes f). (\<lambda>dep. (dep, node_id n)) ` set (dependencies n)) \<union>
     (\<lambda>e. (from_node e, to_node e)) ` set (edges f)"

definition resolved :: "flow_definition \<Rightarrow> bool" where
  "resolved f \<longleftrightarrow> (\<forall>n\<in>set (nodes f). set (dependencies n) \<subseteq> set (node_ids f)) \<and>
     (\<forall>e\<in>set (edges f). from_node e \<in> set (node_ids f) \<and> to_node e \<in> set (node_ids f))"

lemma resolved_edges: "resolved f \<Longrightarrow> flow_edges f \<subseteq> set (node_ids f) \<times> set (node_ids f)"
  by (auto simp: resolved_def flow_edges_def)

text \<open>The graph \<open>d\<close> has the nodes \<open>N\<close> and the edges \<open>E\<close>, forwards and backwards.\<close>

definition graph_of :: "graph \<Rightarrow> string set \<Rightarrow> (string \<times> string) set \<Rightarrow> bool" where
  "graph_of g N E \<longleftrightarrow> distinct (map fst g) \<and> keys_of g = N \<and> edge_set g = E \<and> (\<forall>x. distinct (succs g x))"

definition dag_of :: "dag \<Rightarrow> string set \<Rightarrow> (string \<times> string) set \<Rightarrow> bool" where
  "dag_of d N E \<longleftrightarrow> graph_of (adjacency d) N E \<and> graph_of (reverse_adjacency d) N (E\<inverse>)"

lemma succs_update: "succs (AList.update a xs g) x = (if x = a then xs else succs g x)"
  by (simp add: dict_get_def)

lemma graph_of_new:
  assumes "graph_of g N {}"
  shows "graph_of (AList.update a [] g) (insert a N) {}"
  using assms by (auto simp: graph_of_def succs_update edge_set_def)

lemma graph_of_add:
  assumes "graph_of g N E" and "map_of g a = Some ys"
  shows "graph_of (AList.update a (set_add b ys) g) N (insert (a, b) E)"
proof -
  have ys: "succs g a = ys" using assms(2) by (simp add: dict_get_def)
  have "a \<in> keys_of g" using assms(2) by (simp add: keys_of_iff)
  moreover have "distinct ys" using assms(1) ys by (auto simp: graph_of_def)
  ultimately show ?thesis
    using assms(1) ys by (auto simp: graph_of_def succs_update edge_set_def split: if_splits)
qed

lemma add_edge_dag:
  assumes "dag_of d N E" and "a \<in> N" and "b \<in> N"
  shows "\<exists>d'. add_edge a b d = (Inr (), d') \<and> dag_of d' N (insert (a, b) E) \<and> flow d' = flow d"
proof -
  obtain ys xs where m: "map_of (adjacency d) a = Some ys" "map_of (reverse_adjacency d) b = Some xs"
    using assms keys_of_iff [of a "adjacency d"] keys_of_iff [of b "reverse_adjacency d"]
    unfolding dag_of_def graph_of_def by blast
  have "(insert (a, b) E)\<inverse> = insert (b, a) (E\<inverse>)" by auto
  then show ?thesis
    using assms(1) graph_of_add [of "adjacency d" N E a ys b] graph_of_add [of "reverse_adjacency d" N "E\<inverse>" b xs a] m
    by (simp add: add_edge_def dag_of_def)
qed

lemma add_edge_missing:
  assumes "dag_of d N E" and "a \<notin> N \<or> b \<notin> N"
  shows "\<exists>i d'. add_edge a b d = (Inl (Key_error i), d') \<and> i \<notin> N"
proof -
  have "map_of (adjacency d) a = None \<longleftrightarrow> a \<notin> N" "map_of (reverse_adjacency d) b = None \<longleftrightarrow> b \<notin> N"
    using assms(1) unfolding dag_of_def graph_of_def map_of_eq_None_keys by simp_all
  then show ?thesis using assms(2) by (auto simp: add_edge_def Let_def split: option.splits)
qed

lemma init_nodes_dag:
  assumes "dag_of d N {}"
  shows "dag_of (init_nodes ns d) (N \<union> node_id ` set ns) {} \<and> flow (init_nodes ns d) = flow d"
  using assms unfolding init_nodes_def
proof (induction ns arbitrary: d N)
  case (Cons n ns)
  have "dag_of (d\<lparr>adjacency := AList.update (node_id n) [] (adjacency d),
     reverse_adjacency := AList.update (node_id n) [] (reverse_adjacency d)\<rparr>) (insert (node_id n) N) {}"
    using Cons.prems graph_of_new by (simp add: dag_of_def)
  from Cons.IH [OF this] show ?case by simp
qed simp

text \<open>A loop that adds edges either adds them all or stops at a name that is not a node.\<close>

definition adds :: "string set \<Rightarrow> (string \<times> string) set \<Rightarrow> (dag \<Rightarrow> (flow_error, unit, dag) outcome) \<Rightarrow> bool" where
  "adds N A p \<longleftrightarrow> (\<forall>d E. dag_of d N E \<longrightarrow>
     (A \<subseteq> N \<times> N \<longrightarrow> (\<exists>d'. p d = (Inr (), d') \<and> dag_of d' N (A \<union> E) \<and> flow d' = flow d)) \<and>
     (\<not> A \<subseteq> N \<times> N \<longrightarrow> (\<exists>i d'. p d = (Inl (Key_error i), d') \<and> i \<notin> N)))"

lemma adds_edge: "adds N {(a, b)} (add_edge a b)"
  using add_edge_dag add_edge_missing by (auto simp: adds_def)

lemma adds_for_each:
  assumes "\<And>x. x \<in> set xs \<Longrightarrow> adds N (A x) (p x)"
  shows "adds N (\<Union>x\<in>set xs. A x) (for_each p xs)"
  using assms
proof (induction xs)
  case (Cons x xs)
  have x: "adds N (A x) (p x)" and xs: "adds N (\<Union>x\<in>set xs. A x) (for_each p xs)" using Cons by simp_all
  show ?case unfolding adds_def
  proof (intro allI impI conjI)
    fix d E assume d: "dag_of d N E" and "(\<Union>y\<in>set (x # xs). A y) \<subseteq> N \<times> N"
    then have s: "A x \<subseteq> N \<times> N" "(\<Union>y\<in>set xs. A y) \<subseteq> N \<times> N" by auto
    obtain d1 where d1: "p x d = (Inr (), d1)" "dag_of d1 N (A x \<union> E)" "flow d1 = flow d" using x d s(1) unfolding adds_def by blast
    obtain d2 where "for_each p xs d1 = (Inr (), d2)" "dag_of d2 N ((\<Union>y\<in>set xs. A y) \<union> (A x \<union> E))" "flow d2 = flow d1"
      using xs d1(2) s(2) unfolding adds_def by blast
    then show "\<exists>d'. for_each p (x # xs) d = (Inr (), d') \<and> dag_of d' N ((\<Union>y\<in>set (x # xs). A y) \<union> E) \<and> flow d' = flow d"
      using d1 by (simp add: Un_assoc Un_left_commute)
  next
    fix d E assume d: "dag_of d N E" and n: "\<not> (\<Union>y\<in>set (x # xs). A y) \<subseteq> N \<times> N"
    show "\<exists>i d'. for_each p (x # xs) d = (Inl (Key_error i), d') \<and> i \<notin> N"
    proof (cases "A x \<subseteq> N \<times> N")
      case True
      then obtain d1 where d1: "p x d = (Inr (), d1)" "dag_of d1 N (A x \<union> E)" using x d unfolding adds_def by blast
      moreover have "\<not> (\<Union>y\<in>set xs. A y) \<subseteq> N \<times> N" using n True by auto
      ultimately show ?thesis using xs unfolding adds_def by fastforce
    next
      case False
      then obtain i d1 where "p x d = (Inl (Key_error i), d1)" "i \<notin> N" using x d unfolding adds_def by blast
      then show ?thesis by simp
    qed
  qed
qed (simp add: adds_def)

lemma adds_then:
  assumes "adds N A p" and "adds N B q"
  shows "adds N (A \<union> B) (\<lambda>d. and_then (p d) (\<lambda>_. q))"
proof -
  have "adds N (\<Union>x\<in>set [True, False]. if x then A else B) (for_each (\<lambda>x. if x then p else q) [True, False])"
    by (rule adds_for_each) (use assms in auto)
  moreover have "for_each (\<lambda>x. if x then p else q) [True, False] = (\<lambda>d. and_then (p d) (\<lambda>_. q))"
    by (rule ext) (auto simp: and_then_def split: prod.splits sum.splits)
  ultimately show ?thesis by (simp add: Un_commute)
qed

lemma build_graph_adds:
  assumes "adjacency d = []" and "reverse_adjacency d = []"
  shows "resolved f \<Longrightarrow> \<exists>d'. build_graph f d = (Inr (), d') \<and> dag_of d' (set (node_ids f)) (flow_edges f) \<and> flow d' = flow d"
    and "\<not> resolved f \<Longrightarrow> \<exists>i d'. build_graph f d = (Inl (Key_error i), d') \<and> i \<notin> set (node_ids f)"
proof -
  let ?N = "set (node_ids f)"
  let ?p = "\<lambda>d. and_then (for_each (\<lambda>n. for_each (\<lambda>dep. add_edge dep (node_id n)) (dependencies n)) (nodes f) d)
    (\<lambda>_. for_each (\<lambda>e. add_edge (from_node e) (to_node e)) (edges f))"
  have "adds ?N ((\<Union>n\<in>set (nodes f). \<Union>dep\<in>set (dependencies n). {(dep, node_id n)}) \<union>
      (\<Union>e\<in>set (edges f). {(from_node e, to_node e)})) ?p"
    by (intro adds_then adds_for_each adds_edge)
  moreover have "(\<Union>n\<in>set (nodes f). \<Union>dep\<in>set (dependencies n). {(dep, node_id n)}) \<union>
      (\<Union>e\<in>set (edges f). {(from_node e, to_node e)}) = flow_edges f" by (auto simp: flow_edges_def)
  ultimately have a: "adds ?N (flow_edges f) ?p" by simp
  have "dag_of d {} {}" using assms by (simp add: dag_of_def graph_of_def edge_set_def dict_get_def)
  from init_nodes_dag [OF this, of "nodes f"]
  have i: "dag_of (init_nodes (nodes f) d) ?N {}" "flow (init_nodes (nodes f) d) = flow d" by simp_all
  have r: "flow_edges f \<subseteq> ?N \<times> ?N \<longleftrightarrow> resolved f" by (auto simp: resolved_def flow_edges_def)
  show "resolved f \<Longrightarrow> \<exists>d'. build_graph f d = (Inr (), d') \<and> dag_of d' ?N (flow_edges f) \<and> flow d' = flow d"
    using a i r unfolding adds_def build_graph_def by fastforce
  show "\<not> resolved f \<Longrightarrow> \<exists>i d'. build_graph f d = (Inl (Key_error i), d') \<and> i \<notin> ?N"
    using a i r unfolding adds_def build_graph_def by fastforce
qed

section \<open>Validation\<close>

lemma map_entry_edges:
  assumes "graph_of g N E"
  shows "graph_of (if a \<in> keys_of g then AList.map_entry a (set_add b) g else g) N (E \<union> ({(a, b)} \<inter> N \<times> UNIV))"
proof (cases "a \<in> keys_of g")
  case True
  then obtain ys where ys: "map_of g a = Some ys" by (auto simp: keys_of_iff)
  have "succs (AList.map_entry a (set_add b) g) x = (if x = a then set_add b ys else succs g x)" for x
    using ys by (simp add: dict_get_def)
  moreover have "succs g a = ys" using ys by (simp add: dict_get_def)
  ultimately show ?thesis
    using assms True by (auto simp: graph_of_def edge_set_def split: if_splits)
qed (use assms in \<open>auto simp: graph_of_def\<close>)

lemma foldl_edges:
  assumes "\<And>g x E. graph_of g N E \<Longrightarrow> graph_of (h g x) N (E \<union> A x)" and "graph_of g N E"
  shows "graph_of (foldl h g xs) N (E \<union> (\<Union>x\<in>set xs. A x))"
  using assms(2)
proof (induction xs arbitrary: g E)
  case (Cons x xs)
  from Cons.IH [OF assms(1) [OF Cons.prems]] show ?case by (simp add: Un_assoc)
qed simp

lemma validator_graph_of: "graph_of (validator_graph f) (set (node_ids f)) (flow_edges f \<inter> set (node_ids f) \<times> UNIV)"
proof -
  let ?N = "set (node_ids f)"
  have "graph_of (foldl (\<lambda>g n. AList.update (node_id n) [] g) g ns) (N \<union> node_id ` set ns) {}" if "graph_of g N {}" for g N ns
    using that
  proof (induction ns arbitrary: g N)
    case (Cons n ns)
    from Cons.IH [OF graph_of_new [OF Cons.prems]] show ?case by simp
  qed simp
  from this [of "[]" "{}" "nodes f"]
  have 0: "graph_of (foldl (\<lambda>g n. AList.update (node_id n) [] g) [] (nodes f)) ?N {}"
    by (simp add: graph_of_def edge_set_def dict_get_def)
  have d: "graph_of (foldl (\<lambda>g dep. if dep \<in> keys_of g then AList.map_entry dep (set_add (node_id n)) g else g) g (dependencies n))
      ?N (E \<union> (\<Union>dep\<in>set (dependencies n). {(dep, node_id n)} \<inter> ?N \<times> UNIV))" if "graph_of g ?N E" for g n E
    by (rule foldl_edges [OF map_entry_edges that])
  have "graph_of (validator_graph f) ?N ({} \<union> (\<Union>n\<in>set (nodes f). \<Union>dep\<in>set (dependencies n). {(dep, node_id n)} \<inter> ?N \<times> UNIV) \<union>
      (\<Union>e\<in>set (edges f). {(from_node e, to_node e)} \<inter> ?N \<times> UNIV))"
    unfolding validator_graph_def by (rule foldl_edges [OF map_entry_edges foldl_edges [OF d 0]])
  moreover have "{} \<union> (\<Union>n\<in>set (nodes f). \<Union>dep\<in>set (dependencies n). {(dep, node_id n)} \<inter> ?N \<times> UNIV) \<union>
      (\<Union>e\<in>set (edges f). {(from_node e, to_node e)} \<inter> ?N \<times> UNIV) = flow_edges f \<inter> ?N \<times> UNIV"
    by (auto simp: flow_edges_def)
  ultimately show ?thesis by simp
qed

lemma dag_builder_dag:
  assumes "dag_builder (Some f) = (Inr (), d)"
  shows "dag_of d (set (node_ids f)) (flow_edges f) \<and> flow d = Some f \<and> resolved f"
proof -
  let ?d = "\<lparr>flow = Some f, adjacency = [], reverse_adjacency = []\<rparr>"
  have b: "build_graph f ?d = (Inr (), d)" using assms by (simp add: dag_builder_def Let_def)
  then have "resolved f" using build_graph_adds(2) [of ?d f] by auto
  then show ?thesis using build_graph_adds(1) [of ?d f] b by auto
qed

lemma dag_builder_resolved: "resolved f \<Longrightarrow> \<exists>d. dag_builder (Some f) = (Inr (), d)"
  using build_graph_adds(1) [of "\<lparr>flow = Some f, adjacency = [], reverse_adjacency = []\<rparr>" f]
  by (auto simp: dag_builder_def Let_def)

lemma validate_wellformed:
  assumes it: "iteration_order it"
  shows "fst (validate it f) \<longleftrightarrow> nodes f \<noteq> [] \<and> distinct (node_ids f) \<and> resolved f \<and> acyclic (flow_edges f)"
proof -
  have E: "edge_set (validator_graph f) = flow_edges f \<inter> set (node_ids f) \<times> UNIV"
    using validator_graph_of [of f] by (simp add: graph_of_def)
  have dist: "length (node_ids f) = card (set (node_ids f)) \<longleftrightarrow> distinct (node_ids f)" by (metis card_distinct distinct_card)
  have "edge_set (validator_graph f) = flow_edges f" if "resolved f" using resolved_edges [OF that] E by auto
  moreover have "concat (map (\<lambda>n. map (h n) (filter (\<lambda>dep. dep \<notin> set (node_ids f)) (dependencies n))) (nodes f)) = [] \<and>
     concat (map (\<lambda>e. (if from_node e \<notin> set (node_ids f) then [missing_node (from_node e)] else []) @
         (if to_node e \<notin> set (node_ids f) then [missing_node (to_node e)] else [])) (edges f)) = [] \<longleftrightarrow> resolved f" for h :: "flow_node \<Rightarrow> string \<Rightarrow> string"
    by (auto simp: resolved_def filter_empty_conv)
  ultimately show ?thesis
    unfolding validate_def Let_def fst_conv append_is_Nil_conv
    using validator_has_cycle_iff [OF it, of f] dist by auto
qed

lemma validate_acyclic: "fst (validate id f) \<Longrightarrow> acyclic (flow_edges f)"
  using validate_wellformed [of id f] by (simp add: iteration_order_def)

text \<open>
  C3: validation and the construction of the graph decide exactly the well-formed flows. A flow
  passes \<open>validate\<close> if and only if it has a node, its identifiers are distinct, its dependencies and
  edges name nodes, and the relation they form has no cycle. \<open>build\<close> succeeds exactly when all names
  are nodes and there is no cycle, and reports a circular dependency exactly when all names are nodes
  and there is one; so a validated flow is always built. This holds for every iteration order of sets.
\<close>

theorem validate_iff_acyclic:
  assumes it: "iteration_order it"
  shows "(fst (validate it f) \<longleftrightarrow> nodes f \<noteq> [] \<and> distinct (node_ids f) \<and> resolved f \<and> acyclic (flow_edges f)) \<and>
    (result_of (build it f d) = Inr () \<longleftrightarrow> resolved f \<and> acyclic (flow_edges f)) \<and>
    (result_of (build it f d) = Inl Circular_dependency \<longleftrightarrow> resolved f \<and> \<not> acyclic (flow_edges f))"
proof (intro conjI)
  show "fst (validate it f) \<longleftrightarrow> nodes f \<noteq> [] \<and> distinct (node_ids f) \<and> resolved f \<and> acyclic (flow_edges f)"
    by (rule validate_wellformed [OF it])
next
  let ?d = "d\<lparr>flow := Some f, adjacency := [], reverse_adjacency := []\<rparr>"
  have "(result_of (build it f d) = Inr () \<longleftrightarrow> resolved f \<and> acyclic (flow_edges f)) \<and>
    (result_of (build it f d) = Inl Circular_dependency \<longleftrightarrow> resolved f \<and> \<not> acyclic (flow_edges f))"
  proof (cases "resolved f")
    case True
    then obtain d' where "build_graph f ?d = (Inr (), d')" "dag_of d' (set (node_ids f)) (flow_edges f)"
      using build_graph_adds(1) [of ?d f] by auto
    then show ?thesis using True has_cycle_iff [OF it, of d'] by (simp add: build_def dag_of_def graph_of_def)
  next
    case False
    then show ?thesis using build_graph_adds(2) [of ?d f] by (auto simp: build_def)
  qed
  then show "result_of (build it f d) = Inr () \<longleftrightarrow> resolved f \<and> acyclic (flow_edges f)"
    "result_of (build it f d) = Inl Circular_dependency \<longleftrightarrow> resolved f \<and> \<not> acyclic (flow_edges f)" by blast+
qed

text \<open>Example flows: a chain, its closure to a cycle, and nodes that only differ in the identifier.\<close>

definition plain_node :: "string \<Rightarrow> node_type \<Rightarrow> string list \<Rightarrow> flow_node" where
  "plain_node i t deps = \<lparr>node_id = i, node_type = t, config = Raw [], node_name = None, executor = None, node_inputs = [],
     node_outputs = [], dependencies = deps, retry = None, retry_config = None, condition = None, checkpoint = False,
     node_metadata = []\<rparr>"

definition plain_flow :: "flow_node list \<Rightarrow> flow_edge list \<Rightarrow> flow_definition" where
  "plain_flow ns es = \<lparr>flow_name = ''f'', version = ''1.0'', description = [], flow_config = [], flow_inputs = [],
     flow_outputs = [], nodes = ns, edges = es, flow_metadata = []\<rparr>"

definition chain :: flow_definition where
  "chain = plain_flow [plain_node ''a'' DATA [], plain_node ''b'' PROCESS [''a''], plain_node ''c'' PROCESS [''a'']]
     [\<lparr>from_node = ''b'', to_node = ''c'', edge_condition = None\<rparr>]"

lemma iteration_order_id [simp]: "iteration_order id" "iteration_order (\<lambda>x. x)"
  by (simp_all add: iteration_order_def)

theorem validate_iff_acyclic_witness:
  "acyclic (flow_edges chain) \<and> result_of (build id chain \<lparr>flow = None, adjacency = [], reverse_adjacency = []\<rparr>) = Inr ()"
proof -
  have "fst (validate id chain)" by code_simp
  then show ?thesis using validate_iff_acyclic [OF iteration_order_id(1), of chain] by blast
qed

end
