(* ===== verification/Flow_Order.thy ===== *)
theory Flow_Order
  imports Flow_Cycle
begin

text \<open>
  The orders computed from the graph of a flow: the topological order, the execution levels and the
  ancestors of a node. \<open>ordered E D xs\<close> says that in the sequence \<open>xs\<close>, started when the nodes of \<open>D\<close>
  are done, every node comes after its predecessors; both algorithms keep it.
\<close>

fun ordered :: "('a \<times> 'a) set \<Rightarrow> 'a set \<Rightarrow> 'a list \<Rightarrow> bool" where
  "ordered E D [] \<longleftrightarrow> True"
| "ordered E D (x # xs) \<longleftrightarrow> (\<forall>y. (y, x) \<in> E \<longrightarrow> y \<in> D) \<and> ordered E (insert x D) xs"

lemma ordered_append: "ordered E D (xs @ ys) \<longleftrightarrow> ordered E D xs \<and> ordered E (D \<union> set xs) ys"
  by (induction xs arbitrary: D) auto

lemma ordered_mono: "ordered E D xs \<Longrightarrow> D \<subseteq> D' \<Longrightarrow> ordered E D' xs"
proof (induction xs arbitrary: D D')
  case (Cons x xs)
  then show ?case using Cons.IH [of "insert x D" "insert x D'"] by auto
qed simp

lemma ordered_level: "(\<forall>x\<in>set xs. \<forall>y. (y, x) \<in> E \<longrightarrow> y \<in> D) \<Longrightarrow> ordered E D xs"
proof (induction xs arbitrary: D)
  case (Cons x xs)
  then show ?case using Cons.IH [of "insert x D"] by auto
qed simp

lemma ordered_nth: "ordered E D xs \<Longrightarrow> i < length xs \<Longrightarrow> (y, xs ! i) \<in> E \<Longrightarrow> y \<in> D \<union> set (take i xs)"
proof (induction xs arbitrary: D i)
  case (Cons x xs)
  then show ?case using Cons.IH [of "insert x D" "i - 1"] by (cases i) auto
qed simp

text \<open>A sequence of all nodes in order excludes a cycle.\<close>

lemma ordered_no_cycle:
  assumes "ordered E D xs" and "\<forall>x\<in>D. \<forall>y. (y, x) \<in> E \<longrightarrow> y \<in> D" and "\<forall>x\<in>D. (x, x) \<notin> E\<^sup>+"
  shows "\<forall>x\<in>D \<union> set xs. (x, x) \<notin> E\<^sup>+"
  using assms
proof (induction xs arbitrary: D)
  case (Cons x xs)
  have closed: "y \<in> D" if "(y, z) \<in> E\<^sup>*" "z \<in> D" for y z
    using that by (induction rule: converse_rtrancl_induct) (use Cons.prems(2) in auto)
  have "(x, x) \<notin> E\<^sup>+"
  proof
    assume c: "(x, x) \<in> E\<^sup>+"
    then obtain y where "(x, y) \<in> E\<^sup>*" "(y, x) \<in> E" by (meson tranclD2)
    then have "x \<in> D" using Cons.prems(1) closed by auto
    then show False using c Cons.prems(3) by auto
  qed
  then have "\<forall>z\<in>insert x D \<union> set xs. (z, z) \<notin> E\<^sup>+" using Cons by (intro Cons.IH) auto
  then show ?case by auto
qed simp

text \<open>In an acyclic graph some node outside of a set has all its predecessors in the set.\<close>

lemma acyclic_source:
  assumes "finite N" and "E \<subseteq> N \<times> N" and "acyclic E" and stuck: "\<forall>x\<in>N - D. \<exists>y\<in>N - D. (y, x) \<in> E"
  shows "N \<subseteq> D"
proof (rule ccontr)
  have "finite E" using assms(1,2) by (metis finite_SigmaI finite_subset)
  then have "wf E" using assms(3) by (rule finite_acyclic_wf)
  moreover assume "\<not> N \<subseteq> D"
  then obtain x where "x \<in> N - D" by auto
  ultimately obtain z where "z \<in> N - D" "\<And>y. (y, z) \<in> E \<Longrightarrow> y \<notin> N - D" using wfE_min [of E x "N - D"] by metis
  then show False using stuck by blast
qed

lemma complete_iff_acyclic:
  assumes "finite N" and "E \<subseteq> N \<times> N" and "ordered E {} xs" and "set xs \<subseteq> N"
    and "\<forall>x\<in>N - set xs. \<exists>y\<in>N - set xs. (y, x) \<in> E"
  shows "set xs = N \<longleftrightarrow> acyclic E"
proof
  assume "set xs = N"
  then have "\<forall>x\<in>N. (x, x) \<notin> E\<^sup>+" using ordered_no_cycle [OF assms(3)] by simp
  moreover have "x \<in> N" if "(x, x) \<in> E\<^sup>+" for x using tranclD [OF that] assms(2) by auto
  ultimately show "acyclic E" by (auto simp: acyclic_def)
next
  assume "acyclic E"
  then show "set xs = N" using acyclic_source [OF assms(1,2) _ assms(5)] assms(4) by auto
qed

section \<open>In-degrees\<close>

lemma bump_result:
  assumes "distinct ys" and "set ys \<subseteq> keys_of deg"
  shows "\<exists>deg'. bump k ys deg = Inr deg' \<and> map fst deg' = map fst deg \<and>
    (\<forall>x. map_of deg' x = map_option (\<lambda>n. if x \<in> set ys then n + k else n) (map_of deg x))"
  using assms
proof (induction ys arbitrary: deg)
  case Nil
  then show ?case by (simp add: map_option.id [unfolded id_def])
next
  case (Cons y ys)
  obtain n where n: "map_of deg y = Some n" using Cons.prems(2) keys_of_iff [of y deg] by auto
  then have "y \<in> fst ` set deg" by (metis domI dom_map_of_conv_image_fst)
  then have f: "map fst (AList.update y (n + k) deg) = map fst deg" by (simp add: update_keys)
  obtain deg' where d: "bump k ys (AList.update y (n + k) deg) = Inr deg'" "map fst deg' = map fst (AList.update y (n + k) deg)"
    "\<forall>x. map_of deg' x = map_option (\<lambda>n. if x \<in> set ys then n + k else n) (map_of (AList.update y (n + k) deg) x)"
    using Cons.IH [of "AList.update y (n + k) deg"] Cons.prems by auto
  then show ?case using n f Cons.prems(1) by auto
qed

lemma relax_result:
  assumes "distinct ys" and "set ys \<subseteq> keys_of deg"
  shows "\<exists>deg'. relax ys deg q = Inr (deg', q @ filter (\<lambda>y. map_of deg y = Some 1) ys) \<and> keys_of deg' = keys_of deg \<and>
    (\<forall>x. map_of deg' x = map_option (\<lambda>n. if x \<in> set ys then n - 1 else n) (map_of deg x))"
  using assms
proof (induction ys arbitrary: deg q)
  case Nil
  then show ?case by (simp add: map_option.id [unfolded id_def])
next
  case (Cons y ys)
  obtain n where n: "map_of deg y = Some n" using Cons.prems(2) keys_of_iff [of y deg] by auto
  let ?u = "AList.update y (n - 1) deg"
  have "filter (\<lambda>y. map_of ?u y = Some 1) ys = filter (\<lambda>y. map_of deg y = Some 1) ys"
    using Cons.prems(1) by (intro filter_cong) auto
  moreover obtain deg' where "relax ys ?u (if n - 1 = 0 then q @ [y] else q) =
      Inr (deg', (if n - 1 = 0 then q @ [y] else q) @ filter (\<lambda>y. map_of ?u y = Some 1) ys)" "keys_of deg' = keys_of ?u"
    "\<forall>x. map_of deg' x = map_option (\<lambda>n. if x \<in> set ys then n - 1 else n) (map_of ?u x)"
    using Cons.IH [of ?u "if n - 1 = 0 then q @ [y] else q"] Cons.prems by auto
  moreover have "y \<in> keys_of deg" using n by (simp add: keys_of_iff)
  ultimately show ?case using n Cons.prems(1) by auto
qed

lemma count_in_result:
  assumes it: "iteration_order it" and "\<forall>p\<in>set g. distinct (snd p) \<and> set (snd p) \<subseteq> keys_of deg"
  shows "\<exists>deg'. count_in it g deg = Inr deg' \<and> map fst deg' = map fst deg \<and>
    (\<forall>x. map_of deg' x = map_option (\<lambda>n. n + int (length (filter (\<lambda>p. x \<in> set (snd p)) g))) (map_of deg x))"
  using assms(2)
proof (induction g arbitrary: deg)
  case Nil
  then show ?case by (simp add: map_option.id [unfolded id_def])
next
  case (Cons a g)
  obtain x ys where a: "a = (x, ys)" by (cases a)
  have ys: "distinct (it ys)" "set (it ys) \<subseteq> keys_of deg" using Cons.prems it a by (simp_all add: distinct_iteration)
  obtain deg1 where 1: "bump 1 (it ys) deg = Inr deg1" "map fst deg1 = map fst deg"
    "\<forall>x. map_of deg1 x = map_option (\<lambda>n. if x \<in> set ys then n + 1 else n) (map_of deg x)"
    using bump_result [OF ys, of 1] it by auto
  have "keys_of deg1 = keys_of deg" using 1(2) by (metis keys_of_def list.set_map)
  then obtain deg2 where "count_in it g deg1 = Inr deg2" "map fst deg2 = map fst deg1"
    "\<forall>x. map_of deg2 x = map_option (\<lambda>n. n + int (length (filter (\<lambda>p. x \<in> set (snd p)) g))) (map_of deg1 x)"
    using Cons.IH [of deg1] Cons.prems by auto
  then show ?case using 1 by (auto simp: a option.map_comp comp_def algebra_simps intro!: option.map_cong)
qed

lemma release_result:
  assumes it: "iteration_order it" and "\<forall>x. distinct (succs g x)" and "\<forall>x\<in>set xs. set (succs g x) \<subseteq> keys_of deg"
  shows "\<exists>deg'. release it g xs deg = Inr deg' \<and> keys_of deg' = keys_of deg \<and>
    (\<forall>x. map_of deg' x = map_option (\<lambda>n. n - int (length (filter (\<lambda>p. x \<in> set (succs g p)) xs))) (map_of deg x))"
  using assms(3)
proof (induction xs arbitrary: deg)
  case Nil
  then show ?case by (simp add: map_option.id [unfolded id_def])
next
  case (Cons a xs)
  have ys: "distinct (it (succs g a))" "set (it (succs g a)) \<subseteq> keys_of deg"
    using Cons.prems it assms(2) by (simp_all add: distinct_iteration)
  obtain deg1 where 1: "bump (- 1) (it (succs g a)) deg = Inr deg1" "map fst deg1 = map fst deg"
    "\<forall>x. map_of deg1 x = map_option (\<lambda>n. if x \<in> set (succs g a) then n + - 1 else n) (map_of deg x)"
    using bump_result [OF ys, of "- 1"] it by auto
  have k: "keys_of deg1 = keys_of deg" using 1(2) by (metis keys_of_def list.set_map)
  then obtain deg2 where "release it g xs deg1 = Inr deg2" "keys_of deg2 = keys_of deg1"
    "\<forall>x. map_of deg2 x = map_option (\<lambda>n. n - int (length (filter (\<lambda>p. x \<in> set (succs g p)) xs))) (map_of deg1 x)"
    using Cons.IH [of deg1] Cons.prems by auto
  then show ?case using 1 k by (auto simp: option.map_comp comp_def algebra_simps intro!: option.map_cong)
qed

lemma initial_degrees:
  "map_of (foldl (\<lambda>deg n. AList.update (node_id n) (k (node_id n)) deg) d ns) x = (if x \<in> node_id ` set ns then Some (k x) else map_of d x)"
  "keys_of (foldl (\<lambda>deg n. AList.update (node_id n) (k (node_id n)) deg) d ns) = keys_of d \<union> node_id ` set ns"
  "distinct (map fst d) \<Longrightarrow> distinct (map fst (foldl (\<lambda>deg n. AList.update (node_id n) (k (node_id n)) deg) d ns))"
  by (induction ns arbitrary: d) auto

lemma dag_ofD:
  assumes "dag_of d N E"
  shows "set (succs (adjacency d) x) = {y. (x, y) \<in> E}" "set (succs (reverse_adjacency d) x) = {y. (y, x) \<in> E}"
    "distinct (succs (adjacency d) x)" "distinct (succs (reverse_adjacency d) x)" "E \<subseteq> N \<times> N" "finite N"
    "distinct (map fst (adjacency d))" "keys_of (adjacency d) = N" "keys_of (reverse_adjacency d) = N"
proof -
  have E: "edge_set (adjacency d) = E" "edge_set (reverse_adjacency d) = E\<inverse>" and
    k: "keys_of (adjacency d) = N" "keys_of (reverse_adjacency d) = N"
    using assms by (simp_all add: dag_of_def graph_of_def)
  show "set (succs (adjacency d) x) = {y. (x, y) \<in> E}" using E(1) edge_set_iff [of x _ "adjacency d"] by auto
  show "set (succs (reverse_adjacency d) x) = {y. (y, x) \<in> E}" using E(2) edge_set_iff [of x _ "reverse_adjacency d"] by auto
  show "distinct (succs (adjacency d) x)" "distinct (succs (reverse_adjacency d) x)" "distinct (map fst (adjacency d))"
    using assms by (simp_all add: dag_of_def graph_of_def)
  show "keys_of (adjacency d) = N" "keys_of (reverse_adjacency d) = N" using k by simp_all
  show "finite N" using k(1) finite_keys_of [of "adjacency d"] by simp
  have "x \<in> keys_of g" if "(x, y) \<in> edge_set g" for x y g
    using that succs_outside [of x g] by (cases "x \<in> keys_of g") simp_all
  then have "x \<in> N \<and> y \<in> N" if "(x, y) \<in> E" for x y using that E k by (metis converse_iff)
  then show "E \<subseteq> N \<times> N" by auto
qed

text \<open>The predecessors of a node that are not yet done.\<close>

definition open_preds :: "('a \<times> 'a) set \<Rightarrow> 'a set \<Rightarrow> 'a \<Rightarrow> 'a set" where
  "open_preds E D x = {y. (y, x) \<in> E \<and> y \<notin> D}"

lemma finite_open_preds: "finite N \<Longrightarrow> E \<subseteq> N \<times> N \<Longrightarrow> finite (open_preds E D x)"
  by (rule finite_subset [of _ N]) (auto simp: open_preds_def)

lemma in_degree_length:
  assumes "dag_of d N E"
  shows "length (filter (\<lambda>p. x \<in> set (snd p)) (adjacency d)) = card (open_preds E {} x)"
proof -
  note D = dag_ofD [OF assms]
  let ?F = "filter (\<lambda>p. x \<in> set (snd p)) (adjacency d)"
  have s: "set ys = {z. (y, z) \<in> E}" if "(y, ys) \<in> set (adjacency d)" for y ys
    using D(1) [of y] map_of_is_SomeI [OF D(7) that] by (simp only: dict_get_def option.case)
  have "set (map fst ?F) = open_preds E {} x"
  proof (intro equalityI subsetI)
    fix y assume "y \<in> set (map fst ?F)"
    then obtain ys where "(y, ys) \<in> set (adjacency d)" "x \<in> set ys" by auto
    then show "y \<in> open_preds E {} x" using s [of y ys] by (simp add: open_preds_def)
  next
    fix y assume "y \<in> open_preds E {} x"
    then have e: "(y, x) \<in> E" by (simp add: open_preds_def)
    then have "y \<in> keys_of (adjacency d)" using D(5,8) by auto
    then obtain ys where "(y, ys) \<in> set (adjacency d)" by (auto simp: keys_of_def)
    then show "y \<in> set (map fst ?F)" using s [of y ys] e by force
  qed
  moreover have "distinct (map fst ?F)" by (rule distinct_map_filter [OF D(7)])
  ultimately show ?thesis by (metis distinct_card length_map)
qed

section \<open>The topological order\<close>

definition degrees :: "('a \<times> 'a) set \<Rightarrow> 'a set \<Rightarrow> 'a set \<Rightarrow> ('a \<times> int) list \<Rightarrow> bool" where
  "degrees E N D deg \<longleftrightarrow> keys_of deg = N \<and> (\<forall>x\<in>N. map_of deg x = Some (int (card (open_preds E D x))))"

lemma open_preds_insert:
  assumes "x \<notin> D"
  shows "open_preds E (insert x D) z = (if (x, z) \<in> E then open_preds E D z - {x} else open_preds E D z)"
  using assms by (auto simp: open_preds_def)

lemma card_1_mem: "x \<in> S \<Longrightarrow> card S = 1 \<longleftrightarrow> S = {x}"
  by (auto simp: card_1_singleton_iff)

text \<open>The invariant of the sorting loop.\<close>

fun sort_inv :: "(string \<times> string) set \<Rightarrow> string set \<Rightarrow> flow_error + sort_state \<Rightarrow> bool" where
  "sort_inv E N (Inr (deg, q, r)) \<longleftrightarrow> degrees E N (set r) deg \<and> distinct (r @ q) \<and> set (r @ q) \<subseteq> N \<and>
     (\<forall>x\<in>N. x \<in> set (r @ q) \<longleftrightarrow> open_preds E (set r) x = {}) \<and> ordered E {} r"
| "sort_inv E N (Inl e) \<longleftrightarrow> False"

fun sort_left :: "string set \<Rightarrow> flow_error + sort_state \<Rightarrow> nat" where
  "sort_left N (Inr (deg, q, r)) = card N - length r"
| "sort_left N (Inl e) = 0"

lemma sort_step_inv:
  assumes d: "dag_of d N E" and it: "iteration_order it" and inv: "sort_inv E N s" and b: "sorting s"
  shows "sort_inv E N (sort_step it (adjacency d) s) \<and> sort_left N (sort_step it (adjacency d) s) < sort_left N s"
proof -
  note D = dag_ofD [OF d]
  obtain deg x q r where s: "s = Inr (deg, x # q, r)" using b
    by (cases s rule: sorting.cases) (auto simp: neq_Nil_conv)
  have deg: "degrees E N (set r) deg" and dis: "distinct (r @ x # q)" and sub: "set (r @ x # q) \<subseteq> N" and
    iff: "\<And>z. z \<in> N \<Longrightarrow> z \<in> set (r @ x # q) \<longleftrightarrow> open_preds E (set r) z = {}" and ord: "ordered E {} r"
    using inv unfolding s sort_inv.simps by blast+
  let ?ys = "it (succs (adjacency d) x)"
  have ys: "distinct ?ys" "set ?ys = {y. (x, y) \<in> E}" "set ?ys \<subseteq> keys_of deg"
    using it D(1,3) [of x] D(5) deg by (auto simp: distinct_iteration degrees_def)
  obtain deg' where rel: "relax ?ys deg q = Inr (deg', q @ filter (\<lambda>y. map_of deg y = Some 1) ?ys)" "keys_of deg' = keys_of deg"
    "\<And>z. map_of deg' z = map_option (\<lambda>n. if z \<in> set ?ys then n - 1 else n) (map_of deg z)"
    using relax_result [OF ys(1,3), of q] by auto
  let ?new = "filter (\<lambda>y. map_of deg y = Some 1) ?ys"
  have step: "sort_step it (adjacency d) s = Inr (deg', q @ ?new, r @ [x])" using s rel(1) by simp
  have xr: "x \<notin> set r" using dis by simp
  note op = open_preds_insert [OF xr, of E]
  have fin: "finite (open_preds E (set r) z)" for z by (rule finite_open_preds [OF D(6,5)])
  have mem: "x \<in> open_preds E (set r) z" if "(x, z) \<in> E" for z using that xr by (simp add: open_preds_def)
  have new: "z \<in> set ?new \<longleftrightarrow> open_preds E (set r) z = {x}" if "z \<in> N" for z
  proof -
    have "map_of deg z = Some (int (card (open_preds E (set r) z)))" using deg that by (simp add: degrees_def)
    then have "z \<in> set ?new \<longleftrightarrow> (x, z) \<in> E \<and> card (open_preds E (set r) z) = 1" using ys(2) by auto
    moreover have "(x, z) \<in> E" if "open_preds E (set r) z = {x}" using that unfolding open_preds_def by blast
    ultimately show ?thesis using card_1_mem [OF mem [of z]] by blast
  qed
  have newN: "set ?new \<subseteq> N" using ys(2) D(5) by auto
  have "map_of deg' z = Some (int (card (open_preds E (insert x (set r)) z)))" if "z \<in> N" for z
  proof -
    have "map_of deg z = Some (int (card (open_preds E (set r) z)))" using deg that by (simp add: degrees_def)
    moreover have "0 < card (open_preds E (set r) z)" if "(x, z) \<in> E" using mem [OF that] fin [of z] by (auto simp: card_gt_0_iff)
    ultimately show ?thesis
      using rel(3) [of z] ys(2) mem [of z] by (simp add: op card_Diff_singleton of_nat_diff Suc_le_eq)
  qed
  then have "degrees E N (set (r @ [x])) deg'" using deg rel(2) by (simp add: degrees_def)
  moreover have "distinct ((r @ [x]) @ q @ ?new)"
  proof -
    have "z \<notin> set (r @ x # q)" if "z \<in> set ?new" for z
    proof -
      have "z \<in> N" using newN that by blast
      then have "open_preds E (set r) z = {x}" using new that by blast
      then show ?thesis using iff [OF \<open>z \<in> N\<close>] by blast
    qed
    then have "set (r @ x # q) \<inter> set ?new = {}" by blast
    moreover have "distinct ?new" by (rule distinct_filter [OF ys(1)])
    ultimately have "distinct ((r @ x # q) @ ?new)" unfolding distinct_append [of "r @ x # q"] using dis by blast
    then show ?thesis by (simp only: append_assoc append_Cons append_Nil)
  qed
  moreover have "\<forall>z\<in>N. z \<in> set ((r @ [x]) @ q @ ?new) \<longleftrightarrow> open_preds E (set (r @ [x])) z = {}"
  proof
    fix z assume z: "z \<in> N"
    have "z \<in> set ((r @ [x]) @ q @ ?new) \<longleftrightarrow> z \<in> set (r @ x # q) \<or> z \<in> set ?new" by auto
    also have "\<dots> \<longleftrightarrow> open_preds E (set r) z = {} \<or> open_preds E (set r) z = {x}" using iff [OF z] new [OF z] by blast
    also have "\<dots> \<longleftrightarrow> open_preds E (insert x (set r)) z = {}" using mem [of z] by (cases "(x, z) \<in> E") (auto simp: op open_preds_def)
    finally show "z \<in> set ((r @ [x]) @ q @ ?new) \<longleftrightarrow> open_preds E (set (r @ [x])) z = {}" by simp
  qed
  moreover have "ordered E {} (r @ [x])"
  proof -
    have "open_preds E (set r) x = {}" using iff [of x] sub by auto
    then show ?thesis using ord by (auto simp: ordered_append open_preds_def)
  qed
  moreover have "card N - length (r @ [x]) < card N - length r"
  proof -
    have "length (r @ x # q) = card (set (r @ x # q))" using dis by (metis distinct_card)
    also have "\<dots> \<le> card N" by (rule card_mono [OF D(6) sub])
    finally show ?thesis by simp
  qed
  moreover have "set ((r @ [x]) @ q @ ?new) \<subseteq> N" using sub newN by auto
  ultimately show ?thesis unfolding step unfolding s sort_inv.simps sort_left.simps by (intro conjI)
qed

lemma sort_loop:
  assumes d: "dag_of d N E" and it: "iteration_order it" and inv: "sort_inv E N s"
  shows "\<exists>deg r. while_option sorting (sort_step it (adjacency d)) s = Some (Inr (deg, [], r)) \<and> sort_inv E N (Inr (deg, [], r))"
proof -
  obtain t where t: "while_option sorting (sort_step it (adjacency d)) s = Some t"
    using measure_while_option_Some [of "sort_inv E N" sorting "sort_step it (adjacency d)" "sort_left N" s] sort_step_inv [OF d it] inv
    by blast
  have "sort_inv E N t" using while_option_rule [of "sort_inv E N", OF _ t inv] sort_step_inv [OF d it] by blast
  moreover have "\<not> sorting t" by (rule while_option_stop [OF t])
  ultimately show ?thesis using t by (cases t rule: sorting.cases) auto
qed

lemma sort_start:
  assumes d: "dag_of d (set (node_ids f)) E" and it: "iteration_order it"
  shows "\<exists>deg. count_in it (adjacency d) (foldl (\<lambda>deg n. AList.update (node_id n) 0 deg) [] (nodes f)) = Inr deg \<and>
    sort_inv E (set (node_ids f)) (Inr (deg, map fst (filter (\<lambda>(x, n). n = 0) deg), []))"
proof -
  let ?N = "set (node_ids f)" and ?z = "foldl (\<lambda>deg n. AList.update (node_id n) (0 :: int) deg) [] (nodes f)"
  note D = dag_ofD [OF d]
  note z = initial_degrees [where k = "\<lambda>_. 0 :: int" and d = "[]" and ns = "nodes f"]
  have z2: "keys_of ?z = ?N" using z(2) by simp
  have "distinct (snd p) \<and> set (snd p) \<subseteq> keys_of ?z" if p: "p \<in> set (adjacency d)" for p
  proof -
    have s: "succs (adjacency d) (fst p) = snd p"
      using map_of_is_SomeI [OF D(7), of "fst p" "snd p"] p by (simp only: dict_get_def prod.collapse option.case)
    have "set (snd p) = {y. (fst p, y) \<in> E}" using D(1) [of "fst p"] s by simp
    then have "set (snd p) \<subseteq> ?N" using D(5) by blast
    then show ?thesis using z2 D(3) [of "fst p"] s by simp
  qed
  then obtain deg where c: "count_in it (adjacency d) ?z = Inr deg" "map fst deg = map fst ?z"
    "\<And>x. map_of deg x = map_option (\<lambda>n. n + int (length (filter (\<lambda>p. x \<in> set (snd p)) (adjacency d)))) (map_of ?z x)"
    using count_in_result [OF it] by blast
  have dis: "distinct (map fst deg)" using c(2) z(3) by simp
  have deg: "degrees E ?N {} deg"
  proof -
    have "keys_of deg = ?N" using c(2) z2 by (metis keys_of_def list.set_map)
    moreover have "map_of deg x = Some (int (card (open_preds E {} x)))" if "x \<in> ?N" for x
      using c(3) [of x] z(1) [of x] in_degree_length [OF d, of x] that by simp
    ultimately show ?thesis by (simp add: degrees_def)
  qed
  have q: "x \<in> set (map fst (filter (\<lambda>(x, n). n = 0) deg)) \<longleftrightarrow> open_preds E {} x = {}" if x: "x \<in> ?N" for x
  proof -
    have "map_of deg x = Some (int (card (open_preds E {} x)))" using deg x unfolding degrees_def by blast
    moreover have "finite (open_preds E {} x)" by (rule finite_open_preds [OF D(6,5)])
    moreover have "x \<in> set (map fst (filter (\<lambda>(x, n). n = 0) deg)) \<longleftrightarrow> map_of deg x = Some 0"
      unfolding map_of_eq_Some_iff [OF dis] by force
    ultimately show ?thesis by (simp only: option.inject of_nat_eq_0_iff card_0_eq)
  qed
  moreover have "set (map fst (filter (\<lambda>(x, n). n = 0) deg)) \<subseteq> ?N" using deg by (auto simp: degrees_def keys_of_def)
  moreover have "distinct (map fst (filter (\<lambda>(x, n). n = 0) deg))" by (rule distinct_map_filter [OF dis])
  ultimately have "sort_inv E ?N (Inr (deg, map fst (filter (\<lambda>(x, n). n = 0) deg), []))"
    unfolding sort_inv.simps append_Nil list.set(1) ordered.simps using deg by blast
  then show ?thesis using c(1) by blast
qed

text \<open>
  C10: \<open>topological_sort\<close> is a topological order. For a graph built from a flow the loop terminates and
  returns nodes of the flow without repetition, each after everything it depends on; it returns
  all nodes if and only if the flow has no cycle.
\<close>

theorem topological_sort_correct:
  assumes it: "iteration_order it" and b: "dag_builder (Some f) = (Inr (), d)"
  shows "\<exists>xs. topological_sort it d = Some (Inr xs) \<and> distinct xs \<and> set xs \<subseteq> set (node_ids f) \<and>
    (\<forall>i y. i < length xs \<and> (y, xs ! i) \<in> flow_edges f \<longrightarrow> y \<in> set (take i xs)) \<and>
    (set xs = set (node_ids f) \<longleftrightarrow> acyclic (flow_edges f))"
proof -
  let ?N = "set (node_ids f)" and ?E = "flow_edges f"
  have dag: "dag_of d ?N ?E" and fl: "flow d = Some f" using dag_builder_dag [OF b] by simp_all
  note D = dag_ofD [OF dag]
  obtain deg where deg: "count_in it (adjacency d) (foldl (\<lambda>deg n. AList.update (node_id n) 0 deg) [] (nodes f)) = Inr deg"
    "sort_inv ?E ?N (Inr (deg, map fst (filter (\<lambda>(x, n). n = 0) deg), []))" using sort_start [OF dag it] by blast
  obtain deg' r where r: "while_option sorting (sort_step it (adjacency d)) (Inr (deg, map fst (filter (\<lambda>(x, n). n = 0) deg), [])) =
      Some (Inr (deg', [], r))" "sort_inv ?E ?N (Inr (deg', [], r))" using sort_loop [OF dag it deg(2)] by blast
  have res: "topological_sort it d = Some (Inr r)" by (simp add: topological_sort_def fl deg(1) r(1))
  have inv: "distinct r" "set r \<subseteq> ?N" "ordered ?E {} r" "\<And>x. x \<in> ?N \<Longrightarrow> x \<in> set r \<longleftrightarrow> open_preds ?E (set r) x = {}"
    using r(2) unfolding sort_inv.simps append_Nil2 by blast+
  have "\<exists>y\<in>?N - set r. (y, x) \<in> ?E" if "x \<in> ?N - set r" for x
  proof -
    have "open_preds ?E (set r) x \<noteq> {}" using inv(4) [of x] that by blast
    then show ?thesis using D(5) unfolding open_preds_def by blast
  qed
  then have "set r = ?N \<longleftrightarrow> acyclic ?E" using complete_iff_acyclic [OF D(6,5) inv(3,2)] by blast
  moreover have "\<forall>i y. i < length r \<and> (y, r ! i) \<in> ?E \<longrightarrow> y \<in> set (take i r)"
    using ordered_nth [OF inv(3)] by simp
  ultimately show ?thesis using res inv(1,2) by blast
qed

lemma chain_built: "dag_builder (Some chain) = (Inr (), state_of (dag_builder (Some chain)))"
proof -
  have "result_of (dag_builder (Some chain)) = Inr ()" by code_simp
  then show ?thesis by (simp add: prod_eq_iff)
qed

lemma chain_acyclic: "acyclic (flow_edges chain)"
proof -
  have "fst (validate id chain)" by code_simp
  then show ?thesis by (rule validate_acyclic)
qed

theorem topological_sort_correct_witness:
  "\<exists>xs. topological_sort id (state_of (dag_builder (Some chain))) = Some (Inr xs) \<and> set xs = {''a'', ''b'', ''c''}"
proof -
  have ids: "set (node_ids chain) = {''a'', ''b'', ''c''}" by (simp add: chain_def plain_flow_def plain_node_def)
  obtain xs where "topological_sort id (state_of (dag_builder (Some chain))) = Some (Inr xs)"
    "set xs = set (node_ids chain) \<longleftrightarrow> acyclic (flow_edges chain)"
    using topological_sort_correct [OF iteration_order_id(1) chain_built] by (elim exE conjE) rule
  then show ?thesis using ids chain_acyclic by (intro exI conjI) (assumption, simp only:)
qed

section \<open>The execution levels\<close>

text \<open>
  The layers of a graph from a set of done nodes on: each layer is sorted and holds exactly the open
  nodes whose predecessors are done; when the layers end, every open node waits for an open one.
\<close>

fun layers :: "string set \<Rightarrow> (string \<times> string) set \<Rightarrow> string set \<Rightarrow> string list list \<Rightarrow> bool" where
  "layers N E D [] \<longleftrightarrow> (\<forall>x\<in>N - D. \<exists>y\<in>N - D. (y, x) \<in> E)"
| "layers N E D (l # ls) \<longleftrightarrow> l \<noteq> [] \<and> sorted l \<and> distinct l \<and> set l = {x \<in> N - D. open_preds E D x = {}} \<and>
     layers N E (D \<union> set l) ls"

lemma release_degrees:
  assumes d: "dag_of d N E" and it: "iteration_order it" and deg: "degrees E N D deg" and
    cur: "distinct cur" "set cur \<subseteq> N" "set cur \<inter> D = {}"
  shows "\<exists>deg'. release it (adjacency d) cur deg = Inr deg' \<and> degrees E N (D \<union> set cur) deg'"
proof -
  note D = dag_ofD [OF d]
  have "\<forall>x\<in>set cur. set (succs (adjacency d) x) \<subseteq> keys_of deg" using D(1,5) deg by (auto simp: degrees_def)
  then obtain deg' where r: "release it (adjacency d) cur deg = Inr deg'" "keys_of deg' = keys_of deg"
    "\<And>x. map_of deg' x = map_option (\<lambda>n. n - int (length (filter (\<lambda>p. x \<in> set (succs (adjacency d) p)) cur))) (map_of deg x)"
    using release_result [OF it, of "adjacency d" cur deg] D(3) by blast
  have "map_of deg' x = Some (int (card (open_preds E (D \<union> set cur) x)))" if x: "x \<in> N" for x
  proof -
    let ?A = "{p \<in> set cur. (p, x) \<in> E}"
    have "length (filter (\<lambda>p. x \<in> set (succs (adjacency d) p)) cur) = card ?A"
    proof -
      have "filter (\<lambda>p. x \<in> set (succs (adjacency d) p)) cur = filter (\<lambda>p. (p, x) \<in> E) cur"
        unfolding D(1) by simp
      moreover have "length (filter (\<lambda>p. (p, x) \<in> E) cur) = card (set (filter (\<lambda>p. (p, x) \<in> E) cur))"
        by (rule distinct_card [OF distinct_filter [OF cur(1)], symmetric])
      ultimately show ?thesis by (simp only: set_filter)
    qed
    moreover have "?A \<subseteq> open_preds E D x" "open_preds E (D \<union> set cur) x = open_preds E D x - ?A"
      using cur(3) by (auto simp: open_preds_def)
    moreover have "finite (open_preds E D x)" by (rule finite_open_preds [OF D(6,5)])
    ultimately have "int (card (open_preds E (D \<union> set cur) x)) =
        int (card (open_preds E D x)) - int (length (filter (\<lambda>p. x \<in> set (succs (adjacency d) p)) cur))"
      by (simp add: card_Diff_subset finite_subset card_mono of_nat_diff)
    moreover have "map_of deg x = Some (int (card (open_preds E D x)))" using deg x by (simp add: degrees_def)
    ultimately show ?thesis using r(3) [of x] by simp
  qed
  then show ?thesis using r(1,2) deg by (simp add: degrees_def)
qed

lemma levels_loop_layers:
  assumes d: "dag_of d N E" and it: "iteration_order it" and "degrees E N D deg" and "distinct remaining"
    and "set remaining = N - D"
  shows "\<exists>L. levels_loop it (adjacency d) remaining deg = Inr L \<and> layers N E D L"
  using assms(3-)
proof (induction "length remaining" arbitrary: D deg remaining rule: less_induct)
  case less
  define cur where "cur = sort (filter (\<lambda>x. map_of deg x = Some 0) remaining)"
  have "finite (open_preds E D x)" for x using dag_ofD(5,6) [OF d] by (intro finite_open_preds)
  then have "map_of deg x = Some 0 \<longleftrightarrow> open_preds E D x = {}" if "x \<in> N" for x
    using less.prems(1) that by (simp add: degrees_def)
  then have cur: "set cur = {x \<in> N - D. open_preds E D x = {}}" using less.prems(3) by (auto simp: cur_def)
  have dis: "distinct cur" using less.prems(2) by (simp add: cur_def)
  show ?case
  proof (cases "cur = []")
    case True
    have "\<exists>y\<in>N - D. (y, x) \<in> E" if "x \<in> N - D" for x
    proof -
      have "open_preds E D x \<noteq> {}" using cur that unfolding True by auto
      then show ?thesis using dag_ofD(5) [OF d] unfolding open_preds_def by blast
    qed
    then show ?thesis using True by (subst levels_loop.simps) (simp add: Let_def cur_def [symmetric])
  next
    case False
    obtain deg' where r: "release it (adjacency d) cur deg = Inr deg'" "degrees E N (D \<union> set cur) deg'"
      using release_degrees [OF d it less.prems(1) dis] cur by blast
    let ?rem = "filter (\<lambda>x. x \<notin> set cur) remaining"
    have "hd cur \<in> set cur" by (rule hd_in_set [OF False])
    then have "length ?rem < length remaining"
      using cur less.prems(3) by (intro length_filter_less [of "hd cur"]) blast+
    moreover have "set ?rem = N - (D \<union> set cur)" using less.prems(3) by auto
    ultimately obtain L where "levels_loop it (adjacency d) ?rem deg' = Inr L" "layers N E (D \<union> set cur) L"
      using less.hyps [of ?rem "D \<union> set cur" deg'] r(2) less.prems(2) by auto
    moreover have "remaining \<noteq> []" "sorted cur" using False by (auto simp: cur_def)
    ultimately have "levels_loop it (adjacency d) remaining deg = Inr (cur # L)" "layers N E D (cur # L)"
      using False r(1) cur dis by (subst levels_loop.simps, simp_all add: Let_def cur_def [symmetric])
    then show ?thesis by blast
  qed
qed

lemma levels_layers:
  assumes it: "iteration_order it" and dag: "dag_of d (set (node_ids f)) E" and fl: "flow d = Some f"
  shows "\<exists>L. get_execution_levels it d = Inr L \<and> layers (set (node_ids f)) E {} L"
proof -
  let ?N = "set (node_ids f)" and ?k = "\<lambda>i. int (length (dict_get (reverse_adjacency d) i []))"
  let ?deg = "foldl (\<lambda>deg n. AList.update (node_id n) (?k (node_id n)) deg) [] (nodes f)"
  have "?k x = int (card (open_preds E {} x))" for x
    using distinct_card [OF dag_ofD(4) [OF dag, of x]] unfolding dag_ofD(2) [OF dag] by (simp add: open_preds_def)
  then have "degrees E ?N {} ?deg"
    using initial_degrees(1) [where k = ?k and d = "[]" and ns = "nodes f"] initial_degrees(2) [where k = ?k and d = "[]" and ns = "nodes f"]
    by (simp add: degrees_def)
  then show ?thesis
    using levels_loop_layers [OF dag it, of "{}" ?deg "remdups (map node_id (nodes f))"] by (simp add: get_execution_levels_def fl)
qed

lemma layers_concat:
  assumes "layers N E D L" and "D \<subseteq> N"
  shows "distinct (concat L) \<and> set (concat L) \<subseteq> N - D \<and> ordered E D (concat L) \<and>
    (\<forall>l\<in>set L. l \<noteq> [] \<and> sorted l) \<and> (\<forall>x\<in>N - (D \<union> set (concat L)). \<exists>y\<in>N - (D \<union> set (concat L)). (y, x) \<in> E)"
  using assms
proof (induction L arbitrary: D)
  case (Cons l L)
  have l: "set l = {x \<in> N - D. open_preds E D x = {}}" "distinct l" "l \<noteq> []" "sorted l" and L: "layers N E (D \<union> set l) L"
    using Cons.prems(1) unfolding layers.simps by blast+
  have "D \<union> set l \<subseteq> N" using l(1) Cons.prems(2) by auto
  note IH = Cons.IH [OF L this]
  have "\<forall>x\<in>set l. \<forall>y. (y, x) \<in> E \<longrightarrow> y \<in> D" unfolding l(1) open_preds_def by blast
  then have "ordered E D l" by (rule ordered_level)
  moreover have "D \<union> set (concat (l # L)) = (D \<union> set l) \<union> set (concat L)" by auto
  ultimately show ?case using IH l by (auto simp: ordered_append)
qed simp

lemma layers_earliest:
  assumes "layers N E D L" and "i < length L" and "x \<in> set (L ! i)"
  shows "(\<forall>y. (y, x) \<in> E \<longrightarrow> y \<in> D \<or> (\<exists>j<i. y \<in> set (L ! j))) \<and> (0 < i \<longrightarrow> (\<exists>y\<in>set (L ! (i - 1)). (y, x) \<in> E)) \<and>
    x \<in> N - D"
  using assms
proof (induction L arbitrary: D i)
  case (Cons l L)
  have l: "set l = {x \<in> N - D. open_preds E D x = {}}" and L: "layers N E (D \<union> set l) L"
    using Cons.prems(1) unfolding layers.simps by blast+
  show ?case
  proof (cases i)
    case 0
    then show ?thesis using Cons.prems(3) l by (auto simp: open_preds_def)
  next
    case (Suc k)
    have k: "k < length L" "x \<in> set (L ! k)" using Cons.prems(2,3) Suc by simp_all
    note IH = Cons.IH [OF L k]
    have pred: "y \<in> D \<or> (\<exists>j<i. y \<in> set ((l # L) ! j))" if "(y, x) \<in> E" for y
    proof -
      have "y \<in> D \<union> set l \<or> (\<exists>j<k. y \<in> set (L ! j))" using IH that by blast
      then show ?thesis using Suc by (auto intro: exI [of _ 0] exI [of _ "Suc _"])
    qed
    moreover have "\<exists>y\<in>set ((l # L) ! (i - 1)). (y, x) \<in> E"
    proof (cases k)
      case 0
      have "x \<notin> set l" "x \<in> N - D" using IH by auto
      then obtain y where "(y, x) \<in> E" "y \<notin> D" using l by (auto simp: open_preds_def)
      then show ?thesis using IH 0 Suc by auto
    qed (use IH Suc in auto)
    ultimately show ?thesis using IH by blast
  qed
qed simp

text \<open>
  C6: \<open>get_execution_levels\<close> is the earliest schedule. For a graph built from a flow it returns
  sorted, non-empty levels without repetition. Everything a node depends on is in an earlier level,
  and a node that is not in the first level depends on one of the level just before its own, so it
  could not run earlier. All nodes are in a level if and only if the flow has no cycle.
\<close>

theorem execution_levels_earliest:
  assumes it: "iteration_order it" and b: "dag_builder (Some f) = (Inr (), d)"
  shows "\<exists>L. get_execution_levels it d = Inr L \<and> distinct (concat L) \<and> (\<forall>l\<in>set L. l \<noteq> [] \<and> sorted l) \<and>
    (\<forall>i x. i < length L \<and> x \<in> set (L ! i) \<longrightarrow>
       (\<forall>y. (y, x) \<in> flow_edges f \<longrightarrow> (\<exists>j<i. y \<in> set (L ! j))) \<and>
       (0 < i \<longrightarrow> (\<exists>y\<in>set (L ! (i - 1)). (y, x) \<in> flow_edges f))) \<and>
    (set (concat L) = set (node_ids f) \<longleftrightarrow> acyclic (flow_edges f))"
proof -
  let ?N = "set (node_ids f)" and ?E = "flow_edges f"
  have dag: "dag_of d ?N ?E" and fl: "flow d = Some f" using dag_builder_dag [OF b] by simp_all
  note D = dag_ofD [OF dag]
  obtain L where L: "get_execution_levels it d = Inr L" "layers ?N ?E {} L" using levels_layers [OF it dag fl] by blast
  note C = layers_concat [OF L(2) empty_subsetI, unfolded Un_empty_left Diff_empty]
  have "set (concat L) = ?N \<longleftrightarrow> acyclic ?E" by (rule complete_iff_acyclic [OF D(6,5)]) (use C in blast)+
  moreover have "(\<forall>y. (y, x) \<in> ?E \<longrightarrow> (\<exists>j<i. y \<in> set (L ! j))) \<and> (0 < i \<longrightarrow> (\<exists>y\<in>set (L ! (i - 1)). (y, x) \<in> ?E))"
    if "i < length L \<and> x \<in> set (L ! i)" for i x
    using layers_earliest [OF L(2), of i x] that by simp
  ultimately show ?thesis using L(1) C by blast
qed

theorem execution_levels_earliest_witness:
  "\<exists>L. get_execution_levels id (state_of (dag_builder (Some chain))) = Inr L \<and> distinct (concat L) \<and>
    set (concat L) = {''a'', ''b'', ''c''}"
proof -
  have ids: "set (node_ids chain) = {''a'', ''b'', ''c''}" by (simp add: chain_def plain_flow_def plain_node_def)
  obtain L where "get_execution_levels id (state_of (dag_builder (Some chain))) = Inr L" "distinct (concat L)"
    "set (concat L) = set (node_ids chain) \<longleftrightarrow> acyclic (flow_edges chain)"
    using execution_levels_earliest [OF iteration_order_id(1) chain_built] by (elim exE conjE) rule
  then show ?thesis using ids chain_acyclic by (intro exI conjI) (assumption, assumption, simp only:)
qed

section \<open>Reachability\<close>

lemma reach_closed:
  assumes "\<forall>x\<in>S. set (succs g x) \<subseteq> S \<union> T" and "(x, y) \<in> (edge_set g)\<^sup>*" and "x \<in> S"
  shows "y \<in> S \<union> (edge_set g)\<^sup>* `` T"
  using assms(2,3)
proof (induction rule: rtrancl_induct)
  case (step y z)
  then have "y \<in> S \<or> y \<in> (edge_set g)\<^sup>* `` T" by blast
  then show ?case
  proof
    assume "y \<in> S"
    then have "z \<in> S \<union> T" using assms(1) step.hyps(2) by auto
    then show ?thesis by auto
  next
    assume "y \<in> (edge_set g)\<^sup>* `` T"
    then show ?thesis using step.hyps(2) by (meson Image_iff UnI2 rtrancl.rtrancl_into_rtrancl)
  qed
qed simp

lemma reach_step: "(edge_set g)\<^sup>* `` {x} = insert x ((edge_set g)\<^sup>* `` set (succs g x))"
proof (intro equalityI subsetI)
  fix y assume "y \<in> (edge_set g)\<^sup>* `` {x}"
  then have "(x, y) \<in> (edge_set g)\<^sup>*" by simp
  then show "y \<in> insert x ((edge_set g)\<^sup>* `` set (succs g x))" by (cases rule: converse_rtranclE) auto
next
  fix y assume "y \<in> insert x ((edge_set g)\<^sup>* `` set (succs g x))"
  then show "y \<in> (edge_set g)\<^sup>* `` {x}" by (auto intro: converse_rtrancl_into_rtrancl)
qed

lemma collect_reachable:
  assumes "iteration_order it" and "\<forall>x\<in>set seen. set (succs g x) \<subseteq> set seen \<union> set stack"
  shows "set (collect it g stack seen) = set seen \<union> (edge_set g)\<^sup>* `` set stack"
  using assms
proof (induction it g stack seen rule: collect.induct)
  case (1 it g stack seen)
  note it = 1(3) and closed = 1(4)
  show ?case
  proof (cases "stack = []")
    case True
    then show ?thesis by (subst collect.simps) simp
  next
    case False
    let ?x = "last stack" and ?xs = "butlast stack"
    have st: "set stack = insert ?x (set ?xs)" by (rule set_butlast_last [OF False])
    show ?thesis
    proof (cases "?x \<in> set seen")
      case True
      have c: "\<forall>x\<in>set seen. set (succs g x) \<subseteq> set seen \<union> set ?xs" using closed True unfolding st by blast
      have "(edge_set g)\<^sup>* `` {?x} \<subseteq> set seen \<union> (edge_set g)\<^sup>* `` set ?xs" using reach_closed [OF c _ True] by blast
      then have "set seen \<union> (edge_set g)\<^sup>* `` set stack = set seen \<union> (edge_set g)\<^sup>* `` set ?xs" unfolding st by blast
      moreover have "collect it g stack seen = collect it g ?xs seen"
        using False True by (subst collect.simps) (simp add: Let_def)
      ultimately show ?thesis using 1(1) [OF False refl refl True it c] by simp
    next
      case new: False
      have c: "\<forall>x\<in>set (set_add ?x seen). set (succs g x) \<subseteq> set (set_add ?x seen) \<union> set (?xs @ it (succs g ?x))"
        using closed it unfolding st by auto
      have "collect it g stack seen = collect it g (?xs @ it (succs g ?x)) (set_add ?x seen)"
        using False new by (subst collect.simps) (simp add: Let_def)
      then have "set (collect it g stack seen) = insert ?x (set seen) \<union> (edge_set g)\<^sup>* `` (set ?xs \<union> set (succs g ?x))"
        using 1(2) [OF False refl refl new it c] it by simp
      also have "\<dots> = set seen \<union> ((edge_set g)\<^sup>* `` set ?xs \<union> insert ?x ((edge_set g)\<^sup>* `` set (succs g ?x)))"
        by (auto simp: Image_Un)
      also have "\<dots> = set seen \<union> (edge_set g)\<^sup>* `` set stack"
        unfolding st reach_step [symmetric] by (auto simp: Image_Un)
      finally show ?thesis .
    qed
  qed
qed

lemma distinct_collect: "distinct seen \<Longrightarrow> distinct (collect it g stack seen)"
proof (induction it g stack seen rule: collect.induct)
  case (1 it g stack seen)
  show ?case
    using 1(1) [OF _ refl refl] 1(2) [OF _ refl refl] 1(3) by (subst collect.simps) (simp add: Let_def)
qed

text \<open>
  C37: \<open>get_ancestors\<close> is the transitive closure of the dependencies. For a graph built from a flow its
  worklist loop returns exactly the nodes from which a non-empty path of dependencies and edges leads
  to the given node, whether or not the flow has a cycle, and \<open>get_dependencies\<close> and \<open>get_dependents\<close>
  are the single steps of such paths.
\<close>

theorem ancestors_transitive:
  assumes it: "iteration_order it" and b: "dag_builder (Some f) = (Inr (), d)"
  shows "set (get_ancestors it i d) = {a. (a, i) \<in> (flow_edges f)\<^sup>+} \<and> distinct (get_ancestors it i d) \<and>
    set (get_dependencies i d) = {a. (a, i) \<in> flow_edges f} \<and> set (get_dependents i d) = {a. (i, a) \<in> flow_edges f}"
proof -
  have dag: "dag_of d (set (node_ids f)) (flow_edges f)" using dag_builder_dag [OF b] by simp
  have E: "edge_set (reverse_adjacency d) = (flow_edges f)\<inverse>" using dag by (simp add: dag_of_def graph_of_def)
  have "set (get_ancestors it i d) = ((flow_edges f)\<inverse>)\<^sup>* `` {a. (a, i) \<in> flow_edges f}"
    using collect_reachable [OF it, of "[]" "reverse_adjacency d" "it (dict_get (reverse_adjacency d) i [])"] it dag_ofD(2) [OF dag, of i]
    by (simp add: get_ancestors_def E)
  also have "\<dots> = {a. (a, i) \<in> (flow_edges f)\<^sup>+}"
    unfolding rtrancl_converse by (auto simp: trancl_unfold_right intro: rtrancl_into_trancl1)
  finally show ?thesis
    using distinct_collect [of "[]"] dag_ofD(1,2) [OF dag, of i] by (simp add: get_ancestors_def get_dependencies_def get_dependents_def)
qed

theorem ancestors_transitive_witness:
  "set (get_ancestors id ''c'' (state_of (dag_builder (Some chain)))) = {a. (a, ''c'') \<in> (flow_edges chain)\<^sup>+}"
  using ancestors_transitive [OF iteration_order_id(1) chain_built, of "''c''"] by blast

end
