(* ===== verification/Flow_Optimize.thy ===== *)
theory Flow_Optimize
  imports Flow_Order
begin

text \<open>
  \<open>FlowOptimizer\<close> of \<open>28-ai-workflow-engine/src/aiworkflow/compiler/dag.py\<close>: merging of equal data
  nodes, the levels as metadata, cache marks and the removal of unreachable nodes. The optimizer
  works on a deep copy, so the functions return a new flow. Python's \<open>str\<close> of a list of pairs is the
  parameter \<open>str_items\<close>.
\<close>

section \<open>Merging\<close>

definition extra_of :: "flow_node \<Rightarrow> attrs" where
  "extra_of n = (case config n of Raw d \<Rightarrow> d | Parsed c \<Rightarrow> extra c)"

definition merge_key :: "(attrs \<Rightarrow> string) \<Rightarrow> flow_node \<Rightarrow> string \<times> string" where
  "merge_key str_items n = (type_value (node_type n), str_items (sort_key fst (extra_of n)))"

fun find_duplicates :: "(attrs \<Rightarrow> string) \<Rightarrow> flow_node list \<Rightarrow> ((string \<times> string) \<times> string) list \<Rightarrow> (string \<times> string) list \<Rightarrow>
    (string \<times> string) list" where
  "find_duplicates str_items [] seen dups = dups"
| "find_duplicates str_items (n # ns) seen dups =
     (if node_type n \<noteq> DATA \<or> dependencies n \<noteq> [] then find_duplicates str_items ns seen dups
      else case map_of seen (merge_key str_items n) of
          Some i \<Rightarrow> find_duplicates str_items ns seen (AList.update (node_id n) i dups)
        | None \<Rightarrow> find_duplicates str_items ns (AList.update (merge_key str_items n) (node_id n) seen) dups)"

definition merge_redundant_nodes :: "(attrs \<Rightarrow> string) \<Rightarrow> flow_definition \<Rightarrow> flow_definition" where
  "merge_redundant_nodes str_items f =
     (if nodes f = [] then f
      else let dups = find_duplicates str_items (nodes f) [] [] in
        if dups = [] then f
        else f\<lparr>nodes := filter (\<lambda>n. node_id n \<notin> keys_of dups)
              (map (\<lambda>n. n\<lparr>dependencies := map (\<lambda>i. dict_get dups i i) (dependencies n)\<rparr>) (nodes f)),
            edges := map (\<lambda>e. e\<lparr>from_node := dict_get dups (from_node e) (from_node e),
              to_node := dict_get dups (to_node e) (to_node e)\<rparr>) (edges f)\<rparr>)"

section \<open>Metadata\<close>

text \<open>The node that \<open>node_map\<close> gives for an identifier is the last one of that identifier.\<close>

primrec update_first :: "string \<Rightarrow> (flow_node \<Rightarrow> flow_node) \<Rightarrow> flow_node list \<Rightarrow> flow_node list" where
  "update_first i h [] = []"
| "update_first i h (n # ns) = (if node_id n = i then h n # ns else n # update_first i h ns)"

definition update_node :: "string \<Rightarrow> (flow_node \<Rightarrow> flow_node) \<Rightarrow> flow_node list \<Rightarrow> flow_node list" where
  "update_node i h ns = rev (update_first i h (rev ns))"

definition set_metadata :: "string \<Rightarrow> pyval \<Rightarrow> flow_node \<Rightarrow> flow_node" where
  "set_metadata k v n = n\<lparr>node_metadata := AList.update k v (node_metadata n)\<rparr>"

definition level_index :: "string list \<Rightarrow> string list list \<Rightarrow> int" where
  "level_index l ls = int (length (takeWhile (\<lambda>x. x \<noteq> l) ls))"

definition optimize_parallelism :: "(string list \<Rightarrow> string list) \<Rightarrow> flow_definition \<Rightarrow> flow_error + flow_definition" where
  "optimize_parallelism it f =
     (if nodes f = [] then Inr f
      else case dag_builder (Some f) of
          (Inl e, d) \<Rightarrow> Inl e
        | (Inr _, d) \<Rightarrow> (case get_execution_levels it d of
              Inl e \<Rightarrow> Inl e
            | Inr levels \<Rightarrow>
                let groups = map (\<lambda>l. PList (map PStr l)) (filter (\<lambda>l. 1 < length l) levels);
                    f1 = (if groups \<noteq> [] then f\<lparr>flow_metadata := AList.update ''parallel_groups'' (PList groups) (flow_metadata f)\<rparr> else f)
                in Inr (f1\<lparr>nodes := foldl (\<lambda>ns l. foldl (\<lambda>ns i.
                      update_node i (set_metadata ''parallel_level'' (PInt (level_index l levels))) ns) ns l) (nodes f1) levels\<rparr>)))"

definition mark_cacheable :: "flow_definition \<Rightarrow> flow_definition" where
  "mark_cacheable f = f\<lparr>nodes := map (\<lambda>n.
     if truthy (dict_get (extra_of n) ''deterministic'' PNone) \<and> dict_get (extra_of n) ''cost'' PNone = PStr ''high''
     then set_metadata ''cache_enabled'' (PBool True) n else n) (nodes f)\<rparr>"

section \<open>Unreachable nodes\<close>

definition remove_dead_code :: "(string list \<Rightarrow> string list) \<Rightarrow> flow_definition \<Rightarrow> flow_error + flow_definition" where
  "remove_dead_code it f = (case dag_builder (Some f) of
     (Inl e, d) \<Rightarrow> Inl e
   | (Inr _, d) \<Rightarrow>
       let reachable = collect it (adjacency d) (map node_id (filter (\<lambda>n. get_dependencies (node_id n) d = []) (nodes f))) [] in
       Inr (f\<lparr>nodes := filter (\<lambda>n. node_id n \<in> set reachable) (nodes f),
         edges := filter (\<lambda>e. from_node e \<in> set reachable \<and> to_node e \<in> set reachable) (edges f)\<rparr>))"

definition optimize :: "(string list \<Rightarrow> string list) \<Rightarrow> (attrs \<Rightarrow> string) \<Rightarrow> flow_definition \<Rightarrow> flow_error + flow_definition" where
  "optimize it str_items f =
     (if nodes f = [] then Inr f
      else case optimize_parallelism it (merge_redundant_nodes str_items f) of
          Inl e \<Rightarrow> Inl e
        | Inr f1 \<Rightarrow> remove_dead_code it (mark_cacheable f1))"

section \<open>What merging does to the graph\<close>

definition mergeable :: "flow_node \<Rightarrow> bool" where
  "mergeable n \<longleftrightarrow> node_type n = DATA \<and> dependencies n = []"

definition data_ids :: "flow_node list \<Rightarrow> string set" where
  "data_ids ns = node_id ` {n \<in> set ns. mergeable n}"

lemma data_ids_simps [simp]: "data_ids [] = {}" "data_ids (ns @ ms) = data_ids ns \<union> data_ids ms"
  "data_ids (n # ns) = (if mergeable n then insert (node_id n) (data_ids ns) else data_ids ns)"
  by (auto simp: data_ids_def)

lemma data_ids_sub: "data_ids ns \<subseteq> node_id ` set ns"
  by (auto simp: data_ids_def)

text \<open>Every duplicate stands for a data node that is kept.\<close>

definition merges :: "flow_node list \<Rightarrow> (string \<times> string) list \<Rightarrow> bool" where
  "merges ns dups \<longleftrightarrow> keys_of dups \<subseteq> data_ids ns \<and>
     (\<forall>k v. map_of dups k = Some v \<longrightarrow> v \<in> data_ids ns \<and> v \<notin> keys_of dups)"

lemma find_duplicates_merges:
  assumes "distinct (map node_id (ps @ ns))" and "merges ps dups"
    and "\<forall>k v. map_of seen k = Some v \<longrightarrow> v \<in> data_ids ps \<and> v \<notin> keys_of dups"
  shows "merges (ps @ ns) (find_duplicates str_items ns seen dups)"
  using assms
proof (induction str_items ns seen dups arbitrary: ps rule: find_duplicates.induct)
  case (1 str_items seen dups)
  then show ?case by simp
next
  case (2 str_items n ns seen dups)
  have new: "node_id n \<notin> data_ids ps" using 2(4) data_ids_sub [of ps] by auto
  have dis: "distinct (map node_id ((ps @ [n]) @ ns))" using 2(4) by simp
  show ?case
  proof (cases "mergeable n")
    case False
    then have "merges (ps @ [n]) dups" using 2(5) by (simp add: merges_def)
    then show ?thesis using 2(1) [OF _ dis] False 2(6) by (simp add: mergeable_def)
  next
    case m: True
    then have nm: "\<not> (node_type n \<noteq> DATA \<or> dependencies n \<noteq> [])" by (simp add: mergeable_def)
    show ?thesis
    proof (cases "map_of seen (merge_key str_items n)")
      case None
      have "merges (ps @ [n]) dups" using 2(5) m by (auto simp: merges_def)
      moreover have "node_id n \<notin> keys_of dups" using new 2(5) by (auto simp: merges_def)
      ultimately show ?thesis using 2(2) [OF nm None dis] None nm m 2(6) by simp
    next
      case (Some i)
      have i: "i \<in> data_ids ps" "i \<notin> keys_of dups" using 2(6) Some by blast+
      have other: "v \<noteq> node_id n" if "v \<in> data_ids ps" for v using that new by auto
      have "merges (ps @ [n]) (AList.update (node_id n) i dups)"
        using 2(5) m i other by (auto simp: merges_def)
      moreover have "\<forall>k v. map_of seen k = Some v \<longrightarrow> v \<in> data_ids (ps @ [n]) \<and> v \<notin> keys_of (AList.update (node_id n) i dups)"
        using 2(6) m other by (simp add: data_ids_def) blast
      ultimately show ?thesis using 2(3) [OF nm Some dis] Some nm by simp
    qed
  qed
qed

abbreviation duplicates :: "(attrs \<Rightarrow> string) \<Rightarrow> flow_definition \<Rightarrow> (string \<times> string) list" where
  "duplicates str_items f \<equiv> find_duplicates str_items (nodes f) [] []"

definition merged_name :: "(string \<times> string) list \<Rightarrow> string \<Rightarrow> string" where
  "merged_name dups i = dict_get dups i i"

lemma rename_merges:
  assumes "merges ns dups"
  shows "merged_name dups i \<notin> keys_of dups" and "merged_name dups i \<noteq> i \<Longrightarrow> i \<in> data_ids ns \<and> merged_name dups i \<in> data_ids ns"
    and "i \<notin> keys_of dups \<Longrightarrow> merged_name dups i = i" and "i \<in> keys_of dups \<Longrightarrow> merged_name dups i \<in> data_ids ns"
proof -
  have n: "map_of dups i = None \<longleftrightarrow> i \<notin> keys_of dups" by (rule map_of_eq_None_keys)
  show "merged_name dups i \<notin> keys_of dups" "merged_name dups i \<noteq> i \<Longrightarrow> i \<in> data_ids ns \<and> merged_name dups i \<in> data_ids ns"
    "i \<notin> keys_of dups \<Longrightarrow> merged_name dups i = i" "i \<in> keys_of dups \<Longrightarrow> merged_name dups i \<in> data_ids ns"
    using assms n by (auto simp: merged_name_def dict_get_def merges_def split: option.splits)
qed

lemma merge_redundant_nodes_eq:
  "merge_redundant_nodes str_items f = f\<lparr>
     nodes := filter (\<lambda>n. node_id n \<notin> keys_of (duplicates str_items f))
       (map (\<lambda>n. n\<lparr>dependencies := map (merged_name (duplicates str_items f)) (dependencies n)\<rparr>) (nodes f)),
     edges := map (\<lambda>e. e\<lparr>from_node := merged_name (duplicates str_items f) (from_node e),
       to_node := merged_name (duplicates str_items f) (to_node e)\<rparr>) (edges f)\<rparr>"
proof (cases "nodes f = [] \<or> duplicates str_items f = []")
  case True
  then have "duplicates str_items f = []" by auto
  moreover have "merged_name [] = (\<lambda>i. i)" by (rule ext) (simp add: merged_name_def dict_get_def)
  ultimately show ?thesis by (simp add: merge_redundant_nodes_def)
qed (simp add: merge_redundant_nodes_def Let_def merged_name_def [abs_def])

definition wellformed :: "flow_definition \<Rightarrow> bool" where
  "wellformed f \<longleftrightarrow> nodes f \<noteq> [] \<and> distinct (node_ids f) \<and> resolved f \<and> acyclic (flow_edges f)"

lemma resolvedI: "flow_edges f \<subseteq> set (node_ids f) \<times> set (node_ids f) \<Longrightarrow> resolved f"
  unfolding resolved_def flow_edges_def by blast

lemma merged_graph:
  fixes str_items :: "attrs \<Rightarrow> string"
  assumes "distinct (node_ids f)" and "resolved f"
  defines "dups \<equiv> duplicates str_items f" and "g \<equiv> merge_redundant_nodes str_items f"
  shows "merges (nodes f) dups" "node_ids g = filter (\<lambda>i. i \<notin> keys_of dups) (node_ids f)"
    "flow_edges g = map_prod (merged_name dups) (merged_name dups) ` flow_edges f" "resolved g"
    "\<And>i. i \<in> set (node_ids f) \<Longrightarrow> merged_name dups i \<in> set (node_ids g)"
proof -
  show m: "merges (nodes f) dups"
    using find_duplicates_merges [of "[]" "nodes f" "[]" "[]" str_items] assms(1) by (simp add: dups_def merges_def)
  note R = rename_merges [OF m]
  have g: "nodes g = filter (\<lambda>n. node_id n \<notin> keys_of dups) (map (\<lambda>n. n\<lparr>dependencies := map (merged_name dups) (dependencies n)\<rparr>) (nodes f))"
    "edges g = map (\<lambda>e. e\<lparr>from_node := merged_name dups (from_node e), to_node := merged_name dups (to_node e)\<rparr>) (edges f)"
    by (simp_all add: g_def dups_def merge_redundant_nodes_eq)
  show ids: "node_ids g = filter (\<lambda>i. i \<notin> keys_of dups) (node_ids f)"
    by (simp add: g filter_map comp_def)
  have "data_ids (nodes f) \<subseteq> set (node_ids f)" using data_ids_sub by simp
  then show ren: "merged_name dups i \<in> set (node_ids g)" if "i \<in> set (node_ids f)" for i
    using R(1,3,4) [of i] that unfolding ids by (cases "i \<in> keys_of dups") auto
  have kept: "node_id n \<notin> keys_of dups" if "n \<in> set (nodes f)" "dependencies n \<noteq> []" for n
  proof
    assume "node_id n \<in> keys_of dups"
    then have "node_id n \<in> data_ids (nodes f)" using m by (auto simp: merges_def)
    then obtain n' where "n' \<in> set (nodes f)" "mergeable n'" "node_id n' = node_id n" by (auto simp: data_ids_def)
    then show False using that assms(1) by (auto simp: mergeable_def distinct_map dest: inj_onD)
  qed
  have "(\<Union>n\<in>set (nodes g). (\<lambda>dep. (dep, node_id n)) ` set (dependencies n)) =
      map_prod (merged_name dups) (merged_name dups) ` (\<Union>n\<in>set (nodes f). (\<lambda>dep. (dep, node_id n)) ` set (dependencies n))" (is "?l = ?r")
  proof -
    have "set (nodes g) = (\<lambda>n. n\<lparr>dependencies := map (merged_name dups) (dependencies n)\<rparr>) ` {n \<in> set (nodes f). node_id n \<notin> keys_of dups}"
      by (auto simp: g)
    then have "?l = (\<Union>n\<in>{n \<in> set (nodes f). node_id n \<notin> keys_of dups}. (\<lambda>dep. (merged_name dups dep, node_id n)) ` set (dependencies n))"
      by (simp add: image_image)
    also have "\<dots> = (\<Union>n\<in>set (nodes f). (\<lambda>dep. (merged_name dups dep, merged_name dups (node_id n))) ` set (dependencies n))"
    proof (intro equalityI subsetI)
      fix x assume "x \<in> (\<Union>n\<in>set (nodes f). (\<lambda>dep. (merged_name dups dep, merged_name dups (node_id n))) ` set (dependencies n))"
      then obtain n dep where n: "n \<in> set (nodes f)" "dep \<in> set (dependencies n)" "x = (merged_name dups dep, merged_name dups (node_id n))" by auto
      have "dependencies n \<noteq> []" using n(2) by auto
      then have "node_id n \<notin> keys_of dups" by (rule kept [OF n(1)])
      then show "x \<in> (\<Union>n\<in>{n \<in> set (nodes f). node_id n \<notin> keys_of dups}. (\<lambda>dep. (merged_name dups dep, node_id n)) ` set (dependencies n))"
        using n R(3) by blast
    qed (use R(3) in force)
    also have "\<dots> = ?r" by (force simp: image_UN image_image)
    finally show ?thesis .
  qed
  moreover have "(\<lambda>e. (from_node e, to_node e)) ` set (edges g) = map_prod (merged_name dups) (merged_name dups) ` (\<lambda>e. (from_node e, to_node e)) ` set (edges f)"
    by (simp add: g image_image)
  ultimately show E: "flow_edges g = map_prod (merged_name dups) (merged_name dups) ` flow_edges f"
    by (simp add: flow_edges_def image_Un)
  have "flow_edges g \<subseteq> set (node_ids g) \<times> set (node_ids g)"
  proof
    fix x assume "x \<in> flow_edges g"
    then obtain a b where ab: "(a, b) \<in> flow_edges f" "x = (merged_name dups a, merged_name dups b)" unfolding E by auto
    then show "x \<in> set (node_ids g) \<times> set (node_ids g)" using resolved_edges [OF assms(2)] ren [of a] ren [of b] by blast
  qed
  then show "resolved g" by (rule resolvedI)
qed

text \<open>
  Renaming sources keeps a relation acyclic: an edge of a cycle starts at a node that has an incoming
  edge, and such a node was not renamed.
\<close>

lemma acyclic_rename:
  assumes "acyclic E" and target: "\<And>a b. (a, b) \<in> E \<Longrightarrow> b \<notin> S" and ren: "\<And>i. h i \<noteq> i \<Longrightarrow> i \<in> S \<and> h i \<in> S"
  shows "acyclic (map_prod h h ` E)"
proof (rule acyclicI, rule allI, rule notI)
  let ?E = "map_prod h h ` E"
  have fix_target: "b \<notin> S" if e: "(a, b) \<in> ?E" for a b
  proof -
    obtain a' b' where ab: "(a', b') \<in> E" "b = h b'" using e by auto
    then have "h b' = b'" using ren [of b'] target by blast
    then show ?thesis using ab target by simp
  qed
  have edge: "(y, z) \<in> E" if e: "(y, z) \<in> ?E" and y: "y \<notin> S" for y z
  proof -
    obtain a b where ab: "(a, b) \<in> E" "y = h a" "z = h b" using e by auto
    have "h a = a" using ren [of a] ab(2) y by auto
    moreover have "h b = b" using ren [of b] target [OF ab(1)] by auto
    ultimately show ?thesis using ab by simp
  qed
  have path: "(x, y) \<in> E\<^sup>+" if "(x, y) \<in> ?E\<^sup>+" "x \<notin> S" for x y
    using that
  proof (induction rule: trancl_induct)
    case (base y)
    then show ?case using edge by blast
  next
    case (step y z)
    have "y \<notin> S" using tranclD2 [OF step.hyps(1)] fix_target by blast
    then show ?case using step edge by (meson trancl_into_trancl)
  qed
  fix x assume c: "(x, x) \<in> ?E\<^sup>+"
  then have "x \<notin> S" using tranclD2 [OF c] fix_target by blast
  then show False using path [OF c] assms(1) by (simp add: acyclic_def)
qed

section \<open>The other passes\<close>

text \<open>Changes of metadata keep identifiers, dependencies and edges.\<close>

definition shape :: "flow_definition \<Rightarrow> (string \<times> string list) list \<times> flow_edge list" where
  "shape f = (map (\<lambda>n. (node_id n, dependencies n)) (nodes f), edges f)"

lemma shape_graph:
  assumes "shape f = shape g"
  shows "node_ids f = node_ids g" "flow_edges f = flow_edges g" "resolved f \<longleftrightarrow> resolved g"
proof -
  have m: "map (\<lambda>n. (node_id n, dependencies n)) (nodes f) = map (\<lambda>n. (node_id n, dependencies n)) (nodes g)" and e: "edges f = edges g"
    using assms by (simp_all add: shape_def)
  have "map fst (map (\<lambda>n. (node_id n, dependencies n)) (nodes f)) = map fst (map (\<lambda>n. (node_id n, dependencies n)) (nodes g))"
    by (simp only: m)
  then show ids: "node_ids f = node_ids g" by (simp add: comp_def)
  have d: "(\<Union>n\<in>set (nodes h). (\<lambda>dep. (dep, node_id n)) ` set (dependencies n)) =
      (\<Union>p\<in>set (map (\<lambda>n. (node_id n, dependencies n)) (nodes h)). (\<lambda>dep. (dep, fst p)) ` set (snd p))" for h
    by simp
  show E: "flow_edges f = flow_edges g" unfolding flow_edges_def d m e by simp
  have r: "resolved h \<longleftrightarrow> flow_edges h \<subseteq> set (node_ids h) \<times> set (node_ids h)" for h
    using resolvedI resolved_edges by blast
  show "resolved f \<longleftrightarrow> resolved g" unfolding r [of f] r [of g] E ids by (rule refl)
qed

lemma map_update_node:
  assumes "\<And>n. k (h n) = k n"
  shows "map k (update_node i h ns) = map k ns"
proof -
  have "map k (update_first i h ms) = map k ms" for ms by (induction ms) (auto simp: assms)
  then show ?thesis by (simp add: update_node_def rev_map [symmetric])
qed

lemma map_foldl: "(\<And>ns x. map k (h ns x) = map k ns) \<Longrightarrow> map k (foldl h ns xs) = map k ns"
  by (induction xs arbitrary: ns) simp_all

lemma optimize_parallelism_shape:
  assumes it: "iteration_order it" and "resolved f"
  shows "\<exists>g. optimize_parallelism it f = Inr g \<and> shape g = shape f"
proof (cases "nodes f = []")
  case False
  obtain d where d: "dag_builder (Some f) = (Inr (), d)" using dag_builder_resolved [OF assms(2)] by blast
  obtain L where L: "get_execution_levels it d = Inr L"
    using levels_layers [OF it] dag_builder_dag [OF d] by blast
  have "map (\<lambda>n. (node_id n, dependencies n)) (foldl (\<lambda>ns l. foldl (\<lambda>ns i. update_node i
      (set_metadata ''parallel_level'' (PInt (level_index l L))) ns) ns l) ns L) = map (\<lambda>n. (node_id n, dependencies n)) ns" for ns
    by (intro map_foldl map_update_node) (simp add: set_metadata_def)
  then show ?thesis using False d L by (simp add: optimize_parallelism_def shape_def Let_def)
qed (simp add: optimize_parallelism_def)

lemma mark_cacheable_shape: "shape (mark_cacheable f) = shape f"
  by (simp add: shape_def mark_cacheable_def set_metadata_def comp_def if_distrib cong: if_cong)

text \<open>The nodes without a predecessor, and what is reachable from them.\<close>

definition entry_nodes :: "string set \<Rightarrow> (string \<times> string) set \<Rightarrow> string set" where
  "entry_nodes N E = {x \<in> N. \<forall>y. (y, x) \<notin> E}"

definition from_entries :: "string set \<Rightarrow> (string \<times> string) set \<Rightarrow> string set" where
  "from_entries N E = E\<^sup>* `` entry_nodes N E"

lemma dead_code_reachable:
  assumes it: "iteration_order it" and "resolved f"
  shows "remove_dead_code it f = Inr (f\<lparr>
      nodes := filter (\<lambda>n. node_id n \<in> from_entries (set (node_ids f)) (flow_edges f)) (nodes f),
      edges := filter (\<lambda>e. from_node e \<in> from_entries (set (node_ids f)) (flow_edges f) \<and>
        to_node e \<in> from_entries (set (node_ids f)) (flow_edges f)) (edges f)\<rparr>)"
proof -
  let ?N = "set (node_ids f)" and ?E = "flow_edges f"
  obtain d where d: "dag_builder (Some f) = (Inr (), d)" using dag_builder_resolved [OF assms(2)] by blast
  have dag: "dag_of d ?N ?E" using dag_builder_dag [OF d] by blast
  let ?S = "map node_id (filter (\<lambda>n. get_dependencies (node_id n) d = []) (nodes f))"
  have E: "edge_set (adjacency d) = ?E" using dag by (simp add: dag_of_def graph_of_def)
  have "get_dependencies x d = [] \<longleftrightarrow> (\<forall>y. (y, x) \<notin> ?E)" for x
    using dag_ofD(2) [OF dag, of x] by (simp add: get_dependencies_def flip: set_empty)
  then have "set ?S = entry_nodes ?N ?E" by (auto simp: entry_nodes_def)
  then have "set (collect it (adjacency d) ?S []) = from_entries ?N ?E"
    using collect_reachable [OF it, of "[]" "adjacency d" ?S] by (simp add: E from_entries_def)
  then show ?thesis using d by (simp add: remove_dead_code_def Let_def)
qed

lemma dead_code_acyclic:
  assumes it: "iteration_order it" and "resolved f" and "acyclic (flow_edges f)"
  shows "remove_dead_code it f = Inr f"
proof -
  let ?N = "set (node_ids f)" and ?E = "flow_edges f"
  let ?R = "from_entries ?N ?E"
  obtain d where "dag_builder (Some f) = (Inr (), d)" using dag_builder_resolved [OF assms(2)] by blast
  then have dag: "dag_of d ?N ?E" using dag_builder_dag by blast
  note D = dag_ofD [OF dag]
  have src: "x \<in> ?R" if "x \<in> ?N" "\<forall>y. (y, x) \<notin> ?E" for x
    using that unfolding from_entries_def entry_nodes_def by blast
  have closed: "x \<in> ?R" if "y \<in> ?R" "(y, x) \<in> ?E" for x y
    using that unfolding from_entries_def by (meson Image_iff rtrancl.rtrancl_into_rtrancl)
  have "\<exists>y\<in>?N - ?R. (y, x) \<in> ?E" if x: "x \<in> ?N - ?R" for x
  proof -
    obtain y where "(y, x) \<in> ?E" using src [of x] x by blast
    then show ?thesis using closed [of y x] x D(5) by blast
  qed
  then have "?N \<subseteq> ?R" using acyclic_source [OF D(6,5) assms(3)] by blast
  then have "filter (\<lambda>n. node_id n \<in> ?R) (nodes f) = nodes f"
    "filter (\<lambda>e. from_node e \<in> ?R \<and> to_node e \<in> ?R) (edges f) = edges f"
    using assms(2) by (auto simp: filter_id_conv resolved_def)
  then show ?thesis using dead_code_reachable [OF assms(1,2)] by simp
qed

text \<open>The optimizer on any flow whose references resolve, edges to data nodes included.\<close>

lemma optimize_reachable:
  fixes str_items :: "attrs \<Rightarrow> string"
  assumes it: "iteration_order it" and f: "nodes f \<noteq> []" "distinct (node_ids f)" "resolved f"
  defines "m \<equiv> merge_redundant_nodes str_items f"
  shows "\<exists>g. optimize it str_items f = Inr g \<and>
    node_ids g = filter (\<lambda>i. i \<in> from_entries (set (node_ids m)) (flow_edges m)) (node_ids m) \<and>
    flow_outputs g = flow_outputs f \<and> (node_ids g = [] \<longrightarrow> edges g = [])"
proof -
  note M = merged_graph [where str_items = str_items, OF f(2,3), folded m_def]
  obtain g where g: "optimize_parallelism it m = Inr g" "shape g = shape m"
    using optimize_parallelism_shape [OF it M(4)] by blast
  have "flow_outputs g = flow_outputs m"
    using g(1) by (auto simp: optimize_parallelism_def Let_def split: if_splits sum.splits prod.splits)
  then have out: "flow_outputs (mark_cacheable g) = flow_outputs f"
    by (simp add: mark_cacheable_def m_def merge_redundant_nodes_eq)
  note G = shape_graph [OF trans [OF mark_cacheable_shape g(2)]]
  let ?R = "from_entries (set (node_ids m)) (flow_edges m)"
  define h where "h = (mark_cacheable g)\<lparr>nodes := filter (\<lambda>n. node_id n \<in> ?R) (nodes (mark_cacheable g)),
    edges := filter (\<lambda>e. from_node e \<in> ?R \<and> to_node e \<in> ?R) (edges (mark_cacheable g))\<rparr>"
  have "resolved (mark_cacheable g)" using G(3) M(4) by blast
  note r = this dead_code_reachable [OF it this, unfolded G(1,2), folded h_def]
  have opt: "optimize it str_items f = Inr h" using f(1) g(1) r(2) by (simp add: optimize_def m_def)
  have "node_ids h = filter (\<lambda>i. i \<in> ?R) (node_ids (mark_cacheable g))"
    by (simp add: h_def filter_map comp_def)
  then have ids: "node_ids h = filter (\<lambda>i. i \<in> ?R) (node_ids m)" unfolding G(1) .
  have "edges h = []" if "node_ids h = []"
  proof -
    have none: "x \<notin> ?R" if "x \<in> set (node_ids m)" for x using \<open>node_ids h = []\<close> that unfolding ids filter_empty_conv by blast
    have "from_node e \<in> set (node_ids m)" if "e \<in> set (edges (mark_cacheable g))" for e
      using r(1) that unfolding resolved_def G(1) by blast
    then show ?thesis using none by (auto simp: h_def filter_empty_conv)
  qed
  moreover have "flow_outputs h = flow_outputs f" using out by (simp add: h_def)
  ultimately show ?thesis using opt ids by blast
qed

lemma optimize_wellformed:
  fixes str_items :: "attrs \<Rightarrow> string"
  assumes it: "iteration_order it" and w: "wellformed f" and data: "\<forall>e\<in>set (edges f). to_node e \<notin> data_ids (nodes f)"
  defines "h \<equiv> merged_name (duplicates str_items f)"
  shows "\<exists>g. optimize it str_items f = Inr g \<and> wellformed g \<and>
    node_ids g = filter (\<lambda>i. i \<notin> keys_of (duplicates str_items f)) (node_ids f) \<and> flow_edges g = map_prod h h ` flow_edges f"
proof -
  let ?m = "merge_redundant_nodes str_items f"
  have f: "nodes f \<noteq> []" "distinct (node_ids f)" "resolved f" "acyclic (flow_edges f)" using w by (simp_all add: wellformed_def)
  note M = merged_graph [where str_items = str_items, OF f(2,3)]
  have target: "b \<notin> data_ids (nodes f)" if "(a, b) \<in> flow_edges f" for a b
  proof
    assume "b \<in> data_ids (nodes f)"
    then obtain m where m: "m \<in> set (nodes f)" "mergeable m" "b = node_id m" by (auto simp: data_ids_def)
    have "(\<exists>n\<in>set (nodes f). a \<in> set (dependencies n) \<and> b = node_id n) \<or> (\<exists>e\<in>set (edges f). b = to_node e)"
      using that by (auto simp: flow_edges_def)
    then obtain n where n: "n \<in> set (nodes f)" "a \<in> set (dependencies n)" "b = node_id n"
      using data \<open>b \<in> data_ids (nodes f)\<close> by auto
    then have "n = m" using m f(2) by (auto simp: distinct_map dest: inj_onD)
    then show False using n m by (simp add: mergeable_def)
  qed
  have ac: "acyclic (flow_edges ?m)"
    unfolding M(3) by (rule acyclic_rename [OF f(4) target]) (use rename_merges(2) [OF M(1)] in blast)+
  obtain g where g: "optimize_parallelism it ?m = Inr g" "shape g = shape ?m"
    using optimize_parallelism_shape [OF it M(4)] by blast
  have sh: "shape (mark_cacheable g) = shape ?m" using g(2) mark_cacheable_shape by simp
  note G = shape_graph [OF sh]
  have "remove_dead_code it (mark_cacheable g) = Inr (mark_cacheable g)"
    by (rule dead_code_acyclic [OF it]) (use G M(4) ac in auto)
  then have opt: "optimize it str_items f = Inr (mark_cacheable g)" using f(1) g(1) by (simp add: optimize_def)
  have "node_ids ?m \<noteq> []"
  proof -
    have "node_id (hd (nodes f)) \<in> set (node_ids f)" using f(1) by simp
    from M(5) [OF this] show ?thesis by (metis empty_iff list.set(1))
  qed
  then have "nodes (mark_cacheable g) \<noteq> []" using G(1) by auto
  moreover have "distinct (node_ids ?m)" unfolding M(2) by (rule distinct_filter [OF f(2)])
  ultimately have "wellformed (mark_cacheable g)" using G M(4) ac by (simp add: wellformed_def)
  then show ?thesis using opt G(1,2) M(2,3) by (auto simp: h_def)
qed

text \<open>
  C11: the optimizer keeps a valid flow valid. If no edge leads to a data node without dependencies,
  \<open>optimize\<close> succeeds on every flow that passes \<open>validate\<close>, and its result passes \<open>validate\<close> again. It has
  exactly the nodes that are not duplicates of an earlier data node, in the same order, and its
  dependencies and edges are the old ones with the duplicates renamed to the node that stays: the
  removal of unreachable nodes never removes anything.
\<close>

theorem optimize_keeps_valid:
  assumes "iteration_order it" and "fst (validate it f)"
    and "\<forall>e\<in>set (edges f). to_node e \<notin> data_ids (nodes f)"
  shows "\<exists>g. optimize it str_items f = Inr g \<and> fst (validate it g) \<and>
    node_ids g = filter (\<lambda>i. i \<notin> keys_of (find_duplicates str_items (nodes f) [] [])) (node_ids f) \<and>
    flow_edges g = map_prod (merged_name (find_duplicates str_items (nodes f) [] [])) (merged_name (find_duplicates str_items (nodes f) [] [])) ` flow_edges f"
proof -
  have v: "fst (validate it h) \<longleftrightarrow> wellformed h" for h unfolding wellformed_def by (rule validate_wellformed [OF assms(1)])
  show ?thesis unfolding v by (rule optimize_wellformed [OF assms(1) _ assms(3)]) (use assms(2) v in blast)
qed

text \<open>Two equal data nodes with a consumer each.\<close>

definition two_sources :: flow_definition where
  "two_sources = plain_flow [plain_node ''a'' DATA [], plain_node ''b'' DATA [], plain_node ''c'' PROCESS [''a''],
     plain_node ''d'' PROCESS [''b'', ''c'']] []"

theorem optimize_keeps_valid_witness:
  "\<exists>g. optimize id (\<lambda>_. []) two_sources = Inr g \<and> fst (validate id g) \<and> node_ids g = [''a'', ''c'', ''d'']"
proof -
  have v: "fst (validate id two_sources)" by code_simp
  have e: "\<forall>e\<in>set (edges two_sources). to_node e \<notin> data_ids (nodes two_sources)" by (simp add: two_sources_def plain_flow_def)
  have n: "filter (\<lambda>i. i \<notin> keys_of (find_duplicates (\<lambda>_. []) (nodes two_sources) [] [])) (node_ids two_sources) = [''a'', ''c'', ''d'']"
    by code_simp
  show ?thesis using optimize_keeps_valid [where str_items = "\<lambda>_. []", OF iteration_order_id(1) v e] unfolding n
    by (elim exE conjE) (intro exI conjI)
qed

text \<open>A flow with an edge to a data node.\<close>

definition looped :: flow_definition where
  "looped = plain_flow [plain_node ''a'' DATA [], plain_node ''b'' PROCESS [''a''], plain_node ''c'' DATA []]
     [\<lparr>from_node = ''b'', to_node = ''c'', edge_condition = None\<rparr>]"

end
