(* ===== verification/Flow_Run.thy ===== *)
theory Flow_Run
  imports Flow_Optimize
begin

text \<open>
  Execution of a flow (\<open>Scheduler\<close> of \<open>28-ai-workflow-engine/src/aiworkflow/executor/scheduler.py\<close>).

  What the scheduler is given or leaves to Python is a parameter: the executor of a node (a function of
  the node, its inputs and the number of the attempt), the evaluation of a condition by \<open>eval\<close> and
  the attributes of values that are not dictionaries. The tasks of a level run concurrently, but the
  scheduler writes to the shared results only before they start and after all of them have ended, so
  each task sees the same results; at these points other coroutines may change the table of active
  runs, which is the parameter \<open>env\<close>. The semaphore and the delay between attempts only affect timing.
  The entry \<open>inputs\<close> of the results is a dictionary unless a node of the flow is called \<open>inputs\<close>; then
  the copy by \<open>dict\<close> of a value that is not a dictionary counts as a type error.
\<close>

record runtime =
  execute_node :: "flow_node \<Rightarrow> attrs \<Rightarrow> nat \<Rightarrow> string + pyval"
  eval_condition :: "string \<Rightarrow> attrs \<Rightarrow> bool option"
  attribute :: "pyval \<Rightarrow> string \<Rightarrow> pyval"

section \<open>Inputs of a node\<close>

definition is_space :: "char \<Rightarrow> bool" where
  "is_space c \<longleftrightarrow> of_char c \<in> {9, 10, 11, 12, 13, 28, 29, 30, 31, 32, 133, 160 :: nat}"

definition py_strip :: "string \<Rightarrow> string" where
  "py_strip s = rev (dropWhile is_space (rev (dropWhile is_space s)))"

fun split_at :: "char \<Rightarrow> string \<Rightarrow> string list" where
  "split_at c [] = [[]]"
| "split_at c (x # xs) = (if x = c then [] # split_at c xs else (case split_at c xs of [] \<Rightarrow> [[x]] | p # ps \<Rightarrow> (x # p) # ps))"

definition is_reference :: "string \<Rightarrow> bool" where
  "is_reference s \<longleftrightarrow> take 2 s = ''{{'' \<and> take 2 (rev s) = ''}}''"

primrec get_nested :: "runtime \<Rightarrow> pyval \<Rightarrow> string list \<Rightarrow> pyval" where
  "get_nested rt obj [] = obj"
| "get_nested rt obj (k # ks) =
     get_nested rt (case obj of PDict d \<Rightarrow> dict_get d k PNone | _ \<Rightarrow> attribute rt obj k) ks"

definition resolve_reference :: "runtime \<Rightarrow> string \<Rightarrow> attrs \<Rightarrow> flow_error + pyval" where
  "resolve_reference rt s results = (let parts = split_at CHR ''.'' (py_strip (rev (drop 2 (rev (drop 2 s))))) in
     if hd parts = ''inputs'' then
       (case dict_get results ''inputs'' (PDict []) of
          PDict d \<Rightarrow> (case tl parts of [] \<Rightarrow> Inl Index_error | p # ps \<Rightarrow> Inr (dict_get d p PNone))
        | _ \<Rightarrow> Inl Attribute_error)
     else let r = dict_get results (hd parts) PNone in
       if truthy r \<and> 1 < length parts then Inr (get_nested rt r (tl parts)) else Inr r)"

fun resolve_inputs :: "runtime \<Rightarrow> attrs \<Rightarrow> attrs \<Rightarrow> attrs \<Rightarrow> flow_error + attrs" where
  "resolve_inputs rt [] results acc = Inr acc"
| "resolve_inputs rt ((k, PStr s) # spec) results acc =
     (if is_reference s then
        (case resolve_reference rt s results of
           Inl e \<Rightarrow> Inl e | Inr v \<Rightarrow> resolve_inputs rt spec results (AList.update k v acc))
      else resolve_inputs rt spec results (AList.update k (PStr s) acc))"
| "resolve_inputs rt ((k, v) # spec) results acc = resolve_inputs rt spec results (AList.update k v acc)"

definition merge_dependencies :: "string list \<Rightarrow> attrs \<Rightarrow> attrs \<Rightarrow> attrs" where
  "merge_dependencies deps results inputs =
     foldl (\<lambda>d i. case dict_get results i PNone of PDict e \<Rightarrow> dict_update d e | _ \<Rightarrow> d) inputs deps"

section \<open>One node\<close>

text \<open>\<open>attempts <= max_retries\<close>; the comparison with a value that is no number raises.\<close>

fun retry_limit :: "pyval \<Rightarrow> int option" where
  "retry_limit (PInt k) = Some k"
| "retry_limit (PBool b) = Some (if b then 1 else 0)"
| "retry_limit (PFloat x) = Some \<lfloor>x\<rfloor>"
| "retry_limit _ = None"

function retry_loop :: "(nat \<Rightarrow> string + pyval) \<Rightarrow> int option \<Rightarrow> nat \<Rightarrow> flow_error + pyval \<times> nat" where
  "retry_loop run limit tries = (let n = tries + 1 in
     case run n of
       Inr out \<Rightarrow> Inr (out, n)
     | Inl msg \<Rightarrow> (case limit of
           None \<Rightarrow> Inl Type_error
         | Some k \<Rightarrow> if int n \<le> k then retry_loop run limit n else Inl (Node_error msg)))"
  by pat_completeness auto

termination retry_loop
  by (relation "measure (\<lambda>(run, limit, tries). nat (the limit - int tries))") auto

declare retry_loop.simps [simp del]

definition execute_node_task :: "runtime \<Rightarrow> flow_node \<Rightarrow> attrs \<Rightarrow> flow_error + node_execution \<times> pyval" where
  "execute_node_task rt n results =
     (case dict_get results ''inputs'' (PDict []) of
        PDict d \<Rightarrow>
          (case resolve_inputs rt (node_inputs n) results [] of
             Inl e \<Rightarrow> Inl e
           | Inr acc \<Rightarrow>
               let inputs = dict_update (merge_dependencies (dependencies n) results d) acc;
                   limit = retry_limit (dict_get (case retry_config n of None \<Rightarrow> [] | Some c \<Rightarrow> c) ''max_retries'' (PInt 0))
               in (case retry_loop (execute_node rt n inputs) limit 0 of
                     Inl e \<Rightarrow> Inl e
                   | Inr (out, k) \<Rightarrow> Inr (\<lparr>exec_id = node_id n, exec_status = N_COMPLETED, exec_inputs = inputs,
                       exec_outputs = [(''result'', out)], exec_error = None, attempts = k\<rparr>, out)))
      | _ \<Rightarrow> Inl Type_error)"

definition failed_execution :: "string \<Rightarrow> flow_error \<Rightarrow> node_execution" where
  "failed_execution i e = \<lparr>exec_id = i, exec_status = N_FAILED, exec_inputs = [], exec_outputs = [], exec_error = Some e, attempts = 1\<rparr>"

section \<open>Conditions and outputs\<close>

definition namespace :: "attrs \<Rightarrow> attrs" where
  "namespace results = foldl (\<lambda>d x. case snd x of PDict e \<Rightarrow> dict_update d e | _ \<Rightarrow> d) [] results"

definition evaluate_condition :: "runtime \<Rightarrow> string \<Rightarrow> attrs \<Rightarrow> bool" where
  "evaluate_condition rt c results = (case eval_condition rt c (namespace results) of Some b \<Rightarrow> b | None \<Rightarrow> False)"

primrec last_result :: "flow_node list \<Rightarrow> attrs \<Rightarrow> attrs" where
  "last_result [] results = []"
| "last_result (n # ns) results =
     (case dict_get results (node_id n) PNone of
        PNone \<Rightarrow> last_result ns results
      | PDict d \<Rightarrow> d
      | v \<Rightarrow> [(''result'', v)])"

definition collect_outputs :: "flow_definition \<Rightarrow> attrs \<Rightarrow> attrs" where
  "collect_outputs f results =
     (let outputs = foldl (\<lambda>d x. AList.update (fst x) (case snd x of PStr i \<Rightarrow> dict_get results i PNone | v \<Rightarrow> v) d) [] (flow_outputs f)
      in if outputs = [] \<and> nodes f \<noteq> [] then last_result (rev (nodes f)) results else outputs)"

section \<open>A run\<close>

text \<open>The local variables of \<open>execute_flow\<close>, and the error of the run once there is one.\<close>

record run_state =
  results :: attrs
  completed :: "string list"
  executions :: "node_execution list"
  failure :: "(string option \<times> flow_error) option"

text \<open>The loop that collects the tasks of a level; a node whose condition fails is skipped.\<close>

fun prepare_level :: "runtime \<Rightarrow> flow_definition \<Rightarrow> string list \<Rightarrow> flow_node list \<Rightarrow> run_state \<Rightarrow> flow_error + flow_node list \<times> run_state" where
  "prepare_level rt f [] tasks st = Inr (tasks, st)"
| "prepare_level rt f (i # is) tasks st =
     (case node_map f i of
        None \<Rightarrow> Inl (Key_error i)
      | Some n \<Rightarrow> (case condition n of
            None \<Rightarrow> prepare_level rt f is (tasks @ [n]) st
          | Some c \<Rightarrow>
              if c \<noteq> [] \<and> \<not> evaluate_condition rt c (results st)
              then prepare_level rt f is tasks (st\<lparr>completed := set_add i (completed st), results := AList.update i PNone (results st)\<rparr>)
              else prepare_level rt f is (tasks @ [n]) st))"

fun process_results :: "(string \<times> (flow_error + node_execution \<times> pyval)) list \<Rightarrow> run_state \<Rightarrow> run_state" where
  "process_results [] st = st"
| "process_results ((i, Inl e) # rs) st = st\<lparr>executions := executions st @ [failed_execution i e], failure := Some (Some i, e)\<rparr>"
| "process_results ((i, Inr (rec, out)) # rs) st =
     process_results rs (st\<lparr>executions := executions st @ [rec], results := AList.update i out (results st),
       completed := set_add i (completed st)\<rparr>)"

type_synonym active_runs = "(string \<times> run_status) list"

fun execute_levels :: "runtime \<Rightarrow> flow_definition \<Rightarrow> (nat \<Rightarrow> active_runs \<Rightarrow> active_runs) \<Rightarrow> nat \<Rightarrow> string list list \<Rightarrow>
    run_state \<Rightarrow> active_runs \<Rightarrow> run_state \<times> active_runs" where
  "execute_levels rt f env k [] st act = (st, act)"
| "execute_levels rt f env k (l # ls) st act =
     (case prepare_level rt f l [] st of
        Inl e \<Rightarrow> (st\<lparr>failure := Some (None, e)\<rparr>, act)
      | Inr (tasks, st1) \<Rightarrow>
          let st2 = process_results (map (\<lambda>n. (node_id n, execute_node_task rt n (results st1))) tasks) st1; act1 = env k act in
          if failure st2 \<noteq> None then (st2, act1) else execute_levels rt f env (k + 1) ls st2 act1)"

definition execute_flow :: "(string list \<Rightarrow> string list) \<Rightarrow> runtime \<Rightarrow> (nat \<Rightarrow> active_runs \<Rightarrow> active_runs) \<Rightarrow> string \<Rightarrow>
    flow_definition \<Rightarrow> attrs \<Rightarrow> active_runs \<Rightarrow> (flow_error, flow_run, active_runs) outcome" where
  "execute_flow it rt env rid f inputs act =
     (case dag_builder (Some f) of
        (Inl e, d) \<Rightarrow> (Inl e, act)
      | (Inr _, d) \<Rightarrow>
          let act1 = AList.update rid R_RUNNING act;
              st0 = \<lparr>results = [(''inputs'', PDict inputs)], completed = [], executions = [], failure = None\<rparr>;
              (st, act2) = (case get_execution_levels it d of
                 Inl e \<Rightarrow> (st0\<lparr>failure := Some (None, e)\<rparr>, act1)
               | Inr levels \<Rightarrow> execute_levels rt f env 0 levels st0 act1);
              s = (if failure st = None then R_COMPLETED else R_FAILED)
          in (Inr \<lparr>run_id = rid, flow_id = flow_name f, flow_version = version f, run_status = s, run_inputs = inputs,
                run_outputs = (if failure st = None then collect_outputs f (results st) else []),
                node_executions = executions st, run_error = failure st\<rparr>,
              AList.update rid s act2))"

section \<open>The table of active runs\<close>

definition cancel :: "string \<Rightarrow> active_runs \<Rightarrow> bool \<times> active_runs" where
  "cancel rid act = (if rid \<in> keys_of act then (True, AList.update rid R_CANCELLED act) else (False, act))"

definition get_status :: "string \<Rightarrow> active_runs \<Rightarrow> run_status" where
  "get_status rid act = dict_get act rid R_PENDING"

definition list_active :: "active_runs \<Rightarrow> string list" where
  "list_active act = map fst (filter (\<lambda>x. snd x = R_RUNNING) act)"

definition pause :: "string \<Rightarrow> active_runs \<Rightarrow> bool \<times> active_runs" where
  "pause rid act = (if rid \<in> keys_of act then (True, AList.update rid R_PENDING act) else (False, act))"

definition resume :: "string \<Rightarrow> active_runs \<Rightarrow> bool \<times> active_runs" where
  "resume rid act = (if rid \<in> keys_of act then (True, AList.update rid R_RUNNING act) else (False, act))"

section \<open>The order of execution\<close>

definition conditional :: "flow_definition \<Rightarrow> string \<Rightarrow> bool" where
  "conditional f i \<longleftrightarrow> (case node_map f i of None \<Rightarrow> False | Some n \<Rightarrow> condition n \<noteq> None)"

abbreviation exec_ids :: "run_state \<Rightarrow> string list" where
  "exec_ids st \<equiv> map exec_id (executions st)"

lemma prepare_level_tasks:
  assumes "set is \<subseteq> set (node_ids f)" and "distinct is"
  shows "\<exists>ts st'. prepare_level rt f is tasks st = Inr (tasks @ ts, st') \<and> executions st' = executions st \<and> failure st' = failure st \<and>
    distinct (map node_id ts) \<and> set (map node_id ts) \<subseteq> set is \<and> (\<forall>i\<in>set is. i \<notin> set (map node_id ts) \<longrightarrow> conditional f i)"
  using assms
proof (induction "is" arbitrary: tasks st)
  case Nil
  then show ?case by simp
next
  case (Cons i "is")
  obtain n where n: "node_map f i = Some n" using Cons.prems(1) node_map_None [of f i] by (cases "node_map f i") auto
  have ni: "node_id n = i" using node_map_Some [OF n] by simp
  have sub: "set is \<subseteq> set (node_ids f)" "distinct is" "i \<notin> set is" using Cons.prems by simp_all
  let ?st = "st\<lparr>completed := set_add i (completed st), results := AList.update i PNone (results st)\<rparr>"
  show ?case
  proof (cases "\<exists>c. condition n = Some c \<and> c \<noteq> [] \<and> \<not> evaluate_condition rt c (results st)")
    case True
    then have "conditional f i" "prepare_level rt f (i # is) tasks st = prepare_level rt f is tasks ?st"
      using n by (auto simp: conditional_def)
    moreover obtain ts st' where "prepare_level rt f is tasks ?st = Inr (tasks @ ts, st')" "executions st' = executions ?st"
      "failure st' = failure ?st" "distinct (map node_id ts)" "set (map node_id ts) \<subseteq> set is"
      "\<forall>i\<in>set is. i \<notin> set (map node_id ts) \<longrightarrow> conditional f i" using Cons.IH [OF sub(1,2)] by blast
    ultimately show ?thesis by (intro exI [of _ ts] exI [of _ st']) auto
  next
    case False
    then have "prepare_level rt f (i # is) tasks st = prepare_level rt f is (tasks @ [n]) st"
      using n by (cases "condition n") auto
    moreover obtain ts st' where "prepare_level rt f is (tasks @ [n]) st = Inr ((tasks @ [n]) @ ts, st')" "executions st' = executions st"
      "failure st' = failure st" "distinct (map node_id ts)" "set (map node_id ts) \<subseteq> set is"
      "\<forall>i\<in>set is. i \<notin> set (map node_id ts) \<longrightarrow> conditional f i" using Cons.IH [OF sub(1,2)] by blast
    ultimately show ?thesis using ni sub(3) by (intro exI [of _ "n # ts"] exI [of _ st']) auto
  qed
qed

lemma execute_node_task_record: "execute_node_task rt n res = Inr (r, out) \<Longrightarrow> exec_id r = node_id n \<and> exec_status r = N_COMPLETED"
  by (auto simp: execute_node_task_def Let_def split: pyval.splits sum.splits)

text \<open>The results of a level either all enter, or up to and including the first failure.\<close>

definition entered :: "string list \<Rightarrow> node_execution list \<Rightarrow> bool \<Rightarrow> bool" where
  "entered is es ok \<longleftrightarrow>
     (if ok then map exec_id es = is \<and> (\<forall>e\<in>set es. exec_status e = N_COMPLETED)
      else es \<noteq> [] \<and> (\<exists>m. map exec_id es = take m is) \<and> (\<forall>e\<in>set (butlast es). exec_status e = N_COMPLETED) \<and>
        exec_status (last es) = N_FAILED)"

lemma entered_Cons:
  assumes "entered is es ok" and "exec_id r = i" and "exec_status r = N_COMPLETED"
  shows "entered (i # is) (r # es) ok"
proof (cases ok)
  case False
  then obtain m where "map exec_id es = take m is" using assms(1) by (auto simp: entered_def)
  then have "map exec_id (r # es) = take (Suc m) (i # is)" using assms(2) by simp
  then have "\<exists>m. map exec_id (r # es) = take m (i # is)" by blast
  moreover have "es \<noteq> []" "\<forall>e\<in>set (butlast es). exec_status e = N_COMPLETED" "exec_status (last es) = N_FAILED"
    using assms(1) False by (simp_all add: entered_def)
  ultimately show ?thesis unfolding entered_def if_not_P [OF False] using assms(3) by (intro conjI) simp_all
qed (use assms in \<open>auto simp: entered_def\<close>)

lemma process_results_records:
  assumes "\<And>i r out. (i, Inr (r, out)) \<in> set rs \<Longrightarrow> exec_id r = i \<and> exec_status r = N_COMPLETED" and "failure st = None"
  shows "\<exists>es. executions (process_results rs st) = executions st @ es \<and>
    entered (map fst rs) es (failure (process_results rs st) = None)"
  using assms
proof (induction rs st rule: process_results.induct)
  case (1 st)
  then show ?case by (simp add: entered_def)
next
  case (2 i e rs st)
  have "[i] = take 1 (i # map fst rs)" by simp
  then have "\<exists>m. [i] = take m (i # map fst rs)" by blast
  then have "entered (map fst ((i, Inl e) # rs)) [failed_execution i e] False"
    unfolding entered_def by (auto simp: failed_execution_def)
  then show ?case by simp
next
  case (3 i r out rs st)
  let ?st = "st\<lparr>executions := executions st @ [r], results := AList.update i out (results st), completed := set_add i (completed st)\<rparr>"
  have r: "exec_id r = i" "exec_status r = N_COMPLETED" using 3(2) [of i r out] by simp_all
  have rs: "exec_id q = j \<and> exec_status q = N_COMPLETED" if "(j, Inr (q, u)) \<in> set rs" for j q u
    using 3(2) [of j q u] that by simp
  have nf: "failure ?st = None" using 3(3) by simp
  have "\<exists>es. executions (process_results rs ?st) = executions ?st @ es \<and>
      entered (map fst rs) es (failure (process_results rs ?st) = None)" by (rule 3(1) [OF _ nf]) (rule rs)
  then obtain es where es: "executions (process_results rs ?st) = executions ?st @ es"
    "entered (map fst rs) es (failure (process_results rs ?st) = None)" by (elim exE conjE) rule
  then show ?case using entered_Cons [OF es(2) r] by (intro exI [of _ "r # es"]) simp
qed

text \<open>
  What holds before a level: the nodes of \<open>D\<close> are done. Every one of them without a condition was
  executed, nothing else was, and the executions followed the order of the graph.
\<close>

definition run_inv :: "flow_definition \<Rightarrow> string set \<Rightarrow> node_execution list \<Rightarrow> bool" where
  "run_inv f D es \<longleftrightarrow> distinct (map exec_id es) \<and> set (map exec_id es) \<subseteq> D \<and> (\<forall>e\<in>set es. exec_status e = N_COMPLETED) \<and>
     (\<forall>i\<in>D. \<not> conditional f i \<longrightarrow> i \<in> set (map exec_id es)) \<and>
     ordered {(y, x) \<in> flow_edges f. \<not> conditional f y} {} (map exec_id es)"

definition run_failed :: "flow_definition \<Rightarrow> node_execution list \<Rightarrow> bool" where
  "run_failed f es \<longleftrightarrow> es \<noteq> [] \<and> distinct (map exec_id es) \<and> (\<forall>e\<in>set (butlast es). exec_status e = N_COMPLETED) \<and>
     exec_status (last es) = N_FAILED \<and> ordered {(y, x) \<in> flow_edges f. \<not> conditional f y} {} (map exec_id es)"

lemma ordered_take: "ordered E D xs \<Longrightarrow> ordered E D (take m xs)"
  by (metis append_take_drop_id ordered_append)

lemma run_inv_level:
  assumes inv: "run_inv f D es" and l: "distinct l" "set l \<inter> D = {}" "\<forall>x\<in>set l. \<forall>y. (y, x) \<in> flow_edges f \<longrightarrow> y \<in> D"
    and t: "distinct ts" "set ts \<subseteq> set l" "\<forall>i\<in>set l. i \<notin> set ts \<longrightarrow> conditional f i" and en: "entered ts es' ok"
  shows "if ok then run_inv f (D \<union> set l) (es @ es') else run_failed f (es @ es')"
proof -
  let ?E = "{(y, x) \<in> flow_edges f. \<not> conditional f y}"
  have "\<forall>x\<in>set ts. \<forall>y. (y, x) \<in> ?E \<longrightarrow> y \<in> set (map exec_id es)" using l(3) t(2) inv unfolding run_inv_def by blast
  then have "ordered ?E (set (map exec_id es)) ts" by (rule ordered_level)
  then have ord: "ordered ?E {} (map exec_id es @ take m ts)" for m
    using inv ordered_take by (simp add: ordered_append run_inv_def)
  have dis: "distinct (map exec_id es @ take m ts)" for m
  proof -
    have "set (take m ts) \<inter> set (map exec_id es) = {}" using inv l(2) t(2) set_take_subset [of m ts] unfolding run_inv_def by blast
    then show ?thesis using inv t(1) by (auto simp: run_inv_def)
  qed
  show ?thesis
  proof (cases ok)
    case True
    then have e: "map exec_id es' = ts" "\<forall>e\<in>set es'. exec_status e = N_COMPLETED" using en by (simp_all add: entered_def)
    have "run_inv f (D \<union> set l) (es @ es')"
      using ord [of "length ts"] dis [of "length ts"] inv t(2,3) e unfolding run_inv_def by auto
    then show ?thesis using True by simp
  next
    case False
    then obtain m where e: "es' \<noteq> []" "map exec_id es' = take m ts" "\<forall>e\<in>set (butlast es'). exec_status e = N_COMPLETED"
      "exec_status (last es') = N_FAILED" using en by (auto simp: entered_def)
    have "run_failed f (es @ es')"
      using ord [of m] dis [of m] inv e unfolding run_failed_def run_inv_def by (auto simp: butlast_append)
    then show ?thesis using False by simp
  qed
qed

lemma execute_levels_inv:
  assumes "layers (set (node_ids f)) (flow_edges f) D L" and "D \<subseteq> set (node_ids f)" and "run_inv f D (executions st)" and "failure st = None"
  shows "if failure (fst (execute_levels rt f env k L st act)) = None
    then run_inv f (D \<union> set (concat L)) (executions (fst (execute_levels rt f env k L st act)))
    else run_failed f (executions (fst (execute_levels rt f env k L st act)))"
  using assms
proof (induction L arbitrary: D k st act)
  case (Cons l L)
  let ?N = "set (node_ids f)"
  have l: "distinct l" "set l = {x \<in> ?N - D. open_preds (flow_edges f) D x = {}}" and L: "layers ?N (flow_edges f) (D \<union> set l) L"
    using Cons.prems(1) unfolding layers.simps by blast+
  have sub: "set l \<subseteq> ?N" "set l \<inter> D = {}" "\<forall>x\<in>set l. \<forall>y. (y, x) \<in> flow_edges f \<longrightarrow> y \<in> D"
    unfolding l(2) open_preds_def by blast+
  obtain ts st1 where p: "prepare_level rt f l [] st = Inr (ts, st1)" "executions st1 = executions st" "failure st1 = None"
    "distinct (map node_id ts)" "set (map node_id ts) \<subseteq> set l" "\<forall>i\<in>set l. i \<notin> set (map node_id ts) \<longrightarrow> conditional f i"
    using prepare_level_tasks [OF sub(1) l(1), of rt "[]" st] Cons.prems(4) by auto
  define rs where "rs = map (\<lambda>n. (node_id n, execute_node_task rt n (results st1))) ts"
  let ?st2 = "process_results rs st1"
  have "exec_id r = i \<and> exec_status r = N_COMPLETED" if io: "(i, Inr (r, out)) \<in> set rs" for i r out
  proof -
    obtain n where "i = node_id n" "execute_node_task rt n (results st1) = Inr (r, out)" using io by (auto simp: rs_def)
    then show ?thesis using execute_node_task_record by simp
  qed
  then obtain es where es: "executions ?st2 = executions st @ es" "entered (map fst rs) es (failure ?st2 = None)"
    using process_results_records [of rs st1] p(2,3) by auto
  have "map fst rs = map node_id ts" by (simp add: rs_def comp_def)
  then have inv: "if failure ?st2 = None then run_inv f (D \<union> set l) (executions ?st2) else run_failed f (executions ?st2)"
    using run_inv_level [OF Cons.prems(3) l(1) sub(2,3) p(4-6), of es "failure ?st2 = None"] es by simp
  have run: "execute_levels rt f env k (l # L) st act =
      (if failure ?st2 \<noteq> None then (?st2, env k act) else execute_levels rt f env (k + 1) L ?st2 (env k act))"
    by (simp add: p(1) rs_def Let_def)
  show ?case
  proof (cases "failure ?st2 = None")
    case True
    have r: "execute_levels rt f env k (l # L) st act = execute_levels rt f env (k + 1) L ?st2 (env k act)"
      using run True by simp
    have c: "D \<union> set (concat (l # L)) = (D \<union> set l) \<union> set (concat L)" by auto
    have "D \<union> set l \<subseteq> ?N" using Cons.prems(2) sub(1) by blast
    then show ?thesis unfolding r c by (rule Cons.IH [OF L _ _ True]) (use inv True in simp)
  next
    case False
    then have r: "execute_levels rt f env k (l # L) st act = (?st2, env k act)" using run by simp
    show ?thesis using inv unfolding r fst_conv if_not_P [OF False] .
  qed
qed simp

lemma execute_levels_env: "fst (execute_levels rt f env k L st act) = fst (execute_levels rt f env' k' L st act')"
  by (induction L arbitrary: k k' st act act') (auto simp: Let_def split: sum.splits prod.splits)

text \<open>
  C4: a validated flow is executed in order. Whatever the nodes, the conditions and the rest of the event
  loop do, \<open>execute_flow\<close> returns a run. No node is executed twice, and a node is recorded only after
  every unconditional node it depends on, by a dependency or an edge, has completed. Either the run has
  completed, all its records are completions, and every node without a condition was executed; or it
  has failed, and exactly its last record is a failure.
\<close>

theorem execute_flow_order:
  assumes it: "iteration_order it" and v: "fst (validate it f)"
  shows "\<exists>run act'. execute_flow it rt env rid f inputs act = (Inr run, act') \<and>
    distinct (map exec_id (node_executions run)) \<and>
    (\<forall>i y. i < length (node_executions run) \<and> (y, exec_id (node_executions run ! i)) \<in> flow_edges f \<and> \<not> conditional f y \<longrightarrow>
       y \<in> set (map exec_id (take i (node_executions run)))) \<and>
    (run_status run = R_COMPLETED \<and> (\<forall>e\<in>set (node_executions run). exec_status e = N_COMPLETED) \<and>
       (\<forall>i\<in>set (node_ids f). \<not> conditional f i \<longrightarrow> i \<in> set (map exec_id (node_executions run))) \<or>
     run_status run = R_FAILED \<and> node_executions run \<noteq> [] \<and> exec_status (last (node_executions run)) = N_FAILED \<and>
       (\<forall>e\<in>set (butlast (node_executions run)). exec_status e = N_COMPLETED))"
proof -
  let ?N = "set (node_ids f)" and ?E = "flow_edges f" and ?E' = "{(y, x) \<in> flow_edges f. \<not> conditional f y}"
  let ?st0 = "\<lparr>results = [(''inputs'', PDict inputs)], completed = [], executions = [], failure = None\<rparr>"
  have w: "resolved f" "acyclic ?E" using v validate_wellformed [OF it, of f] by blast+
  obtain d where d: "dag_builder (Some f) = (Inr (), d)" using dag_builder_resolved [OF w(1)] by blast
  have dag: "dag_of d ?N ?E" "flow d = Some f" using dag_builder_dag [OF d] by blast+
  note D = dag_ofD [OF dag(1)]
  obtain L where L: "get_execution_levels it d = Inr L" "layers ?N ?E {} L" using levels_layers [OF it dag] by blast
  note C = layers_concat [OF L(2) empty_subsetI, unfolded Un_empty_left Diff_empty]
  have all: "set (concat L) = ?N" using complete_iff_acyclic [OF D(6,5), of "concat L"] C w(2) by blast
  obtain st act2 where x: "execute_levels rt f env 0 L ?st0 (AList.update rid R_RUNNING act) = (st, act2)" by (metis prod.collapse)
  have start: "run_inv f {} (executions ?st0)" "failure ?st0 = None" by (simp_all add: run_inv_def)
  have inv: "if failure st = None then run_inv f ?N (executions st) else run_failed f (executions st)"
    using execute_levels_inv [OF L(2) empty_subsetI start, of rt env 0 "AList.update rid R_RUNNING act"]
    unfolding x fst_conv all Un_empty_left .
  then have ord: "ordered ?E' {} (map exec_id (executions st))" "distinct (map exec_id (executions st))"
    by (auto simp: run_inv_def run_failed_def split: if_splits)
  have "y \<in> set (map exec_id (take i (executions st)))"
    if "i < length (executions st) \<and> (y, exec_id (executions st ! i)) \<in> ?E \<and> \<not> conditional f y" for i y
    using ordered_nth [OF ord(1), of i y] that by (simp add: take_map)
  moreover have "execute_flow it rt env rid f inputs act = (Inr \<lparr>run_id = rid, flow_id = flow_name f, flow_version = version f,
      run_status = (if failure st = None then R_COMPLETED else R_FAILED), run_inputs = inputs,
      run_outputs = (if failure st = None then collect_outputs f (results st) else []), node_executions = executions st,
      run_error = failure st\<rparr>, AList.update rid (if failure st = None then R_COMPLETED else R_FAILED) act2)"
    using d L(1) x by (simp add: execute_flow_def Let_def)
  ultimately show ?thesis
    using ord(2) inv by (cases "failure st = None") (auto simp: run_inv_def run_failed_def)
qed

text \<open>A runtime for the examples: every node returns an empty dictionary, every condition fails.\<close>

definition example_runtime :: runtime where
  "example_runtime = \<lparr>execute_node = (\<lambda>_ _ _. Inr (PDict [])), eval_condition = (\<lambda>_ _. None), attribute = (\<lambda>_ _. PNone)\<rparr>"

theorem execute_flow_order_witness:
  "\<exists>run act'. execute_flow id example_runtime (\<lambda>_ a. a) ''r'' chain [] [] = (Inr run, act') \<and> distinct (map exec_id (node_executions run))"
proof -
  have v: "fst (validate id chain)" by code_simp
  show ?thesis
    using execute_flow_order [OF iteration_order_id(1) v, of example_runtime "\<lambda>_ a. a" "''r''" "[]" "[]"]
    by (elim exE conjE) (intro exI conjI)
qed

text \<open>
  C39: cancelling has no effect. Whatever other coroutines do to the table of active runs while a flow is
  executed, by \<open>cancel\<close>, \<open>pause\<close> or \<open>resume\<close> or otherwise, the run is the same as without them, and in the
  end its entry in the table is the status of the run, completed or failed, and never cancelled.
\<close>

theorem execution_ignores_cancel:
  "result_of (execute_flow it rt env rid f inputs act) = result_of (execute_flow it rt (\<lambda>_ a. a) rid f inputs act) \<and>
   (\<forall>run. result_of (execute_flow it rt env rid f inputs act) = Inr run \<longrightarrow>
      get_status rid (state_of (execute_flow it rt env rid f inputs act)) = run_status run \<and>
      run_status run \<in> {R_COMPLETED, R_FAILED})"
proof -
  obtain o' d where d: "dag_builder (Some f) = (o', d)" by (cases "dag_builder (Some f)")
  show ?thesis
  proof (cases o')
    case (Inr u)
    show ?thesis
    proof (cases "get_execution_levels it d")
      case (Inr L)
      let ?st0 = "\<lparr>results = [(''inputs'', PDict inputs)], completed = [], executions = [], failure = None\<rparr>"
      obtain st act2 where x: "execute_levels rt f env 0 L ?st0 (AList.update rid R_RUNNING act) = (st, act2)" by (metis prod.collapse)
      obtain st' act2' where x': "execute_levels rt f (\<lambda>_ a. a) 0 L ?st0 (AList.update rid R_RUNNING act) = (st', act2')" by (metis prod.collapse)
      have "st = st'" using execute_levels_env [of rt f env 0 L ?st0 _ "\<lambda>_ a. a" 0] x x' by (metis fst_conv)
      then show ?thesis using d \<open>o' = Inr u\<close> Inr x x'
        by (auto simp: execute_flow_def Let_def get_status_def dict_get_def)
    qed (use d Inr in \<open>auto simp: execute_flow_def Let_def get_status_def dict_get_def\<close>)
  qed (use d in \<open>simp add: execute_flow_def\<close>)
qed

theorem execution_ignores_cancel_witness:
  "get_status ''r'' (state_of (execute_flow id example_runtime (\<lambda>_ a. snd (cancel ''r'' a)) ''r'' chain [] [])) = R_COMPLETED"
proof -
  have "map_sum id run_status (result_of (execute_flow id example_runtime (\<lambda>_ a. a) ''r'' chain [] [])) = Inr R_COMPLETED" by code_simp
  then obtain run where run: "result_of (execute_flow id example_runtime (\<lambda>_ a. a) ''r'' chain [] []) = Inr run" "run_status run = R_COMPLETED"
    by (cases "result_of (execute_flow id example_runtime (\<lambda>_ a. a) ''r'' chain [] [])") auto
  then show ?thesis
    using execution_ignores_cancel [of id example_runtime "\<lambda>_ a. snd (cancel ''r'' a)" "''r''" chain "[]" "[]"] by simp
qed

lemma execute_empty_flow:
  assumes it: "iteration_order it" and f: "nodes f = []" "edges f = []"
  shows "\<exists>run act'. execute_flow it rt env rid f inputs act = (Inr run, act') \<and>
    run_status run = R_COMPLETED \<and> node_executions run = []"
proof -
  have "resolved f" using f by (simp add: resolved_def)
  then obtain d where d: "dag_builder (Some f) = (Inr (), d)" using dag_builder_resolved by blast
  have dag: "dag_of d (set (node_ids f)) (flow_edges f)" "flow d = Some f" using dag_builder_dag [OF d] by blast+
  obtain L where L: "get_execution_levels it d = Inr L" "layers (set (node_ids f)) (flow_edges f) {} L"
    using levels_layers [OF it dag] by blast
  have "L = []" using L(2) f(1) by (cases L) auto
  then show ?thesis using d L(1) by (simp add: execute_flow_def Let_def)
qed

text \<open>
  C38: what the optimizer keeps of a valid flow when edges may lead to data nodes. It succeeds, and it
  keeps exactly the nodes that are no duplicates and that are reachable, in the graph with the
  duplicates renamed, from a node without a predecessor; the outputs of the flow are left as they are,
  so that an output naming a duplicate names no node any more. Merging a data node that is the target
  of an edge can leave no node without a predecessor: then nothing is kept, and executing the result
  is reported as completed although nothing was executed.
\<close>

theorem optimize_drops_unreachable:
  fixes str_items :: "attrs \<Rightarrow> string"
  assumes "iteration_order it" and "fst (validate it f)"
  defines "dups \<equiv> find_duplicates str_items (nodes f) [] []"
  defines "E \<equiv> map_prod (merged_name dups) (merged_name dups) ` flow_edges f"
    and "N \<equiv> set (node_ids f) - keys_of dups"
  shows "\<exists>g. optimize it str_items f = Inr g \<and>
    node_ids g = filter (\<lambda>i. i \<in> N \<and> (\<exists>x\<in>N. (\<forall>y. (y, x) \<notin> E) \<and> (x, i) \<in> E\<^sup>*)) (node_ids f) \<and>
    flow_outputs g = flow_outputs f \<and>
    ((\<forall>x\<in>N. \<exists>y. (y, x) \<in> E) \<longrightarrow> nodes g = [] \<and>
       (\<forall>rt env rid inputs act. \<exists>run act'. execute_flow it rt env rid g inputs act = (Inr run, act') \<and>
          run_status run = R_COMPLETED \<and> node_executions run = []))"
proof -
  have f: "nodes f \<noteq> []" "distinct (node_ids f)" "resolved f"
    using assms(2) validate_wellformed [OF assms(1), of f] by blast+
  note M = merged_graph [where str_items = str_items, OF f(2,3), folded dups_def]
  have N: "set (node_ids (merge_redundant_nodes str_items f)) = N" unfolding M(2) N_def by auto
  have E: "flow_edges (merge_redundant_nodes str_items f) = E" unfolding M(3) E_def ..
  obtain g where g: "optimize it str_items f = Inr g"
    "node_ids g = filter (\<lambda>i. i \<in> from_entries N E) (node_ids (merge_redundant_nodes str_items f))"
    "flow_outputs g = flow_outputs f" "node_ids g = [] \<longrightarrow> edges g = []"
    using optimize_reachable [OF assms(1) f, of str_items] unfolding N E by blast
  have ids: "node_ids g = filter (\<lambda>i. i \<in> N \<and> (\<exists>x\<in>N. (\<forall>y. (y, x) \<notin> E) \<and> (x, i) \<in> E\<^sup>*)) (node_ids f)"
    unfolding g(2) M(2) filter_filter N_def
    by (rule filter_cong) (auto simp: from_entries_def entry_nodes_def)
  have "nodes g = [] \<and> edges g = []" if none: "\<forall>x\<in>N. \<exists>y. (y, x) \<in> E"
  proof -
    have "node_ids g = []" unfolding ids using none by (auto simp: filter_empty_conv)
    then show ?thesis using g(4) by simp
  qed
  then show ?thesis using g(1,3) ids execute_empty_flow [OF assms(1), of g] by blast
qed

theorem optimize_drops_unreachable_witness:
  "\<exists>g run act'. fst (validate id looped) \<and> optimize id (\<lambda>_. []) looped = Inr g \<and> nodes g = [] \<and>
     execute_flow id example_runtime (\<lambda>_ a. a) ''r'' g [] [] = (Inr run, act') \<and> run_status run = R_COMPLETED"
proof -
  let ?dups = "find_duplicates (\<lambda>_. []) (nodes looped) [] []"
  let ?E = "map_prod (merged_name ?dups) (merged_name ?dups) ` flow_edges looped"
  have v: "fst (validate id looped)" by code_simp
  have d: "?dups = [(''c'', ''a'')]" by code_simp
  have e: "flow_edges looped = {(''a'', ''b''), (''b'', ''c'')}" by code_simp
  have n: "set (node_ids looped) - keys_of ?dups = {''a'', ''b''}"
    unfolding d by (auto simp: looped_def plain_flow_def plain_node_def)
  have E: "?E = {(''a'', ''b''), (''b'', ''a'')}" unfolding d e by (simp add: merged_name_def dict_get_def)
  have all: "\<forall>x\<in>set (node_ids looped) - keys_of ?dups. \<exists>y. (y, x) \<in> ?E"
    unfolding n E by (intro ballI) (elim insertE emptyE; simp)
  obtain g where g: "optimize id (\<lambda>_. []) looped = Inr g"
    "(\<forall>x\<in>set (node_ids looped) - keys_of ?dups. \<exists>y. (y, x) \<in> ?E) \<longrightarrow> nodes g = [] \<and>
     (\<forall>rt env rid inputs act. \<exists>run act'. execute_flow id rt env rid g inputs act = (Inr run, act') \<and>
       run_status run = R_COMPLETED \<and> node_executions run = [])"
    using optimize_drops_unreachable [where str_items = "\<lambda>_. []", OF iteration_order_id(1) v]
    by (elim exE conjE) rule
  note r = mp [OF g(2) all]
  obtain run act' where "execute_flow id example_runtime (\<lambda>_ a. a) ''r'' g [] [] = (Inr run, act')" "run_status run = R_COMPLETED"
    using r by blast
  then show ?thesis using v g(1) r by blast
qed

end
