(* ===== verification/Spec2Isabelle.thy ===== *)
theory Spec2Isabelle
  imports Buddy Slab Pool Hdfs_Limits Hdfs_Replication Hdfs_Checkpoint KV_Refine KV_Window Batch_Props Sched_Finish Flow_Run
begin

text \<open>
  Verification of four projects of the applied-cs-projects portfolio. The projects do not call each
  other; each is modelled from its Python sources under \<open>src/\<close>, and the theories of a project import
  only each other and \<open>Prelude\<close>.

  \<^bold>\<open>Conventions.\<close> \<open>Prelude\<close> holds what the projects share: exceptions as values, results that carry the
  state reached when an exception is raised (\<open>outcome\<close>, \<open>and_then\<close>, \<open>for_each\<close>), and Python's lists,
  dictionaries (association lists in insertion order, or maps) and sets (lists without repetition).
  Python's integers are \<open>int\<close>, references to shared objects are keys of an explicit store, clocks and
  random choices are parameters. Every definition that models code is executable; examples are evaluated by rewriting.

  \<^bold>\<open>GPU memory manager\<close> \<open>39-gpu-memory-manager\<close>.
  \<^item> \<open>Memory_Types\<close>: devices, configuration, statistics and blocks of \<open>core/memory.py\<close>. The locale
    \<open>block_allocator\<close>, extended by \<open>sized_allocator\<close>, is the contract of an allocator: what \<open>allocate\<close>
    and \<open>free\<close> keep of the invariant and of the blocks in use. Its lemmas show for any sequence of
    calls of a client that the blocks it holds are exactly the live ones and disjoint.
  \<^item> \<open>Buddy\<close>, \<open>Slab\<close>, \<open>Pool\<close>: the classes of the same names of \<open>allocator/allocator.py\<close>, each an
    interpretation of the contract, with what is special to it after any sequence of calls: order and
    alignment of buddies, complete coalescing, the byte counts of the statistics, exactness of the
    out-of-memory report, slabs that never run out, reuse of the last released block, and the requests
    for which the code misbehaves. The buddy theorems are for arenas of a power of two of at least 512
    bytes and at most 1 GiB, the slab theorems for objects of at most 32 KiB.

  \<^bold>\<open>Distributed file system\<close> \<open>34-distributed-file-system\<close>.
  \<^item> \<open>Hdfs_Types\<close>, \<open>Hdfs_Paths\<close>: records of \<open>common/types.py\<close>, messages of \<open>common/protocol.py\<close>, paths.
  \<^item> \<open>Hdfs_Namespace\<close>, \<open>Hdfs_Blocks\<close>, \<open>Hdfs_Server\<close>: the methods of \<open>NameNode\<close> and the dispatch of
    \<open>NameNodeServer\<close> in \<open>namenode/namenode.py\<close>. The loop of the quota check walks up the parents and need
    not end; it is a partial function in the option type, where \<open>None\<close> is divergence. Recursive
    deletion takes a depth, and \<open>Hdfs_Delete\<close> shows that the depth it is called with always suffices.
    The server is a sequence of events: frames on its connections, a malformed one of which closes
    its connection, and rounds of the monitor.
  \<^item> \<open>Hdfs_Image\<close>: saving and loading of checkpoints, with the entries that lack a key.
  \<^item> \<open>Hdfs_Tree\<close>, \<open>Hdfs_Delete\<close>, \<open>Hdfs_Rename\<close>, \<open>Hdfs_Session\<close>, \<open>Hdfs_Reach\<close>: the invariants, that every
    method keeps them, and the states that callers reach as an inductive predicate \<open>reach\<close>. Its
    premises are obligations of the callers that the code does not check: normalised paths, no file
    and directory in the same place, renaming only into an existing directory outside the source,
    fresh block ids, checkpoints of such name nodes. In these states the name space is a tree and
    listings agree with lookups; deletion removes exactly a subtree, a rename moves exactly a subtree
    and is undone by the rename back. The answers of the server need none of this of its messages.
  \<^item> \<open>Hdfs_Limits\<close>, \<open>Hdfs_Replication\<close>, \<open>Hdfs_Checkpoint\<close>: quotas, the replies of the server, what a
    replication scan schedules and what a silent target blocks, placement of blocks, and recovery
    from a checkpoint.

  \<^bold>\<open>Inference engine\<close> \<open>44-autoregressive-inference\<close>.
  \<^item> \<open>Heapq\<close>: the functions of Python's \<open>heapq\<close> on lists; the locale \<open>lt_order\<close> is what they need of the
    comparison, and \<open>Requests\<close> interprets it for the ordering of requests.
  \<^item> \<open>KV_Cache\<close>, \<open>KV_Paged\<close>, \<open>KV_Append\<close>, \<open>KV_Refine\<close>, \<open>KV_Window\<close>: \<open>kv_cache.py\<close>. The paged cache implements a
    map from requests to sequences of tokens and never shares or leaks a block; the sliding window
    holds the last tokens. A slice of a tensor is an abstract value; the zero slice and the
    conversion on assignment are parameters.
  \<^item> \<open>Requests\<close>, \<open>Request_Life\<close>: \<open>requests.py\<close>, and the life of a request as an inductive relation.
  \<^item> \<open>Batching\<close>, \<open>Batch_Props\<close>: \<open>batching.py\<close>; batches fit and follow the priorities, shortest job first is
    optimal, and the rows of a batch agree in shape.
  \<^item> \<open>Scheduler\<close>, \<open>Sched_Step\<close>, \<open>Sched_Batch\<close>, \<open>Sched_Starve\<close>, \<open>Sched_Finish\<close>: \<open>scheduler.py\<close>. The main loop is a
    partial function in the option type. The locale \<open>decode_step\<close> is the contract of the three ways of
    decoding a request, each of which interprets it. Without a KV cache, the loop returns with all
    requests completed when they fit into one batch, and a request that does not fit starves and the
    loop does not return; with a KV cache, requests may be preempted, and neither is claimed. The
    transformer model with its sampler and the speculative decoder are parameters.

  \<^bold>\<open>Workflow engine\<close> \<open>28-ai-workflow-engine\<close>.
  \<^item> \<open>Flow_Types\<close>: values, nodes and flows of \<open>schemas.py\<close>, without time stamps.
  \<^item> \<open>Flow_Graph\<close>: \<open>DAGBuilder\<close> of \<open>compiler/dag.py\<close> and \<open>FlowValidator\<close> of \<open>compiler/parser.py\<close>, for every
    iteration order of Python's sets. \<open>Flow_Cycle\<close>: the depth-first search decides whether there is a
    cycle, so validation accepts exactly the well-formed flows. \<open>Flow_Order\<close>: the topological order, the
    levels and the ancestors are right, and their loops end.
  \<^item> \<open>Flow_Optimize\<close>: \<open>FlowOptimizer\<close> of \<open>compiler/dag.py\<close>; it keeps a valid flow valid and its graph up to
    the merged nodes, if no edge leads to a mergeable node; in general it keeps what is reachable
    from the entry nodes of the merged graph.
  \<^item> \<open>Flow_Run\<close>: \<open>Scheduler\<close> of \<open>executor/scheduler.py\<close>; a validated flow is executed in the order of its
    graph whatever its nodes do, and a run cannot be cancelled. The node executor, the evaluation of
    conditions and the other coroutines of the event loop are parameters.

  \<^bold>\<open>Bounds.\<close> Loops that always end are total functions with a measure: the sum over the unseen nodes for
  graph searches, the remaining nodes for levels, the remaining attempts for retries, the orders of the
  buddy allocator. Loops that may not end are partial functions or \<open>while_option\<close>, and the theorems
  about them state that they return a result. The only bound given by the model is the depth of
  recursive deletion, one more than the length of the longest directory path.

  \<^bold>\<open>Not modelled.\<close> In the four projects: sockets, files and the event loop around the name node, the data
  node and the client; token sampling and speculative decoding, which are numerical code on tensors;
  parsing of YAML and of the flow language, node executors, retry strategies, versioning, web service and
  front end of the workflow engine; the caching and unified allocators, the memory pool, caches,
  transfers and profiler of the memory manager. Python's recursion limit is not modelled, nor are locks
  and semaphores beyond the atomicity of the methods they protect. The other projects of the portfolio
  are not covered: Rust and Go programs, web applications on frameworks, numerical code on NumPy or
  PyTorch whose meaning is that of these libraries, pipelines around language models, and further Python
  projects that share no code with the four.
\<close>

end
